(* ===== verification/Prelude.thy ===== *)
theory Prelude
  imports Main "HOL-Library.Code_Target_Nat"
begin

text \<open>
  Shared vocabulary of the development.

  A Rust \<open>String\<close> or \<open>&str\<close> is modelled by its UTF-8 bytes: an Isabelle \<^typ>\<open>string\<close> is a list
  of 8-bit characters, so \<open>len()\<close> is \<^const>\<open>length\<close> and byte offsets are list positions. Iteration
  over \<open>chars()\<close> groups the bytes at the character boundaries that \<open>str::is_char_boundary\<close> tests
  (a byte that is not of the form \<open>10xxxxxx\<close>), and \<open>code_point\<close> reads the scalar value of one
  group. Panics are values: \<open>outcome\<close> has a constructor of its own for them, so that an
  out-of-range slice of the source is a branch of the model and not an unspecified value.
\<close>

named_theorems outcome_simps "evaluation rules of the outcome type"
named_theorems str_simps "byte strings and their characters"

section \<open>Outcomes: a result that may also panic\<close>

datatype ('e, 'a) outcome = Ok 'a | Err 'e | Panic

fun bind_outcome :: "('e, 'a) outcome \<Rightarrow> ('a \<Rightarrow> ('e, 'b) outcome) \<Rightarrow> ('e, 'b) outcome" where
  "bind_outcome (Ok a) f = f a"
| "bind_outcome (Err e) f = Err e"
| "bind_outcome Panic f = Panic"

fun map_err :: "('e \<Rightarrow> 'f) \<Rightarrow> ('e, 'a) outcome \<Rightarrow> ('f, 'a) outcome" where
  "map_err f (Ok a) = Ok a"
| "map_err f (Err e) = Err (f e)"
| "map_err f Panic = Panic"

lemma bind_outcome_Ok_iff [outcome_simps]:
  "bind_outcome r f = Ok b \<longleftrightarrow> (\<exists>a. r = Ok a \<and> f a = Ok b)"
  by (cases r) auto

lemma bind_outcome_Panic_iff [outcome_simps]:
  "bind_outcome r f = Panic \<longleftrightarrow> r = Panic \<or> (\<exists>a. r = Ok a \<and> f a = Panic)"
  by (cases r) auto

lemma map_err_Ok_iff [outcome_simps]: "map_err f r = Ok a \<longleftrightarrow> r = Ok a"
  by (cases r) auto

lemma map_err_Panic_iff [outcome_simps]: "map_err f r = Panic \<longleftrightarrow> r = Panic"
  by (cases r) auto

section \<open>Bytes and characters\<close>

abbreviation newline :: char where "newline \<equiv> CHR 0x0A"

definition is_cont :: "char \<Rightarrow> bool" where
  "is_cont b \<longleftrightarrow> 128 \<le> (of_char b :: nat) \<and> (of_char b :: nat) < 192"

text \<open>\<open>chars s\<close> lists the characters of \<open>s\<close>, each as its own bytes.\<close>

function chars :: "string \<Rightarrow> string list" where
  "chars [] = []"
| "chars (b # bs) = (b # takeWhile is_cont bs) # chars (dropWhile is_cont bs)"
  by pat_completeness auto
termination
  by (relation "measure length") (auto simp: le_imp_less_Suc length_dropWhile_le)

lemma concat_chars [simp, str_simps]: "concat (chars s) = s"
  by (induction s rule: chars.induct) auto

lemma chars_eq_Nil [simp]: "chars s = [] \<longleftrightarrow> s = []"
  by (cases s) auto

lemma Nil_notin_chars [simp]: "[] \<notin> set (chars s)"
  by (induction s rule: chars.induct) auto

lemma length_chars_le: "length (chars s) \<le> length s"
proof (induction s rule: chars.induct)
  case (2 b bs)
  then show ?case
    using length_dropWhile_le [of is_cont bs] by simp
qed simp

abbreviation char_count :: "string \<Rightarrow> nat" where
  "char_count s \<equiv> length (chars s)"

abbreviation byte_val :: "char \<Rightarrow> nat" where
  "byte_val b \<equiv> of_char b"

text \<open>The scalar value of one character, from the payload bits of its one to four bytes.\<close>

fun code_point :: "string \<Rightarrow> nat" where
  "code_point [a] = byte_val a"
| "code_point [a, b] = (byte_val a - 192) * 64 + (byte_val b - 128)"
| "code_point [a, b, c] = ((byte_val a - 224) * 64 + (byte_val b - 128)) * 64 + (byte_val c - 128)"
| "code_point [a, b, c, d] =
     (((byte_val a - 240) * 64 + (byte_val b - 128)) * 64 + (byte_val c - 128)) * 64
     + (byte_val d - 128)"
| "code_point _ = 0"

text \<open>\<open>char::is_whitespace\<close>: the Unicode property \<open>White_Space\<close>. \<open>char::is_control\<close>: category \<open>Cc\<close>.\<close>

definition is_whitespace :: "string \<Rightarrow> bool" where
  "is_whitespace c \<longleftrightarrow> (let p = code_point c in
     9 \<le> p \<and> p \<le> 13 \<or> p = 32 \<or> p = 133 \<or> p = 160 \<or> p = 5760 \<or> 8192 \<le> p \<and> p \<le> 8202
     \<or> p = 8232 \<or> p = 8233 \<or> p = 8239 \<or> p = 8287 \<or> p = 12288)"

definition is_control :: "string \<Rightarrow> bool" where
  "is_control c \<longleftrightarrow> (let p = code_point c in p \<le> 31 \<or> 127 \<le> p \<and> p \<le> 159)"

text \<open>Trimming works on characters; what is kept is re-joined into bytes.\<close>

definition drop_right :: "('a \<Rightarrow> bool) \<Rightarrow> 'a list \<Rightarrow> 'a list" where
  "drop_right p xs = rev (dropWhile p (rev xs))"

definition trim_end :: "string \<Rightarrow> string" where
  "trim_end s = concat (drop_right is_whitespace (chars s))"

definition trim :: "string \<Rightarrow> string" where
  "trim s = concat (drop_right is_whitespace (dropWhile is_whitespace (chars s)))"

lemma drop_right_Nil [simp]: "drop_right p [] = []"
  by (simp add: drop_right_def)

lemma drop_right_snoc [simp]: "drop_right p (xs @ [x]) = (if p x then drop_right p xs else xs @ [x])"
  by (simp add: drop_right_def)

lemma drop_right_append: "drop_right p xs @ rev (takeWhile p (rev xs)) = xs"
  by (metis drop_right_def rev_append rev_rev_ident takeWhile_dropWhile_id)

lemma drop_right_idem [simp]: "drop_right p (drop_right p xs) = drop_right p xs"
  by (simp add: drop_right_def dropWhile_idem)

lemma set_drop_right: "set (drop_right p xs) \<subseteq> set xs"
  using set_dropWhileD by (fastforce simp: drop_right_def)

lemma length_drop_right: "length (drop_right p xs) \<le> length xs"
  by (metis drop_right_def length_dropWhile_le length_rev)

lemma drop_right_eq_Nil: "drop_right p xs = [] \<longleftrightarrow> (\<forall>x\<in>set xs. p x)"
  by (simp add: drop_right_def)

lemma length_concat_mono:
  "length (concat (drop_right p xs)) \<le> length (concat xs)"
  using arg_cong [OF drop_right_append [of p xs], of "\<lambda>ys. length (concat ys)"]
  by simp

lemma length_trim_le: "length (trim s) \<le> length s"
proof -
  have "length (trim s) \<le> length (concat (dropWhile is_whitespace (chars s)))"
    unfolding trim_def by (rule length_concat_mono)
  also have "\<dots> \<le> length (concat (takeWhile is_whitespace (chars s) @ dropWhile is_whitespace (chars s)))"
    by (simp only: concat_append length_append)
  also have "\<dots> = length s" by simp
  finally show ?thesis .
qed

section \<open>Splitting and joining\<close>

text \<open>\<open>join sep parts\<close> of a slice of strings.\<close>

fun join :: "string \<Rightarrow> string list \<Rightarrow> string" where
  "join sep [] = []"
| "join sep [s] = s"
| "join sep (s # t # ss) = s @ sep @ join sep (t # ss)"

text \<open>\<open>split(c)\<close> for a single ASCII byte: always at least one part.\<close>

fun split_on :: "char \<Rightarrow> string \<Rightarrow> string list" where
  "split_on c [] = [[]]"
| "split_on c (b # bs) =
     (if b = c then [] # split_on c bs
      else case split_on c bs of
        [] \<Rightarrow> [[b]]
      | p # ps \<Rightarrow> (b # p) # ps)"

lemma split_on_not_Nil [simp]: "split_on c s \<noteq> []"
  by (cases s) (auto split: list.splits)

lemma join_split_on: "join [c] (split_on c s) = s"
proof (induction s)
  case (Cons b s)
  obtain p ps where sp: "split_on c s = p # ps"
    by (metis list.exhaust split_on_not_Nil)
  show ?case
    using Cons sp by (cases ps) auto
qed simp

lemma split_on_no_sep: "p \<in> set (split_on c s) \<Longrightarrow> c \<notin> set p"
  by (induction s arbitrary: p) (auto split: list.splits if_splits)

lemma split_on_append:
  "c \<notin> set p \<Longrightarrow> split_on c (p @ c # s) = p # split_on c s"
  by (induction p) auto

lemma split_on_single: "c \<notin> set p \<Longrightarrow> split_on c p = [p]"
  by (induction p) auto

lemma split_on_join:
  "ps \<noteq> [] \<Longrightarrow> \<forall>p\<in>set ps. c \<notin> set p \<Longrightarrow> split_on c (join [c] ps) = ps"
proof (induction ps rule: induct_list012)
  case (3 p q ps)
  then show ?case by (simp add: split_on_append)
qed (auto simp: split_on_single)

text \<open>\<open>split_inclusive('\n')\<close>: every piece keeps its terminator, an unterminated rest is a piece.\<close>

fun split_inclusive :: "string \<Rightarrow> string list" where
  "split_inclusive [] = []"
| "split_inclusive (b # bs) =
     (if b = newline then [b] # split_inclusive bs
      else case split_inclusive bs of
        [] \<Rightarrow> [[b]]
      | p # ps \<Rightarrow> (b # p) # ps)"

lemma concat_split_inclusive [simp, str_simps]: "concat (split_inclusive s) = s"
  by (induction s) (auto split: list.splits)

lemma split_inclusive_eq_Nil [simp]: "split_inclusive s = [] \<longleftrightarrow> s = []"
  by (cases s) (auto split: list.splits)

lemma Nil_notin_split_inclusive [simp]: "[] \<notin> set (split_inclusive s)"
  by (induction s) (auto split: list.splits)

text \<open>
  \<open>str::lines()\<close>: the pieces of \<open>split_inclusive\<close> without their terminator, which is \<open>\n\<close> or
  \<open>\r\n\<close>.
\<close>

definition strip_line :: "string \<Rightarrow> string" where
  "strip_line l =
     (if l \<noteq> [] \<and> last l = newline
      then let m = butlast l in if m \<noteq> [] \<and> last m = CHR 0x0D then butlast m else m
      else l)"

definition str_lines :: "string \<Rightarrow> string list" where
  "str_lines s = map strip_line (split_inclusive s)"

text \<open>Prefixes, suffixes and substrings, on bytes.\<close>

fun starts_with :: "string \<Rightarrow> string \<Rightarrow> bool" where
  "starts_with s [] = True"
| "starts_with [] (p # ps) = False"
| "starts_with (b # bs) (p # ps) = (b = p \<and> starts_with bs ps)"

definition ends_with :: "string \<Rightarrow> string \<Rightarrow> bool" where
  "ends_with s p = starts_with (rev s) (rev p)"

fun contains :: "string \<Rightarrow> string \<Rightarrow> bool" where
  "contains [] p = (p = [])"
| "contains (b # bs) p = (starts_with (b # bs) p \<or> contains bs p)"

lemma starts_with_iff: "starts_with s p \<longleftrightarrow> (\<exists>r. s = p @ r)"
  by (induction s p rule: starts_with.induct) auto

lemma ends_with_iff: "ends_with s p \<longleftrightarrow> (\<exists>r. s = r @ p)"
proof
  assume "ends_with s p"
  then obtain r where "rev s = rev p @ r" by (auto simp: ends_with_def starts_with_iff)
  then have "s = rev r @ p" by (metis rev_append rev_rev_ident)
  then show "\<exists>r. s = r @ p" by blast
qed (auto simp: ends_with_def starts_with_iff)

lemma contains_iff: "contains s p \<longleftrightarrow> (\<exists>l r. s = l @ p @ r)"
proof (induction s)
  case (Cons b s)
  show ?case
  proof
    assume "contains (b # s) p"
    then consider "starts_with (b # s) p" | "contains s p" by auto
    then show "\<exists>l r. b # s = l @ p @ r"
    proof cases
      case 1
      then show ?thesis by (metis append_Nil starts_with_iff)
    next
      case 2
      then show ?thesis using Cons.IH by (metis append_Cons)
    qed
  next
    assume "\<exists>l r. b # s = l @ p @ r"
    then obtain l r where lr: "b # s = l @ p @ r" by blast
    show "contains (b # s) p"
    proof (cases l)
      case Nil
      with lr have "starts_with (b # s) p" by (simp add: starts_with_iff)
      then show ?thesis by simp
    next
      case (Cons a l')
      with lr have "s = l' @ p @ r" by simp
      then have "contains s p" using \<open>contains s p \<longleftrightarrow> _\<close> by blast
      then show ?thesis by simp
    qed
  qed
qed auto

text \<open>\<open>str::replace\<close> for a non-empty pattern: leftmost matches, not overlapping.\<close>

function str_replace :: "string \<Rightarrow> string \<Rightarrow> string \<Rightarrow> string" where
  "str_replace p r [] = []"
| "str_replace p r (b # bs) =
     (if p \<noteq> [] \<and> starts_with (b # bs) p then r @ str_replace p r (drop (length p) (b # bs))
      else b # str_replace p r bs)"
  by pat_completeness auto
termination
  by (relation "measure (\<lambda>(p, r, s). length s)") (auto simp: neq_Nil_conv)

section \<open>Decimal numbers\<close>

text \<open>\<open>usize::to_string\<close>.\<close>

fun dec :: "nat \<Rightarrow> string" where
  "dec n = (if n < 10 then [char_of (48 + n)] else dec (n div 10) @ [char_of (48 + n mod 10)])"

declare dec.simps [simp del]

text \<open>A decimal is read back as the number it was printed from; so distinct numbers print differently.\<close>

definition dec_value :: "string \<Rightarrow> nat" where
  "dec_value s = foldl (\<lambda>n c. 10 * n + (of_char c - 48)) 0 s"

lemma dec_value_dec [simp]: "dec_value (dec n) = n"
proof (induction n rule: dec.induct)
  case (1 n)
  show ?case
  proof (cases "n < 10")
    case True
    then show ?thesis by (simp add: dec.simps dec_value_def of_char_of)
  next
    case False
    then have "dec_value (dec (n div 10)) = n div 10" using 1 by simp
    then show ?thesis using False by (subst dec.simps) (simp add: dec_value_def of_char_of)
  qed
qed

lemma dec_inject [simp]: "dec m = dec n \<longleftrightarrow> m = n"
  by (metis dec_value_dec)

lemma dec_digits: "c \<in> set (dec n) \<Longrightarrow> 48 \<le> (of_char c :: nat) \<and> (of_char c :: nat) \<le> 57"
proof (induction n rule: dec.induct)
  case (1 n)
  then show ?case
    by (cases "n < 10") (auto simp: dec.simps [of n] of_char_of)
qed

section \<open>Lists\<close>

lemma takeWhile_map_upt_sorted:
  assumes "sorted xs"
  shows "length (takeWhile (\<lambda>x. x \<le> b) xs) = card {i. i < length xs \<and> xs ! i \<le> (b :: 'a :: linorder)}"
proof -
  have "{i. i < length xs \<and> xs ! i \<le> b} = {i. i < length (takeWhile (\<lambda>x. x \<le> b) xs)}"
  proof (intro set_eqI iffI; simp)
    fix i
    assume i: "i < length xs \<and> xs ! i \<le> b"
    show "i < length (takeWhile (\<lambda>x. x \<le> b) xs)"
    proof (rule ccontr)
      assume "\<not> ?thesis"
      then have k: "length (takeWhile (\<lambda>x. x \<le> b) xs) \<le> i" by simp
      with i have "\<not> xs ! length (takeWhile (\<lambda>x. x \<le> b) xs) \<le> b"
        by (meson le_less_trans nth_length_takeWhile)
      moreover have "xs ! length (takeWhile (\<lambda>x. x \<le> b) xs) \<le> xs ! i"
        using assms i k by (simp add: sorted_nth_mono)
      ultimately show False using i by (meson order_trans)
    qed
  next
    fix i
    assume "i < length (takeWhile (\<lambda>x. x \<le> b) xs)"
    then show "i < length xs \<and> xs ! i \<le> b"
      by (metis length_takeWhile_le nth_mem order_less_le_trans set_takeWhileD takeWhile_nth)
  qed
  then show ?thesis by simp
qed

end
