(* ===== verification/JsonMap.thy ===== *)
theory JsonMap
  imports Json "HOL-Library.Char_ord" "HOL-Library.List_Lexorder"
begin

text \<open>
  The object type of \<open>serde_json\<close> (built without \<open>preserve_order\<close>: a \<open>BTreeMap\<close>, ordered by the bytes
  of the keys) as an association list: \<open>get\<close> is \<^const>\<open>map_of\<close>, and \<open>insert\<close>, \<open>remove\<close> and \<open>extend\<close>
  are the operations below. Facts about them are in the collection \<open>jobj_simps\<close>.
\<close>

named_theorems jobj_simps "lookups after insertions and removals in a JSON object"

type_synonym jobj = "(string \<times> json) list"

fun obj_insert :: "string \<Rightarrow> 'a \<Rightarrow> (string \<times> 'a) list \<Rightarrow> (string \<times> 'a) list" where
  "obj_insert k v [] = [(k, v)]"
| "obj_insert k v ((k', v') # es) =
     (if k = k' then (k, v) # es
      else if k < k' then (k, v) # (k', v') # es
      else (k', v') # obj_insert k v es)"

definition obj_remove :: "string \<Rightarrow> (string \<times> 'a) list \<Rightarrow> (string \<times> 'a) list" where
  "obj_remove k es = filter (\<lambda>e. fst e \<noteq> k) es"

definition obj_extend :: "(string \<times> 'a) list \<Rightarrow> (string \<times> 'a) list \<Rightarrow> (string \<times> 'a) list" where
  "obj_extend es new = foldl (\<lambda>acc (k, v). obj_insert k v acc) es new"

lemma map_of_obj_insert [jobj_simps]: "map_of (obj_insert k v es) = (map_of es)(k \<mapsto> v)"
  by (induction k v es rule: obj_insert.induct) (auto simp: fun_upd_def)

lemma set_obj_insert: "set (obj_insert k v es) \<subseteq> insert (k, v) (set es)"
  by (induction k v es rule: obj_insert.induct) auto

lemma obj_insert_mem: "(k, v) \<in> set (obj_insert k v es)"
  by (induction k v es rule: obj_insert.induct) auto

lemma map_of_obj_remove [jobj_simps]: "map_of (obj_remove k es) = (map_of es)(k := None)"
  by (induction es) (auto simp: obj_remove_def fun_upd_def)

lemma set_obj_remove [jobj_simps]: "set (obj_remove k es) = {e \<in> set es. fst e \<noteq> k}"
  by (simp add: obj_remove_def)

lemma obj_extend_Nil [simp]: "obj_extend es [] = es"
  by (simp add: obj_extend_def)

lemma obj_extend_Cons [simp]: "obj_extend es ((k, v) # new) = obj_extend (obj_insert k v es) new"
  by (simp add: obj_extend_def)

lemma set_obj_extend: "set (obj_extend es new) \<subseteq> set es \<union> set new"
proof (induction new arbitrary: es)
  case (Cons e new)
  obtain k v where e: "e = (k, v)" by (cases e)
  show ?case using Cons [of "obj_insert k v es"] set_obj_insert [of k v es] by (auto simp: e)
qed simp

lemma map_of_obj_extend_notin:
  "k \<notin> fst ` set new \<Longrightarrow> map_of (obj_extend es new) k = map_of es k"
  by (induction new arbitrary: es) (auto simp: jobj_simps)

lemma map_of_obj_extend_other:
  "map_of new k = None \<Longrightarrow> map_of (obj_extend es new) k = map_of es k"
  using map_of_obj_extend_notin by (metis map_of_eq_None_iff)

lemma size_map_of: "map_of es k = Some v \<Longrightarrow> size v \<le> size_list (size_prod f size) es"
  by (induction es) (auto split: if_splits)

end
