(* ===== verification/Headings.thy ===== *)
theory Headings
  imports Prelude
begin

text \<open>
  The heading model of \<open>src/src/heading.rs\<close>: the line index of a body, heading text and its
  normalisation, the stack algorithm that turns the markdown parser's events into a heading tree,
  and the section identities chunking attributes text to.

  The CommonMark parser (\<open>pulldown_cmark\<close>) is a crate the repository only calls: its event stream
  is a parameter, a list of events each with the byte offset its range starts at. Every lemma below
  holds for all event streams. Unicode case folding (the \<open>unicase\<close> crate) is a parameter too.
\<close>

section \<open>Frontmatter and line numbers\<close>

definition split_once :: "char \<Rightarrow> string \<Rightarrow> (string \<times> string) option" where
  "split_once c s =
     (if c \<in> set s then Some (takeWhile (\<lambda>b. b \<noteq> c) s, tl (dropWhile (\<lambda>b. b \<noteq> c) s)) else None)"

definition position :: "('a \<Rightarrow> bool) \<Rightarrow> 'a list \<Rightarrow> nat option" where
  "position p xs =
     (let i = length (takeWhile (\<lambda>x. \<not> p x) xs) in if i < length xs then Some i else None)"

definition is_frontmatter_delimiter_line :: "string \<Rightarrow> bool" where
  "is_frontmatter_delimiter_line line \<longleftrightarrow> trim_end line = ''---''"

definition body_line_offset :: "string \<Rightarrow> nat" where
  "body_line_offset content =
     (if length content \<le> length ''---'' then 0
      else
        let frontmatter_lines =
              (case split_once newline content of
                 Some (first, rest) \<Rightarrow>
                   if is_frontmatter_delimiter_line first
                   then (case position is_frontmatter_delimiter_line (str_lines rest) of
                           Some close \<Rightarrow> close + 2
                         | None \<Rightarrow> 1)
                   else 0
               | None \<Rightarrow> 0);
            stripped_blank =
              length (takeWhile (\<lambda>l. l = []) (drop frontmatter_lines (str_lines content)))
        in frontmatter_lines + stripped_blank)"

section \<open>LineIndex\<close>

record line_index =
  li_starts :: "nat list"
  li_len :: nat

text \<open>The positions just after each newline byte, counted from \<open>i\<close>.\<close>

fun newline_ends :: "nat \<Rightarrow> string \<Rightarrow> nat list" where
  "newline_ends i [] = []"
| "newline_ends i (b # bs) =
     (if b = newline then Suc i # newline_ends (Suc i) bs else newline_ends (Suc i) bs)"

definition line_index_new :: "string \<Rightarrow> line_index" where
  "line_index_new text =
     \<lparr>li_starts = (if text \<noteq> [] then 0 # newline_ends 0 text else []), li_len = length text\<rparr>"

definition line_count :: "line_index \<Rightarrow> nat" where
  "line_count li = length (li_starts li)"

text \<open>
  \<open>partition_point\<close> on the ascending starts is the number of leading starts at or below the byte.
\<close>

definition line_of :: "line_index \<Rightarrow> nat \<Rightarrow> nat" where
  "line_of li byte = max (length (takeWhile (\<lambda>s. s \<le> byte) (li_starts li))) 1"

definition clamp :: "nat \<Rightarrow> nat \<Rightarrow> nat \<Rightarrow> nat" where
  "clamp x lo hi = (if x < lo then lo else if hi < x then hi else x)"

definition byte_range :: "line_index \<Rightarrow> nat \<Rightarrow> nat \<Rightarrow> nat \<times> nat" where
  "byte_range li first last' =
     (let count = length (li_starts li) in
      if count = 0 then (0, 0)
      else
        let first = clamp first 1 count;
            last' = clamp last' first count;
            start = li_starts li ! (first - 1);
            end = (if last' < count then li_starts li ! last' - 1 else li_len li)
        in (start, end))"

definition slice :: "string \<Rightarrow> nat \<times> nat \<Rightarrow> string" where
  "slice s r = take (snd r - fst r) (drop (fst r) s)"

section \<open>Heading text\<close>

definition MAX_HEADING_TEXT_CHARS :: nat where
  "MAX_HEADING_TEXT_CHARS = 200"

definition MAX_HEADING_TEXT_RAW_CHARS :: nat where
  "MAX_HEADING_TEXT_RAW_CHARS = 2 * MAX_HEADING_TEXT_CHARS"

definition HEADING_KEY_SEPARATOR :: string where
  "HEADING_KEY_SEPARATOR = [CHR 0x1F]"

definition is_layout_only_char :: "string \<Rightarrow> bool" where
  "is_layout_only_char c \<longleftrightarrow> (let p = code_point c in
     p = 0x00AD \<or> p = 0x200B \<or> 0x2060 \<le> p \<and> p \<le> 0x2064 \<or> p = 0xFEFF)"

definition is_rendering_format_char :: "string \<Rightarrow> bool" where
  "is_rendering_format_char c \<longleftrightarrow> (let p = code_point c in
     p = 0x061C \<or> p = 0x180E \<or> 0x200C \<le> p \<and> p \<le> 0x200F \<or> 0x202A \<le> p \<and> p \<le> 0x202E
     \<or> 0x2066 \<le> p \<and> p \<le> 0x206F \<or> 0xFE00 \<le> p \<and> p \<le> 0xFE0F)"

definition is_ignored_in_matching :: "string \<Rightarrow> bool" where
  "is_ignored_in_matching c \<longleftrightarrow> is_layout_only_char c \<or> is_rendering_format_char c"

text \<open>\<open>split\<close> with a character predicate, on a list of characters.\<close>

fun split_by :: "('a \<Rightarrow> bool) \<Rightarrow> 'a list \<Rightarrow> 'a list list" where
  "split_by p [] = [[]]"
| "split_by p (c # cs) =
     (if p c then [] # split_by p cs
      else case split_by p cs of [] \<Rightarrow> [[c]] | w # ws \<Rightarrow> (c # w) # ws)"

text \<open>
  The inner loop over one word's characters: the text so far, its count of matching characters and
  of all characters, and whether the caps were hit (\<open>break 'words\<close>).
\<close>

fun push_word_chars ::
    "nat \<Rightarrow> bool \<Rightarrow> string list \<Rightarrow> nat \<Rightarrow> nat \<Rightarrow> string list \<Rightarrow> string list \<times> nat \<times> nat \<times> bool" where
  "push_word_chars word_start word_matching out matching raw [] = (out, matching, raw, False)"
| "push_word_chars word_start word_matching out matching raw (c # cs) =
     (let counts = \<not> is_rendering_format_char c in
      if counts \<and> matching = MAX_HEADING_TEXT_CHARS \<or> raw = MAX_HEADING_TEXT_RAW_CHARS
      then (if word_matching then out else take word_start out, matching, raw, True)
      else push_word_chars word_start (word_matching \<or> counts) (out @ [c])
             (matching + (if counts then 1 else 0)) (raw + 1) cs)"

fun clean_words :: "string list \<Rightarrow> nat \<Rightarrow> nat \<Rightarrow> string list list \<Rightarrow> string list" where
  "clean_words out matching raw [] = out"
| "clean_words out matching raw (word # words) =
     (let word_start = length out in
      if out \<noteq> [] \<and> (matching = MAX_HEADING_TEXT_CHARS \<or> raw = MAX_HEADING_TEXT_RAW_CHARS)
      then out
      else
        let (out, matching, raw) =
              (if out \<noteq> [] then (out @ ['' ''], matching + 1, raw + 1) else (out, matching, raw));
            (out, matching, raw, broke) =
              push_word_chars word_start False out matching raw
                (filter (\<lambda>c. \<not> is_layout_only_char c) word)
        in if broke then out else clean_words out matching raw words)"

definition heading_words :: "string \<Rightarrow> string list list" where
  "heading_words s =
     filter (\<lambda>word. \<exists>c\<in>set word. \<not> is_ignored_in_matching c)
       (split_by (\<lambda>c. is_whitespace c \<or> is_control c) (chars s))"

definition clean_heading_text :: "string \<Rightarrow> string" where
  "clean_heading_text s = concat (drop_right is_whitespace (clean_words [] 0 0 (heading_words s)))"

definition normalize_heading_text :: "(string \<Rightarrow> string) \<Rightarrow> string \<Rightarrow> string" where
  "normalize_heading_text to_folded_case s =
     (let visible =
            concat (filter (\<lambda>c. \<not> is_ignored_in_matching c) (chars (clean_heading_text s)));
          folded = to_folded_case visible
      in if MAX_HEADING_TEXT_CHARS < char_count folded
         then trim_end (concat (take MAX_HEADING_TEXT_CHARS (chars folded)))
         else folded)"

definition heading_prefix_key :: "(string \<Rightarrow> string) \<Rightarrow> string list \<Rightarrow> string" where
  "heading_prefix_key to_folded_case segments =
     join HEADING_KEY_SEPARATOR (map (normalize_heading_text to_folded_case) segments)"

section \<open>HeadingTree\<close>

record heading =
  hd_level :: nat
  hd_text :: string
  hd_line :: nat
  hd_parent :: "nat option"
  hd_section_end :: nat
  hd_subtree_end :: nat

record heading_tree =
  ht_headings :: "heading list"
  ht_lines :: line_index

text \<open>The parser events the code matches on; every other event is \<open>OtherEvent\<close>.\<close>

datatype md_tag = BlockQuote | ListTag | FootnoteDefinition | HeadingTag nat | OtherTag

datatype md_event =
    Start md_tag
  | End md_tag
  | TextEvent string
  | CodeEvent string
  | SoftBreak
  | HardBreak
  | OtherEvent

record heading_scan =
  sc_open :: "(nat \<times> nat \<times> string) option"
  sc_depth :: nat
  sc_found :: "(nat \<times> nat \<times> string) list"

definition is_container :: "md_tag \<Rightarrow> bool" where
  "is_container t \<longleftrightarrow> t = BlockQuote \<or> t = ListTag \<or> t = FootnoteDefinition"

definition push_open :: "string \<Rightarrow> heading_scan \<Rightarrow> heading_scan" where
  "push_open t sc =
     (case sc_open sc of
        None \<Rightarrow> sc
      | Some (level, line, raw) \<Rightarrow> sc\<lparr>sc_open := Some (level, line, raw @ t)\<rparr>)"

definition close_heading :: "heading_scan \<Rightarrow> heading_scan" where
  "close_heading sc =
     (case sc_open sc of
        None \<Rightarrow> sc
      | Some (level, line, raw) \<Rightarrow>
          let text = clean_heading_text raw;
              new_line = (sc_found sc = [] \<or> fst (snd (last (sc_found sc))) < line)
          in sc\<lparr>sc_open := None,
                sc_found := (if text \<noteq> [] \<and> new_line then sc_found sc @ [(level, line, text)]
                             else sc_found sc)\<rparr>)"

fun scan_event :: "line_index \<Rightarrow> heading_scan \<Rightarrow> md_event \<times> nat \<Rightarrow> heading_scan" where
  "scan_event lines sc (Start t, start) =
     (if is_container t then sc\<lparr>sc_depth := sc_depth sc + 1\<rparr>
      else case t of
        HeadingTag level \<Rightarrow>
          if sc_depth sc = 0 then sc\<lparr>sc_open := Some (level, line_of lines start, [])\<rparr> else sc
      | _ \<Rightarrow> sc)"
| "scan_event lines sc (End t, start) =
     (if is_container t then sc\<lparr>sc_depth := sc_depth sc - 1\<rparr>
      else case t of HeadingTag _ \<Rightarrow> close_heading sc | _ \<Rightarrow> sc)"
| "scan_event lines sc (TextEvent t, start) = push_open t sc"
| "scan_event lines sc (CodeEvent t, start) = push_open t sc"
| "scan_event lines sc (SoftBreak, start) = push_open '' '' sc"
| "scan_event lines sc (HardBreak, start) = push_open '' '' sc"
| "scan_event lines sc (OtherEvent, start) = sc"

definition scan_headings :: "line_index \<Rightarrow> (md_event \<times> nat) list \<Rightarrow> (nat \<times> nat \<times> string) list" where
  "scan_headings lines events =
     sc_found (foldl (scan_event lines) \<lparr>sc_open = None, sc_depth = 0, sc_found = []\<rparr> events)"

text \<open>
  The second loop. \<open>stack\<close> holds the open ancestry with its top first; a heading closes every open
  heading at its level or deeper.
\<close>

fun close_open :: "nat \<Rightarrow> nat \<Rightarrow> heading list \<Rightarrow> nat list \<Rightarrow> heading list \<times> nat list" where
  "close_open level line hs [] = (hs, [])"
| "close_open level line hs (t # stack) =
     (if hd_level (hs ! t) < level then (hs, t # stack)
      else close_open level line
             (hs[t := (hs ! t)\<lparr>hd_subtree_end := max (line - 1) (hd_line (hs ! t))\<rparr>]) stack)"

fun place_heading ::
    "nat \<Rightarrow> heading list \<times> nat list \<Rightarrow> nat \<times> nat \<times> string \<Rightarrow> heading list \<times> nat list" where
  "place_heading n (hs, stack) (level, line, text) =
     (let hs =
            (if hs = [] then hs
             else hs[length hs - 1 :=
                    (last hs)\<lparr>hd_section_end := max (line - 1) (hd_line (last hs))\<rparr>]);
          (hs, stack) = close_open level line hs stack;
          idx = length hs
      in (hs @ [\<lparr>hd_level = level, hd_text = text, hd_line = line,
                 hd_parent = (case stack of [] \<Rightarrow> None | t # _ \<Rightarrow> Some t),
                 hd_section_end = max n line, hd_subtree_end = max n line\<rparr>],
          idx # stack))"

definition build_headings :: "nat \<Rightarrow> (nat \<times> nat \<times> string) list \<Rightarrow> heading list" where
  "build_headings n found = fst (foldl (place_heading n) ([], []) found)"

definition heading_tree_parse :: "(string \<Rightarrow> (md_event \<times> nat) list) \<Rightarrow> string \<Rightarrow> heading_tree" where
  "heading_tree_parse parser body =
     (let lines = line_index_new body;
          found = scan_headings lines (parser body)
      in \<lparr>ht_headings = build_headings (line_count lines) found, ht_lines = lines\<rparr>)"

definition tree_line_count :: "heading_tree \<Rightarrow> nat" where
  "tree_line_count t = line_count (ht_lines t)"

definition preamble_end :: "heading_tree \<Rightarrow> nat" where
  "preamble_end t =
     (case ht_headings t of [] \<Rightarrow> tree_line_count t | h # _ \<Rightarrow> hd_line h - 1)"

text \<open>
  Walks to the root. Fuel bounds them; in a tree whose parents precede their children (every parsed
  tree, shown below) a walk from \<open>i\<close> visits at most \<open>i + 1\<close> headings, and one from the pair \<open>(a, b)\<close> makes at most
  \<open>a + b\<close> steps: the fuel given is enough.
\<close>

fun path_up :: "nat \<Rightarrow> heading list \<Rightarrow> nat option \<Rightarrow> string list" where
  "path_up 0 hs cur = []"
| "path_up (Suc fuel) hs None = []"
| "path_up (Suc fuel) hs (Some i) = hd_text (hs ! i) # path_up fuel hs (hd_parent (hs ! i))"

lemma path_up_code [code]:
  "path_up fuel hs cur =
     (if fuel = 0 then [] else case cur of None \<Rightarrow> [] | Some i \<Rightarrow>
        hd_text (hs ! i) # path_up (fuel - 1) hs (hd_parent (hs ! i)))"
  by (cases fuel; cases cur) auto

definition tree_path :: "heading_tree \<Rightarrow> nat option \<Rightarrow> string list" where
  "tree_path t node =
     rev (path_up (case node of None \<Rightarrow> 1 | Some i \<Rightarrow> i + 2) (ht_headings t) node)"

fun common_up :: "nat \<Rightarrow> (nat \<Rightarrow> nat option) \<Rightarrow> nat \<Rightarrow> nat \<Rightarrow> nat option" where
  "common_up 0 parent a b = None"
| "common_up (Suc fuel) parent a b =
     (if a = b then Some a
      else if b < a
      then (case parent a of None \<Rightarrow> None | Some p \<Rightarrow> common_up fuel parent p b)
      else (case parent b of None \<Rightarrow> None | Some p \<Rightarrow> common_up fuel parent a p))"

definition parent_of :: "heading list \<Rightarrow> nat \<Rightarrow> nat option" where
  "parent_of hs i = (if i < length hs then hd_parent (hs ! i) else None)"

definition common_ancestor :: "heading_tree \<Rightarrow> nat option \<Rightarrow> nat option \<Rightarrow> nat option" where
  "common_ancestor t a b =
     (case (a, b) of
        (Some a, Some b) \<Rightarrow> common_up (a + b + 1) (parent_of (ht_headings t)) a b
      | _ \<Rightarrow> None)"

section \<open>SectionId\<close>

datatype section_id = Root | Preamble | Heading nat

fun section_merge :: "section_id \<Rightarrow> section_id \<Rightarrow> heading_tree \<Rightarrow> section_id" where
  "section_merge a b t =
     (if a = b then a
      else case (a, b) of
        (Heading i, Heading j) \<Rightarrow>
          (case common_ancestor t (Some i) (Some j) of None \<Rightarrow> Root | Some k \<Rightarrow> Heading k)
      | _ \<Rightarrow> Root)"

fun section_path :: "section_id \<Rightarrow> heading_tree \<Rightarrow> string list" where
  "section_path (Heading i) t = tree_path t (Some i)"
| "section_path Root t = []"
| "section_path Preamble t = []"

fun section_level :: "section_id \<Rightarrow> heading_tree \<Rightarrow> nat" where
  "section_level (Heading i) t = hd_level (ht_headings t ! i)"
| "section_level Root t = 0"
| "section_level Preamble t = 0"

fun section_line_range :: "section_id \<Rightarrow> heading_tree \<Rightarrow> nat \<times> nat" where
  "section_line_range (Heading i) t =
     (hd_line (ht_headings t ! i), hd_subtree_end (ht_headings t ! i))"
| "section_line_range Preamble t = (1, preamble_end t)"
| "section_line_range Root t = (1, tree_line_count t)"

section \<open>The stack algorithm computes the declarative heading tree\<close>

text \<open>
  What a tree says of heading \<open>i\<close>, without a stack: its parent is the nearest earlier heading of a
  lower level, its section ends before the next heading, its subtree before the next heading of the
  same level or shallower.
\<close>


definition nearest_lower :: "nat list \<Rightarrow> nat \<Rightarrow> nat option" where
  "nearest_lower lv i = find (\<lambda>j. lv ! j < lv ! i) (rev [0..<i])"

definition next_closing :: "nat list \<Rightarrow> nat \<Rightarrow> nat option" where
  "next_closing lv i = find (\<lambda>j. lv ! j \<le> lv ! i) [Suc i..<length lv]"

definition heading_at :: "nat \<Rightarrow> (nat \<times> nat \<times> string) list \<Rightarrow> nat \<Rightarrow> heading" where
  "heading_at n found i =
     (let lv = map fst found; ln = map (\<lambda>x. fst (snd x)) found in
      \<lparr>hd_level = lv ! i, hd_text = snd (snd (found ! i)), hd_line = ln ! i,
       hd_parent = nearest_lower lv i,
       hd_section_end = (if Suc i < length found then max (ln ! Suc i - 1) (ln ! i) else max n (ln ! i)),
       hd_subtree_end = (case next_closing lv i of
                           Some j \<Rightarrow> max (ln ! j - 1) (ln ! i)
                         | None \<Rightarrow> max n (ln ! i))\<rparr>)"

definition open_at :: "nat list \<Rightarrow> nat \<Rightarrow> bool" where
  "open_at lv i \<longleftrightarrow> (\<forall>j. i < j \<and> j < length lv \<longrightarrow> lv ! i < lv ! j)"

definition open_stack :: "nat list \<Rightarrow> nat list" where
  "open_stack lv = filter (open_at lv) (rev [0..<length lv])"

lemma close_open_dropWhile:
  "distinct stack \<Longrightarrow> \<forall>i\<in>set stack. i < length hs \<Longrightarrow>
   close_open level line hs stack =
     (map (\<lambda>i. if i \<in> set (takeWhile (\<lambda>i. level \<le> hd_level (hs ! i)) stack)
               then (hs ! i)\<lparr>hd_subtree_end := max (line - 1) (hd_line (hs ! i))\<rparr> else hs ! i)
        [0..<length hs],
      dropWhile (\<lambda>i. level \<le> hd_level (hs ! i)) stack)"
proof (induction level line hs stack rule: close_open.induct)
  case (1 level line hs)
  then show ?case by (simp add: map_nth)
next
  case (2 level line hs t stack)
  let ?hs = "hs[t := (hs ! t)\<lparr>hd_subtree_end := max (line - 1) (hd_line (hs ! t))\<rparr>]"
  show ?case
  proof (cases "hd_level (hs ! t) < level")
    case True
    then show ?thesis by (simp add: map_nth)
  next
    case False
    have lev: "hd_level (?hs ! i) = hd_level (hs ! i)" for i
      using "2.prems" by (cases "i = t") auto
    have *: "close_open level line ?hs stack =
     (map (\<lambda>i. if i \<in> set (takeWhile (\<lambda>i. level \<le> hd_level (?hs ! i)) stack)
               then (?hs ! i)\<lparr>hd_subtree_end := max (line - 1) (hd_line (?hs ! i))\<rparr> else ?hs ! i)
        [0..<length ?hs],
      dropWhile (\<lambda>i. level \<le> hd_level (?hs ! i)) stack)"
      using "2.prems" False by (intro "2.IH") auto
    have t: "t \<notin> set (takeWhile (\<lambda>i. level \<le> hd_level (hs ! i)) stack)"
      using "2.prems" by (auto dest: set_takeWhileD)
    have "close_open level line hs (t # stack) = close_open level line ?hs stack"
      using False by simp
    then show ?thesis
      unfolding * lev using False t "2.prems" by (auto simp: nth_list_update intro!: nth_equalityI)
  qed
qed

lemma set_open_stack: "set (open_stack lv) = {i. i < length lv \<and> open_at lv i}"
  by (auto simp: open_stack_def)

lemma distinct_open_stack: "distinct (open_stack lv)"
  by (simp add: open_stack_def)

lemma sorted_open_stack: "sorted_wrt (\<lambda>i j. j < i \<and> lv ! j < lv ! i) (open_stack lv)"
proof -
  have "sorted_wrt (>) (rev [0..<length lv])" by (simp add: sorted_wrt_rev)
  then have "sorted_wrt (>) (open_stack lv)"
    unfolding open_stack_def by (rule sorted_wrt_filter)
  then show ?thesis
    by (rule sorted_wrt_mono_rel [rotated]) (auto simp: open_stack_def open_at_def)
qed

lemma dropWhile_eq_filter:
  "sorted_wrt (\<lambda>x y. P y \<longrightarrow> P x) xs \<Longrightarrow> dropWhile P xs = filter (\<lambda>x. \<not> P x) xs \<and> takeWhile P xs = filter P xs"
  by (induction xs) (auto simp: filter_empty_conv)

lemma open_at_snoc:
  "i < length lv \<Longrightarrow> open_at (lv @ [l]) i \<longleftrightarrow> open_at lv i \<and> lv ! i < l"
  by (auto simp: open_at_def nth_append less_Suc_eq)

lemma open_stack_snoc:
  "open_stack (lv @ [l]) = length lv # dropWhile (\<lambda>i. l \<le> lv ! i) (open_stack lv)"
proof -
  have "sorted_wrt (\<lambda>i j. l \<le> lv ! j \<longrightarrow> l \<le> lv ! i) (open_stack lv)"
    using sorted_open_stack by (rule sorted_wrt_mono_rel [rotated]) auto
  then have d: "dropWhile (\<lambda>i. l \<le> lv ! i) (open_stack lv) = filter (\<lambda>i. \<not> l \<le> lv ! i) (open_stack lv)"
    using dropWhile_eq_filter by fast
  have "open_at (lv @ [l]) (length lv)" by (simp add: open_at_def)
  then show ?thesis unfolding d
    by (auto simp: open_stack_def open_at_snoc not_le intro!: filter_cong)
qed


lemma last_lower_open:
  assumes "j < length lv" and "lv ! j < l"
  obtains i where "j \<le> i" "i < length lv" "open_at lv i" "lv ! i < l"
proof -
  define S where "S = {i. i < length lv \<and> lv ! i < l}"
  have S: "finite S" "j \<in> S" using assms by (auto simp: S_def)
  then have m: "Max S \<in> S" "\<forall>i\<in>S. i \<le> Max S" by (auto intro: Max_in)
  have "open_at lv (Max S)"
    unfolding open_at_def
  proof (intro allI impI)
    fix k assume k: "Max S < k \<and> k < length lv"
    then have "k \<notin> S" using m(2) by auto
    with k have "l \<le> lv ! k" by (auto simp: S_def)
    moreover have "lv ! Max S < l" using m(1) by (simp add: S_def)
    ultimately show "lv ! Max S < lv ! k" by simp
  qed
  then show thesis using that [of "Max S"] m S(2) by (auto simp: S_def)
qed

lemma find_append: "find P (xs @ ys) = (case find P xs of None \<Rightarrow> find P ys | Some x \<Rightarrow> Some x)"
  by (induction xs) auto

lemma find_rev_upt:
  assumes "t < n" "P t" "\<And>k. t < k \<Longrightarrow> k < n \<Longrightarrow> \<not> P k"
  shows "find P (rev [0..<n]) = Some t"
proof -
  have "[0..<n] = [0..<t] @ t # [Suc t..<n]"
    using assms(1) upt_add_eq_append [of 0 t "n - t"] by (simp add: upt_conv_Cons)
  then have "rev [0..<n] = rev [Suc t..<n] @ t # rev [0..<t]" by simp
  moreover have "find P (rev [Suc t..<n]) = None" using assms(3) by (auto simp: find_None_iff)
  ultimately show ?thesis using assms(2) by (simp add: find_append)
qed

lemma nearest_lower_open:
  "nearest_lower (lv @ [l]) (length lv) =
     (case dropWhile (\<lambda>i. l \<le> lv ! i) (open_stack lv) of [] \<Rightarrow> None | t # _ \<Rightarrow> Some t)"
proof -
  let ?P = "\<lambda>j. (lv @ [l]) ! j < (lv @ [l]) ! length lv"
  let ?d = "dropWhile (\<lambda>i. l \<le> lv ! i) (open_stack lv)"
  have s: "sorted_wrt (\<lambda>i j. l \<le> lv ! j \<longrightarrow> l \<le> lv ! i) (open_stack lv)"
    using sorted_open_stack by (rule sorted_wrt_mono_rel [rotated]) auto
  then have d: "?d = filter (\<lambda>i. lv ! i < l) (open_stack lv)"
    using dropWhile_eq_filter by (fastforce simp: not_le)
  have desc: "sorted_wrt (>) ?d"
    unfolding d using sorted_open_stack [of lv]
    by (intro sorted_wrt_filter) (auto elim: sorted_wrt_mono_rel [rotated])
  have above: "\<exists>i\<in>set ?d. j \<le> i" if "j < length lv" "?P j" for j
  proof -
    have j: "j < length lv" "lv ! j < l" using that by (auto simp: nth_append)
    obtain i where "j \<le> i" "i < length lv" "open_at lv i" "lv ! i < l"
      by (rule last_lower_open [OF j])
    then show ?thesis unfolding d by (auto simp: set_open_stack)
  qed
  show ?thesis
  proof (cases ?d)
    case Nil
    have "\<not> ?P j" if "j < length lv" for j
      using above [OF that] unfolding Nil by auto
    then have "find ?P (rev [0..<length lv]) = None" by (auto simp: find_None_iff)
    then show ?thesis unfolding Nil nearest_lower_def by simp
  next
    case (Cons t ts)
    then have "t \<in> set ?d" by simp
    then have t: "t < length lv" "lv ! t < l" unfolding d by (auto simp: set_open_stack)
    have le: "i \<le> t" if "i \<in> set ?d" for i
      using desc that unfolding Cons by auto
    have "find ?P (rev [0..<length lv]) = Some t"
    proof (rule find_rev_upt)
      fix k assume "t < k" "k < length lv"
      then show "\<not> ?P k" using above [of k] le by fastforce
    qed (use t in \<open>auto simp: nth_append\<close>)
    then show ?thesis unfolding Cons nearest_lower_def by simp
  qed
qed

lemma next_closing_snoc:
  "i < length lv \<Longrightarrow> next_closing (lv @ [l]) i =
     (case next_closing lv i of
        Some j \<Rightarrow> Some j | None \<Rightarrow> if l \<le> lv ! i then Some (length lv) else None)"
proof -
  assume i: "i < length lv"
  have u: "[Suc i..<length (lv @ [l])] = [Suc i..<length lv] @ [length lv]" using i by simp
  have f: "find (\<lambda>j. (lv @ [l]) ! j \<le> (lv @ [l]) ! i) [Suc i..<length lv] =
    find (\<lambda>j. lv ! j \<le> lv ! i) [Suc i..<length lv]"
    using i by (intro find_cong) (auto simp: nth_append)
  have g: "find (\<lambda>j. (lv @ [l]) ! j \<le> (lv @ [l]) ! i) [length lv] =
    (if l \<le> lv ! i then Some (length lv) else None)"
    using i by (simp add: nth_append)
  show ?thesis unfolding next_closing_def u find_append f g ..
qed

lemma next_closing_SomeD:
  "next_closing lv i = Some j \<Longrightarrow> i < j \<and> j < length lv \<and> lv ! j \<le> lv ! i"
  by (auto simp: next_closing_def find_Some_iff Suc_le_eq)

lemma next_closing_None: "next_closing lv i = None \<longleftrightarrow> open_at lv i"
  by (auto simp: next_closing_def find_None_iff open_at_def Suc_le_eq not_le)

lemma nearest_lower_prefix:
  "i < length lv \<Longrightarrow> nearest_lower (lv @ [l]) i = nearest_lower lv i"
  unfolding nearest_lower_def by (intro find_cong) (auto simp: nth_append)

lemma foldl_place_heading:
  "foldl (place_heading n) ([], []) found =
     (map (heading_at n found) [0..<length found], open_stack (map fst found))"
proof (induction found rule: rev_induct)
  case Nil
  show ?case by (simp add: open_stack_def)
next
  case (snoc x xs)
  obtain l ln t where x: "x = (l, ln, t)" by (cases x) auto
  let ?lv = "map fst xs" and ?hs = "map (heading_at n xs) [0..<length xs]"
  define hs1 where "hs1 = (if ?hs = [] then ?hs
     else ?hs[length ?hs - 1 := (last ?hs)\<lparr>hd_section_end := max (ln - 1) (hd_line (last ?hs))\<rparr>])"
  have len1: "length hs1 = length xs" by (simp add: hs1_def)
  have hs1_nth: "hs1 ! i = (if Suc i = length xs
       then (?hs ! i)\<lparr>hd_section_end := max (ln - 1) (hd_line (?hs ! i))\<rparr> else ?hs ! i)"
    if "i < length xs" for i
    using that by (auto simp: hs1_def last_conv_nth nth_list_update)
  have lev: "hd_level (hs1 ! i) = ?lv ! i" if "i < length xs" for i
    using that by (simp add: hs1_nth heading_at_def Let_def)
  let ?p = "\<lambda>i. l \<le> ?lv ! i"
  have tw: "takeWhile (\<lambda>i. l \<le> hd_level (hs1 ! i)) (open_stack ?lv) = takeWhile ?p (open_stack ?lv)"
       and dw: "dropWhile (\<lambda>i. l \<le> hd_level (hs1 ! i)) (open_stack ?lv) = dropWhile ?p (open_stack ?lv)"
    by (rule takeWhile_cong dropWhile_cong; simp add: set_open_stack lev)+
  have s: "sorted_wrt (\<lambda>i j. ?p j \<longrightarrow> ?p i) (open_stack ?lv)"
    using sorted_open_stack by (rule sorted_wrt_mono_rel [rotated]) auto
  have co: "close_open l ln hs1 (open_stack ?lv) =
     (map (\<lambda>i. if open_at ?lv i \<and> l \<le> ?lv ! i
               then (hs1 ! i)\<lparr>hd_subtree_end := max (ln - 1) (hd_line (hs1 ! i))\<rparr> else hs1 ! i)
        [0..<length xs], dropWhile ?p (open_stack ?lv))"
    using close_open_dropWhile [OF distinct_open_stack, of ?lv hs1 l ln] dropWhile_eq_filter [OF s]
    by (simp add: set_open_stack len1 tw dw)
  have new: "heading_at n (xs @ [x]) i =
     (let h = hs1 ! i in if open_at ?lv i \<and> l \<le> ?lv ! i
      then h\<lparr>hd_subtree_end := max (ln - 1) (hd_line h)\<rparr> else h)" if i: "i < length xs" for i
  proof -
    have "next_closing (?lv @ [l]) i = (if open_at ?lv i \<and> l \<le> ?lv ! i then Some (length xs)
        else next_closing ?lv i)"
      using i next_closing_None [of ?lv i] by (auto simp: next_closing_snoc split: option.splits)
    then show ?thesis
      using i next_closing_None [of ?lv i]
      by (auto simp: heading_at_def x hs1_nth Let_def nth_append nearest_lower_prefix less_Suc_eq
          split: option.splits dest: next_closing_SomeD)
  qed
  have "place_heading n (?hs, open_stack ?lv) x =
     (map (heading_at n (xs @ [x])) [0..<length xs] @ [heading_at n (xs @ [x]) (length xs)],
      open_stack (?lv @ [l]))"
    unfolding x place_heading.simps hs1_def [symmetric] Let_def
    using new nearest_lower_open [of ?lv l]
    by (simp add: co open_stack_snoc heading_at_def x nth_append next_closing_def Let_def)
  then show ?case using snoc by (simp add: x)
qed

lemma build_headings_eq: "build_headings n found = map (heading_at n found) [0..<length found]"
  by (simp add: build_headings_def foldl_place_heading)


lemma foldl_invariant:
  "P s \<Longrightarrow> (\<And>s x. P s \<Longrightarrow> P (f s x)) \<Longrightarrow> P (foldl f s xs)"
  by (induction xs arbitrary: s) auto

section \<open>Line numbers and ranges\<close>

fun part_offsets :: "nat \<Rightarrow> string list \<Rightarrow> nat list" where
  "part_offsets i [] = []"
| "part_offsets i (p # ps) = i # part_offsets (i + length p + 1) ps"

lemma newline_ends_parts: "i # newline_ends i s = part_offsets i (split_on newline s)"
proof (induction s arbitrary: i)
  case (Cons b s)
  show ?case
  proof (cases "b = newline")
    case True
    then show ?thesis using Cons [of "Suc i"] by simp
  next
    case False
    obtain p ps where sp: "split_on newline s = p # ps"
      by (metis list.exhaust split_on_not_Nil)
    show ?thesis using Cons [of "Suc i"] False by (simp add: sp)
  qed
qed simp

lemma length_part_offsets [simp]: "length (part_offsets i ps) = length ps"
  by (induction ps arbitrary: i) auto

definition parts_len :: "string list \<Rightarrow> nat" where
  "parts_len ps = (\<Sum>p\<leftarrow>ps. Suc (length p))"

lemma parts_len_simps [simp]: "parts_len [] = 0" "parts_len (p # ps) = Suc (length p) + parts_len ps"
  "parts_len (ps @ qs) = parts_len ps + parts_len qs"
  by (auto simp: parts_len_def)

lemma part_offsets_nth: "k < length ps \<Longrightarrow> part_offsets i ps ! k = i + parts_len (take k ps)"
proof (induction ps arbitrary: i k)
  case (Cons p ps)
  then show ?case by (cases k) auto
qed simp

lemma drop_join: "k < length ps \<Longrightarrow> drop (parts_len (take k ps)) (join [c] ps) = join [c] (drop k ps)"
proof (induction ps arbitrary: k rule: induct_list012)
  case (2 p)
  then show ?case by simp
next
  case (3 p q ps)
  then show ?case by (cases k) auto
qed simp

lemma take_join:
  "0 < k \<Longrightarrow> k < length ps \<Longrightarrow> take (parts_len (take k ps) - 1) (join [c] ps) = join [c] (take k ps)"
proof (induction ps arbitrary: k rule: induct_list012)
  case (3 p q ps)
  show ?case
  proof (cases "k = 1")
    case False
    then obtain k' where k': "k = Suc k'" "0 < k'" using "3.prems" by (cases k) auto
    then have "take (parts_len (take k' (q # ps)) - 1) (join [c] (q # ps)) = join [c] (take k' (q # ps))"
      using "3.prems" by (intro "3.IH") auto
    moreover obtain r rs where "take k' (q # ps) = r # rs" using k' by (cases k') auto
    ultimately show ?thesis using k' by auto
  qed simp
qed auto

lemma length_join: "ps \<noteq> [] \<Longrightarrow> length (join [c] ps) = parts_len ps - 1"
proof (induction ps rule: induct_list012)
  case (3 p q ps)
  then show ?case by (cases ps) auto
qed auto

lemma line_index_parts:
  "text \<noteq> [] \<Longrightarrow> li_starts (line_index_new text) = part_offsets 0 (split_on newline text)"
  using newline_ends_parts [of 0 "text"] by (simp add: line_index_new_def)

lemma line_count_new:
  "line_count (line_index_new text) = (if text = [] then 0 else length (split_on newline text))"
  by (simp add: line_count_def line_index_parts) (simp add: line_index_new_def)

lemma byte_range_in:
  "1 \<le> a \<Longrightarrow> a \<le> b \<Longrightarrow> b \<le> line_count li \<Longrightarrow>
   byte_range li a b =
     (li_starts li ! (a - 1), if b < line_count li then li_starts li ! b - 1 else li_len li)"
  by (auto simp: byte_range_def line_count_def clamp_def Let_def)

lemma slice_byte_range:
  assumes "1 \<le> a" "a \<le> b" "b \<le> line_count (line_index_new text)"
  shows "slice text (byte_range (line_index_new text) a b) =
    join [newline] (take (b - a + 1) (drop (a - 1) (split_on newline text)))"
proof -
  let ?ps = "split_on newline text" and ?li = "line_index_new text"
  have ne: "text \<noteq> []" and len: "length (li_starts ?li) = length ?ps" "b \<le> length ?ps"
    using assms by (auto simp: line_count_new line_index_parts split: if_splits)
  have st: "li_starts ?li ! k = parts_len (take k ?ps)" if "k < length ?ps" for k
    using that ne by (simp add: line_index_parts part_offsets_nth)
  note br = byte_range_in [OF assms]
  have lil: "li_len ?li = length text" by (simp add: line_index_new_def)
  have dj: "drop (parts_len (take (a - 1) ?ps)) text = join [newline] (drop (a - 1) ?ps)"
    using drop_join [of "a - 1" ?ps newline] assms len by (simp add: join_split_on)
  let ?qs = "drop (a - 1) ?ps"
  show ?thesis
  proof (cases "b < length ?ps")
    case True
    have k: "take b ?ps = take (a - 1) ?ps @ take (b - a + 1) ?qs"
      using assms take_add [of "a - 1" "b - a + 1" ?ps] by simp
    have "take (parts_len (take (b - a + 1) ?qs) - 1) (join [newline] ?qs) = join [newline] (take (b - a + 1) ?qs)"
      using True assms by (intro take_join) auto
    then show ?thesis
      using True assms len ne dj
      by (simp add: slice_def br st k line_count_def del: One_nat_def)
  next
    case False
    then have b: "b = length ?ps" using len by simp
    then have "take (b - a + 1) ?qs = ?qs" using assms by simp
    moreover have "take (length text - parts_len (take (a - 1) ?ps)) (join [newline] ?qs) = join [newline] ?qs"
      unfolding dj [symmetric] by simp
    ultimately show ?thesis
      unfolding slice_def br fst_conv snd_conv
      using b assms len dj by (simp add: st line_count_def lil del: One_nat_def)
  qed
qed

lemma sorted_part_offsets: "sorted_wrt (<) (part_offsets i ps)"
proof -
  have "\<forall>x\<in>set (part_offsets i ps). i \<le> x" for i ps
    by (induction ps arbitrary: i) (auto, fastforce)
  then show ?thesis
  proof (induction ps arbitrary: i)
    case (Cons p ps)
    then show ?case by (auto simp: Suc_le_eq) (metis add_Suc_right less_add_Suc1 order_less_le_trans)
  qed simp
qed

lemma sorted_starts: "sorted_wrt (<) (li_starts (line_index_new text))"
  by (cases "text = []") (simp_all add: line_index_parts sorted_part_offsets, simp add: line_index_new_def)

lemma line_of_pos: "1 \<le> line_of li b"
  by (simp add: line_of_def)

lemma line_of_le: "line_of (line_index_new text) b \<le> max 1 (line_count (line_index_new text))"
  by (auto simp: line_of_def line_count_def length_takeWhile_le intro: le_max_iff_disj [THEN iffD2])

text \<open>The line of a byte is the one line whose bytes, terminator included, hold it.\<close>

lemma line_of_bounds:
  assumes "b < length text"
  defines "li \<equiv> line_index_new text" and "l \<equiv> line_of (line_index_new text) b"
  shows "1 \<le> l \<and> l \<le> line_count li \<and> fst (byte_range li l l) \<le> b \<and> b \<le> snd (byte_range li l l)"
proof -
  let ?s = "li_starts li" and ?w = "takeWhile (\<lambda>s. s \<le> b) (li_starts li)"
  have ne: "text \<noteq> []" using assms by auto
  then have s0: "?s \<noteq> []" "?s ! 0 = 0" "hd ?s = 0" by (auto simp: li_def line_index_new_def)
  then have w: "?w \<noteq> []" by (cases ?s) auto
  then have l: "l = length ?w" 
    by (cases ?w) (auto simp: l_def line_of_def li_def)
  have le: "l \<le> length ?s" by (simp add: l length_takeWhile_le)
  have l1: "1 \<le> l" using w l by (simp add: Suc_le_eq)
  have st: "?s ! (l - 1) \<le> b"
  proof -
    have "?w ! (l - 1) \<in> set ?w" using l l1 by (intro nth_mem) simp
    then have "?w ! (l - 1) \<le> b" by (auto dest: set_takeWhileD)
    then show ?thesis using l l1 by (simp add: takeWhile_nth)
  qed
  have en: "b \<le> (if l < length ?s then ?s ! l - 1 else li_len li)"
  proof (cases "l < length ?s")
    case True
    then have "\<not> ?s ! l \<le> b" using nth_length_takeWhile [of "\<lambda>s. s \<le> b" ?s] l by simp
    then show ?thesis using True by simp
  next
    case False
    then show ?thesis using assms(1) by (simp add: li_def line_index_new_def)
  qed
  show ?thesis
    using l1 le st en by (simp add: byte_range_in line_count_def)
qed


section \<open>What the scan of the events guarantees\<close>

definition found_wf :: "line_index \<Rightarrow> (nat \<times> nat \<times> string) list \<Rightarrow> bool" where
  "found_wf lines found \<longleftrightarrow>
     sorted_wrt (<) (map (\<lambda>x. fst (snd x)) found)
     \<and> (\<forall>x\<in>set found. 1 \<le> fst (snd x) \<and> fst (snd x) \<le> max 1 (line_count lines) \<and> snd (snd x) \<noteq> [])"

definition scan_wf :: "line_index \<Rightarrow> heading_scan \<Rightarrow> bool" where
  "scan_wf lines sc \<longleftrightarrow> found_wf lines (sc_found sc)
     \<and> (\<forall>x. sc_open sc = Some x \<longrightarrow> 1 \<le> fst (snd x) \<and> fst (snd x) \<le> max 1 (line_count lines))"

lemma found_wf_snoc:
  assumes "found_wf lines found" "found = [] \<or> fst (snd (last found)) < line"
    and "1 \<le> line" "line \<le> max 1 (line_count lines)" "t \<noteq> []"
  shows "found_wf lines (found @ [(level, line, t)])"
proof -
  have "fst (snd x) < line" if x: "x \<in> set found" for x
  proof -
    have "found \<noteq> []" using x by auto
    then have "fst (snd x) \<le> fst (snd (last found))"
      using assms(1) x
      by (cases found rule: rev_cases) (auto simp: found_wf_def sorted_wrt_append less_imp_le)
    then show ?thesis using assms(2) \<open>found \<noteq> []\<close> by simp
  qed
  then show ?thesis using assms by (auto simp: found_wf_def sorted_wrt_append)
qed

lemma push_open_wf: "scan_wf lines sc \<Longrightarrow> scan_wf lines (push_open t sc)"
  by (auto simp: scan_wf_def push_open_def split: option.splits)

lemma close_heading_wf: "scan_wf lines sc \<Longrightarrow> scan_wf lines (close_heading sc)"
  by (auto simp: scan_wf_def close_heading_def Let_def found_wf_snoc split: option.splits)

lemma scan_event_wf:
  "scan_wf (line_index_new body) sc \<Longrightarrow> scan_wf (line_index_new body) (scan_event (line_index_new body) sc e)"
proof -
  assume wf: "scan_wf (line_index_new body) sc"
  obtain ev start where e: "e = (ev, start)" by (cases e)
  show ?thesis
  proof (cases ev)
    case (Start t)
    have "1 \<le> line_of (line_index_new body) start
        \<and> line_of (line_index_new body) start \<le> max 1 (line_count (line_index_new body))"
      by (intro conjI line_of_pos line_of_le)
    then show ?thesis
      using wf unfolding e Start scan_wf_def
      by (cases t) (simp_all add: is_container_def del: One_nat_def)
  next
    case (End t)
    have "scan_wf (line_index_new body) (sc\<lparr>sc_depth := sc_depth sc - 1\<rparr>)"
      using wf by (simp add: scan_wf_def)
    then show ?thesis
      using wf unfolding e End by (cases t) (simp_all add: is_container_def close_heading_wf)
  qed (use wf in \<open>simp_all add: e push_open_wf\<close>)
qed

lemma scan_headings_wf: "found_wf (line_index_new body) (scan_headings (line_index_new body) events)"
proof -
  have "scan_wf (line_index_new body)
     (foldl (scan_event (line_index_new body)) \<lparr>sc_open = None, sc_depth = 0, sc_found = []\<rparr> events)"
    by (rule foldl_invariant) (simp_all add: scan_event_wf, simp add: scan_wf_def found_wf_def)
  then show ?thesis by (simp add: scan_headings_def scan_wf_def)
qed

section \<open>Well-formed heading lists\<close>

definition headings_wf :: "nat \<Rightarrow> heading list \<Rightarrow> bool" where
  "headings_wf n hs \<longleftrightarrow>
     (\<exists>lines found. n = line_count lines \<and> found_wf lines found \<and> hs = build_headings n found)"

lemma heading_tree_parse_wf:
  "headings_wf (tree_line_count (heading_tree_parse parser body)) (ht_headings (heading_tree_parse parser body))"
  unfolding headings_wf_def tree_line_count_def heading_tree_parse_def Let_def
  using scan_headings_wf by fastforce

lemma nearest_lower_SomeD:
  "nearest_lower lv i = Some p \<Longrightarrow> p < i \<and> lv ! p < lv ! i \<and> (\<forall>k. p < k \<and> k < i \<longrightarrow> lv ! i \<le> lv ! k)"
proof -
  assume "nearest_lower lv i = Some p"
  then obtain m where m: "m < i" "rev [0..<i] ! m = p" "lv ! p < lv ! i"
      "\<forall>k<m. \<not> lv ! (rev [0..<i] ! k) < lv ! i"
    by (auto simp: nearest_lower_def find_Some_iff)
  have p: "p = i - Suc m" using m by (simp add: rev_nth)
  have "lv ! i \<le> lv ! k" if "p < k" "k < i" for k
  proof -
    have "i - Suc k < m" "rev [0..<i] ! (i - Suc k) = k" using that p m by (auto simp: rev_nth)
    then show ?thesis using m(4) by (metis not_le)
  qed
  then show ?thesis using p m by auto
qed

lemma nearest_lower_NoneD: "nearest_lower lv i = None \<Longrightarrow> k < i \<Longrightarrow> lv ! i \<le> lv ! k"
  unfolding nearest_lower_def find_None_iff by (metis atLeast_upt lessThan_iff not_le set_rev)

lemma next_closing_SomeD2:
  "next_closing lv i = Some j \<Longrightarrow> i < k \<Longrightarrow> k < j \<Longrightarrow> lv ! i < lv ! k"
proof -
  assume a: "next_closing lv i = Some j" "i < k" "k < j"
  then obtain m where m: "m < length [Suc i..<length lv]" "[Suc i..<length lv] ! m = j"
      "\<forall>k<m. \<not> lv ! ([Suc i..<length lv] ! k) \<le> lv ! i"
    by (auto simp: next_closing_def find_Some_iff)
  have "k - Suc i < m" "[Suc i..<length lv] ! (k - Suc i) = k" using a m by auto
  then show ?thesis using m(3) by (metis not_le)
qed

text \<open>
  The facts about a well-formed heading list that the other components use: lines ascend, texts are
  not empty, parents are the nearest earlier headings of a lower level, and no range is inverted.
\<close>

lemma headings_wf_lines:
  "headings_wf n hs \<Longrightarrow> i < j \<Longrightarrow> j < length hs \<Longrightarrow> hd_line (hs ! i) < hd_line (hs ! j)"
  by (auto simp: headings_wf_def found_wf_def build_headings_eq heading_at_def Let_def sorted_wrt_map
      dest: sorted_wrt_nth_less)

lemma headings_wf_basic:
  "headings_wf n hs \<Longrightarrow> i < length hs \<Longrightarrow>
   1 \<le> hd_line (hs ! i) \<and> hd_line (hs ! i) \<le> max 1 n \<and> hd_text (hs ! i) \<noteq> []"
  unfolding headings_wf_def found_wf_def
  by (elim exE conjE) (simp add: build_headings_eq heading_at_def Let_def del: One_nat_def)

lemma headings_wf_ends:
  assumes "headings_wf n hs" "i < length hs"
  shows headings_wf_nearest: "hd_parent (hs ! i) = nearest_lower (map hd_level hs) i"
    and headings_wf_section: "hd_section_end (hs ! i) =
        (if Suc i < length hs then max (hd_line (hs ! Suc i) - 1) (hd_line (hs ! i))
         else max n (hd_line (hs ! i)))"
    and headings_wf_subtree: "hd_subtree_end (hs ! i) = (case next_closing (map hd_level hs) i of
         Some j \<Rightarrow> max (hd_line (hs ! j) - 1) (hd_line (hs ! i)) | None \<Rightarrow> max n (hd_line (hs ! i)))"
proof -
  from assms(1) obtain found where f: "hs = map (heading_at n found) [0..<length found]"
    by (auto simp: headings_wf_def build_headings_eq)
  then have lv: "map hd_level hs = map fst found"
    by (auto simp: heading_at_def Let_def intro!: nth_equalityI)
  have len: "length hs = length found" using f by simp
  have nth: "hs ! k = heading_at n found k" if "k < length found" for k
    unfolding f using that by simp
  have i: "i < length found" using assms(2) len by simp
  note h = nth [OF i] heading_at_def [of n found i]
  show "hd_parent (hs ! i) = nearest_lower (map hd_level hs) i"
    unfolding lv h Let_def by simp
  show "hd_section_end (hs ! i) =
        (if Suc i < length hs then max (hd_line (hs ! Suc i) - 1) (hd_line (hs ! i))
         else max n (hd_line (hs ! i)))"
    using i nth [of "Suc i"] unfolding len h Let_def by (simp add: heading_at_def Let_def)
  show "hd_subtree_end (hs ! i) = (case next_closing (map hd_level hs) i of
         Some j \<Rightarrow> max (hd_line (hs ! j) - 1) (hd_line (hs ! i)) | None \<Rightarrow> max n (hd_line (hs ! i)))"
    using i nth next_closing_SomeD [of "map fst found" i] unfolding lv h Let_def
    by (auto simp: heading_at_def Let_def split: option.splits)
qed

lemma headings_wf_parent:
  assumes "headings_wf n hs" "i < length hs"
  shows "case hd_parent (hs ! i) of
      Some p \<Rightarrow> p < i \<and> hd_level (hs ! p) < hd_level (hs ! i)
                \<and> (\<forall>k. p < k \<and> k < i \<longrightarrow> hd_level (hs ! i) \<le> hd_level (hs ! k))
    | None \<Rightarrow> \<forall>k<i. hd_level (hs ! i) \<le> hd_level (hs ! k)"
proof (cases "hd_parent (hs ! i)")
  case None
  then show ?thesis
    using nearest_lower_NoneD [of "map hd_level hs" i] headings_wf_nearest [OF assms] assms(2) by auto
next
  case (Some p)
  then show ?thesis
    using nearest_lower_SomeD [of "map hd_level hs" i p] headings_wf_nearest [OF assms] assms(2) by auto
qed

lemma headings_wf_ranges:
  assumes "headings_wf n hs" "i < length hs"
  shows "hd_line (hs ! i) \<le> hd_section_end (hs ! i) \<and> hd_section_end (hs ! i) \<le> hd_subtree_end (hs ! i)
     \<and> hd_subtree_end (hs ! i) \<le> max 1 n"
proof -
  note b = headings_wf_basic [OF assms(1)] and m = headings_wf_lines [OF assms(1)]
  show ?thesis
  proof (cases "next_closing (map hd_level hs) i")
    case None
    have "hd_line (hs ! i) \<le> hd_line (hs ! Suc i) - 1 \<and> hd_line (hs ! Suc i) - 1 \<le> n" if "Suc i < length hs"
      using b [OF that] m [of i "Suc i"] that by auto
    then show ?thesis
      using None b [OF assms(2)] unfolding headings_wf_section [OF assms] headings_wf_subtree [OF assms]
      by auto
  next
    case (Some j)
    then have j: "i < j" "j < length hs" using next_closing_SomeD [OF Some] by auto
    then have "hd_line (hs ! Suc i) \<le> hd_line (hs ! j)" using m [of "Suc i" j] by (cases "Suc i = j") auto
    then show ?thesis
      using Some j b [OF assms(2)] b [OF j(2)] m [OF j] m [of i "Suc i"]
      unfolding headings_wf_section [OF assms] headings_wf_subtree [OF assms] by auto
  qed
qed

lemma headings_wf_section_end:
  "headings_wf n hs \<Longrightarrow> Suc i < length hs \<Longrightarrow> hd_section_end (hs ! i) = hd_line (hs ! Suc i) - 1"
  using headings_wf_section [of n hs i] headings_wf_lines [of n hs i "Suc i"] by auto

lemma headings_wf_last_section_end:
  assumes "headings_wf n hs" "hs \<noteq> []"
  shows "hd_section_end (last hs) = max n (hd_line (last hs))"
  using headings_wf_section [OF assms(1), of "length hs - 1"] assms(2) by (simp add: last_conv_nth)

text \<open>Heading \<open>j\<close> starts inside the subtree range of an earlier heading exactly when every level
  between stays deeper.\<close>

lemma headings_wf_inside:
  assumes "headings_wf n hs" "i < j" "j < length hs"
  shows "hd_line (hs ! j) \<le> hd_subtree_end (hs ! i)
     \<longleftrightarrow> (\<forall>k. i < k \<and> k \<le> j \<longrightarrow> hd_level (hs ! i) < hd_level (hs ! k))"
proof -
  note b = headings_wf_basic [OF assms(1)] and m = headings_wf_lines [OF assms(1)]
  have i: "i < length hs" using assms by simp
  let ?lv = "map hd_level hs"
  show ?thesis
  proof (cases "next_closing ?lv i")
    case None
    then have "hd_level (hs ! i) < hd_level (hs ! k)" if "i < k" "k \<le> j" for k
      using that assms next_closing_None [of ?lv i] by (auto simp: open_at_def)
    moreover have "hd_line (hs ! j) \<le> max n (hd_line (hs ! i))"
      using b [OF assms(3)] b [OF i] m [OF assms(2,3)] by auto
    ultimately show ?thesis using None headings_wf_subtree [OF assms(1) i] by auto
  next
    case (Some c)
    then have c: "i < c" "c < length hs" "hd_level (hs ! c) \<le> hd_level (hs ! i)"
      using next_closing_SomeD [OF Some] i by auto
    have s: "hd_subtree_end (hs ! i) = hd_line (hs ! c) - 1"
      using Some headings_wf_subtree [OF assms(1) i] m [OF c(1,2)] by auto
    show ?thesis
    proof (cases "c \<le> j")
      case True
      then have "hd_line (hs ! c) \<le> hd_line (hs ! j)" using m [of c j] assms by (cases "c = j") auto
      then have "\<not> hd_line (hs ! j) \<le> hd_line (hs ! c) - 1" using m [OF c(1,2)] by simp
      then show ?thesis using s True c by (metis not_le)
    next
      case False
      then have "hd_level (hs ! i) < hd_level (hs ! k)" if "i < k" "k \<le> j" for k
        using next_closing_SomeD2 [OF Some, of k] that assms i by auto
      moreover have "hd_line (hs ! j) \<le> hd_line (hs ! c) - 1" using m [of j c] False c by simp
      ultimately show ?thesis using s by auto
    qed
  qed
qed


section \<open>Ancestry\<close>

text \<open>\<open>anc parent c i\<close>: \<open>c\<close> is \<open>i\<close> or one of its ancestors.\<close>

inductive anc :: "(nat \<Rightarrow> nat option) \<Rightarrow> nat \<Rightarrow> nat \<Rightarrow> bool" for parent where
  anc_refl: "anc parent i i"
| anc_step: "parent i = Some p \<Longrightarrow> anc parent c p \<Longrightarrow> anc parent c i"

inductive_cases anc_cases: "anc parent c i"

lemma anc_unfold: "anc parent c i \<longleftrightarrow> c = i \<or> (\<exists>p. parent i = Some p \<and> anc parent c p)"
  by (auto intro: anc.intros elim: anc_cases)

lemma anc_trans: "anc parent b c \<Longrightarrow> anc parent a b \<Longrightarrow> anc parent a c"
  by (induction rule: anc.induct) (auto intro: anc_step)

text \<open>
  The interface between the heading tree and everything that walks it upwards: the walker knows only
  that a parent comes before its child.
\<close>

locale ancestry =
  fixes parent :: "nat \<Rightarrow> nat option"
  assumes parent_less: "parent i = Some p \<Longrightarrow> p < i"
begin

lemma anc_le: "anc parent c i \<Longrightarrow> c \<le> i"
  by (induction rule: anc.induct) (auto dest: parent_less)

lemma anc_antisym: "anc parent a b \<Longrightarrow> anc parent b a \<Longrightarrow> a = b"
  using anc_le by (meson le_antisym)

lemma anc_parent: "anc parent c i \<Longrightarrow> c \<noteq> i \<Longrightarrow> \<exists>p. parent i = Some p \<and> anc parent c p"
  by (auto elim: anc_cases)

lemma common_up_unfold_parent:
  assumes "b < a" "anc parent d a" "anc parent d b"
  shows "\<exists>p. parent a = Some p \<and> anc parent d p"
  using anc_parent [OF assms(2)] anc_le [OF assms(3)] assms(1) by auto

lemma common_up_Some:
  "common_up fuel parent a b = Some c \<Longrightarrow>
   anc parent c a \<and> anc parent c b \<and> (\<forall>d. anc parent d a \<longrightarrow> anc parent d b \<longrightarrow> anc parent d c)"
proof (induction fuel arbitrary: a b)
  case (Suc fuel)
  consider "a = b" | "b < a" | "a < b" by linarith
  then show ?case
  proof cases
    case 1
    then show ?thesis using Suc.prems by (auto intro: anc_refl)
  next
    case 2
    then obtain p where "parent a = Some p" "common_up fuel parent p b = Some c"
      using Suc.prems by (auto split: option.splits)
    then show ?thesis using Suc.IH common_up_unfold_parent [OF 2] by (auto intro: anc_step)
  next
    case 3
    then obtain p where "parent b = Some p" "common_up fuel parent a p = Some c"
      using Suc.prems by (auto split: option.splits)
    then show ?thesis using Suc.IH common_up_unfold_parent [OF 3] by (auto intro: anc_step)
  qed
qed simp

lemma common_up_None:
  "common_up fuel parent a b = None \<Longrightarrow> a + b < fuel \<Longrightarrow> \<not> (anc parent d a \<and> anc parent d b)"
proof (induction fuel arbitrary: a b)
  case (Suc fuel)
  consider "b < a" | "a < b" using Suc.prems(1) by (cases a b rule: linorder_cases) auto
  then show ?case
  proof cases
    case 1
    show ?thesis
    proof (cases "parent a")
      case None
      then show ?thesis using common_up_unfold_parent [OF 1] by fastforce
    next
      case (Some p)
      then show ?thesis
        using Suc.IH [of p b] Suc.prems 1 parent_less [OF Some] common_up_unfold_parent [OF 1, of d] by auto
    qed
  next
    case 2
    show ?thesis
    proof (cases "parent b")
      case None
      then show ?thesis using common_up_unfold_parent [OF 2] by fastforce
    next
      case (Some p)
      then show ?thesis
        using Suc.IH [of a p] Suc.prems 2 parent_less [OF Some] common_up_unfold_parent [OF 2, of d] by auto
    qed
  qed
qed simp

text \<open>With enough fuel the walk returns exactly the deepest common ancestor, or None when there is none.\<close>

lemma common_up_iff:
  assumes "a + b < fuel"
  shows "common_up fuel parent a b = Some c \<longleftrightarrow>
    anc parent c a \<and> anc parent c b \<and> (\<forall>d. anc parent d a \<longrightarrow> anc parent d b \<longrightarrow> anc parent d c)"
proof
  assume r: "anc parent c a \<and> anc parent c b \<and> (\<forall>d. anc parent d a \<longrightarrow> anc parent d b \<longrightarrow> anc parent d c)"
  show "common_up fuel parent a b = Some c"
  proof (cases "common_up fuel parent a b")
    case None
    then show ?thesis using common_up_None [OF None assms] r by blast
  next
    case (Some c')
    then show ?thesis using common_up_Some [OF Some] r anc_antisym by auto
  qed
qed (use common_up_Some in blast)

lemma common_up_sym: "a + b < fuel \<Longrightarrow> common_up fuel parent a b = common_up fuel parent b a"
proof -
  assume f: "a + b < fuel"
  then have f': "b + a < fuel" by simp
  have "common_up fuel parent a b = Some c \<longleftrightarrow> common_up fuel parent b a = Some c" for c
    unfolding common_up_iff [OF f] common_up_iff [OF f'] by blast
  then show ?thesis by (metis option.exhaust)
qed

end

lemma build_headings_parent_less:
  "parent_of (build_headings n found) i = Some p \<Longrightarrow> p < i"
  by (auto simp: parent_of_def build_headings_eq heading_at_def Let_def
      dest: nearest_lower_SomeD split: if_splits)

interpretation hroot: ancestry "parent_of (build_headings n found)" for n found
  by unfold_locales (rule build_headings_parent_less)

definition tree_parent :: "heading_tree \<Rightarrow> nat \<Rightarrow> nat option" where
  "tree_parent t = parent_of (ht_headings t)"

interpretation tree: ancestry "tree_parent (heading_tree_parse parser body)" for parser body
  by unfold_locales (auto simp: tree_parent_def heading_tree_parse_def Let_def dest: build_headings_parent_less)

lemma common_ancestor_iff:
  fixes parser body
  defines "t \<equiv> heading_tree_parse parser body"
  shows "common_ancestor t (Some a) (Some b) = Some c \<longleftrightarrow>
    anc (tree_parent t) c a \<and> anc (tree_parent t) c b
    \<and> (\<forall>d. anc (tree_parent t) d a \<longrightarrow> anc (tree_parent t) d b \<longrightarrow> anc (tree_parent t) d c)"
  using tree.common_up_iff [of a b "a + b + 1"]
  by (simp add: common_ancestor_def t_def tree_parent_def)

text \<open>A heading's subtree range holds exactly the headings nested under it.\<close>

lemma anc_levels:
  assumes "headings_wf n hs" "j < length hs"
  shows "anc (parent_of hs) i j \<longleftrightarrow>
    i \<le> j \<and> (\<forall>k. i < k \<and> k \<le> j \<longrightarrow> hd_level (hs ! i) < hd_level (hs ! k))"
  using assms(2)
proof (induction j rule: less_induct)
  case (less j)
  note p = headings_wf_parent [OF assms(1) less.prems]
  show ?case
  proof (cases "i = j")
    case True
    then show ?thesis by (auto intro: anc_refl)
  next
    case False
    have u: "anc (parent_of hs) i j \<longleftrightarrow> (\<exists>p. hd_parent (hs ! j) = Some p \<and> anc (parent_of hs) i p)"
      using False less.prems by (subst anc_unfold) (auto simp: parent_of_def)
    show ?thesis
    proof (cases "hd_parent (hs ! j)")
      case None
      then show ?thesis using p u False
        by (metis (no_types, lifting) le_neq_implies_less not_less option.discI option.simps(4) order_refl)
    next
      case (Some q)
      with p have q: "q < j" "hd_level (hs ! q) < hd_level (hs ! j)"
          "\<And>k. q < k \<Longrightarrow> k < j \<Longrightarrow> hd_level (hs ! j) \<le> hd_level (hs ! k)" by auto
      have "anc (parent_of hs) i j \<longleftrightarrow> anc (parent_of hs) i q" using u Some by simp
      also have "\<dots> \<longleftrightarrow> i \<le> q \<and> (\<forall>k. i < k \<and> k \<le> q \<longrightarrow> hd_level (hs ! i) < hd_level (hs ! k))"
        using less.IH [OF q(1)] q(1) less.prems by simp
      also have "\<dots> \<longleftrightarrow> i \<le> j \<and> (\<forall>k. i < k \<and> k \<le> j \<longrightarrow> hd_level (hs ! i) < hd_level (hs ! k))"
      proof
        assume L: "i \<le> q \<and> (\<forall>k. i < k \<and> k \<le> q \<longrightarrow> hd_level (hs ! i) < hd_level (hs ! k))"
        then have "hd_level (hs ! i) \<le> hd_level (hs ! q)" by (cases "i = q") (auto simp: less_imp_le)
        then have "hd_level (hs ! i) < hd_level (hs ! k)" if "q < k" "k \<le> j" for k
          using q(2) q(3) [of k] that by (cases "k = j") auto
        then show "i \<le> j \<and> (\<forall>k. i < k \<and> k \<le> j \<longrightarrow> hd_level (hs ! i) < hd_level (hs ! k))"
          using L q(1) by (meson le_trans less_imp_le not_le)
      next
        assume R: "i \<le> j \<and> (\<forall>k. i < k \<and> k \<le> j \<longrightarrow> hd_level (hs ! i) < hd_level (hs ! k))"
        then have "hd_level (hs ! i) < hd_level (hs ! j)" using False by simp
        then have "\<not> q < i" using q(3) [of i] R False by fastforce
        then show "i \<le> q \<and> (\<forall>k. i < k \<and> k \<le> q \<longrightarrow> hd_level (hs ! i) < hd_level (hs ! k))"
          using R q(1) by auto
      qed
      finally show ?thesis .
    qed
  qed
qed

lemma subtree_range_iff_descendant:
  assumes "headings_wf n hs" "i < length hs" "j < length hs"
  shows "anc (parent_of hs) i j \<longleftrightarrow>
    hd_line (hs ! i) \<le> hd_line (hs ! j) \<and> hd_line (hs ! j) \<le> hd_subtree_end (hs ! i)"
proof (cases i j rule: linorder_cases)
  case less
  then show ?thesis
    using anc_levels [OF assms(1,3), of i] headings_wf_inside [OF assms(1) less assms(3)]
      headings_wf_lines [OF assms(1) less assms(3)] by auto
next
  case equal
  then show ?thesis using headings_wf_ranges [OF assms(1,2)] by (auto intro: anc_refl)
next
  case greater
  then show ?thesis
    using anc_levels [OF assms(1,3), of i] headings_wf_lines [OF assms(1) greater assms(2)] by auto
qed

section \<open>Paths\<close>

lemma path_up_None [simp]: "path_up fuel hs None = []"
  by (cases fuel) auto

lemma path_up_fuel:
  assumes "\<And>i p. parent_of hs i = Some p \<Longrightarrow> p < i"
  shows "i < length hs \<Longrightarrow> i < f \<Longrightarrow> i < g \<Longrightarrow> path_up f hs (Some i) = path_up g hs (Some i)"
proof (induction i arbitrary: f g rule: less_induct)
  case (less i)
  then obtain f' g' where fg: "f = Suc f'" "g = Suc g'" by (metis less_imp_Suc_add)
  show ?case
  proof (cases "hd_parent (hs ! i)")
    case (Some p)
    then have "p < i" using assms [of i p] less.prems by (simp add: parent_of_def)
    then show ?thesis using less.IH [of p f' g'] less.prems fg Some by simp
  qed (simp add: fg)
qed

lemma tree_path_None [simp]: "tree_path t None = []"
  by (simp add: tree_path_def)

lemma tree_path_Some:
  fixes parser body
  defines "t \<equiv> heading_tree_parse parser body"
  assumes "i < length (ht_headings t)"
  shows "tree_path t (Some i) =
    tree_path t (hd_parent (ht_headings t ! i)) @ [hd_text (ht_headings t ! i)]"
proof (cases "hd_parent (ht_headings t ! i)")
  case (Some p)
  have less: "\<And>i p. parent_of (ht_headings t) i = Some p \<Longrightarrow> p < i"
    using tree.parent_less by (simp add: t_def tree_parent_def)
  have p: "p < i" using less [of i p] Some assms by (simp add: parent_of_def)
  then have "path_up (i + 1) (ht_headings t) (Some p) = path_up (p + 2) (ht_headings t) (Some p)"
    using assms less by (intro path_up_fuel) auto
  then show ?thesis by (simp add: tree_path_def Some)
qed (simp add: tree_path_def)


lemma next_closing_le:
  "i < j \<Longrightarrow> j < length lv \<Longrightarrow> lv ! j \<le> lv ! i \<Longrightarrow> \<exists>k. next_closing lv i = Some k \<and> k \<le> j"
proof (cases "next_closing lv i")
  case None
  assume a: "i < j" "j < length lv" "lv ! j \<le> lv ! i"
  then have "open_at lv i" using None next_closing_None by blast
  then show ?thesis using a by (auto simp: open_at_def)
next
  case (Some k)
  assume a: "i < j" "lv ! j \<le> lv ! i"
  then have "\<not> j < k" using next_closing_SomeD2 [OF Some a(1)] by auto
  then show ?thesis using Some by simp
qed

lemma anc_range:
  assumes "headings_wf n hs" "anc (parent_of hs) c i" "i < length hs"
  shows "hd_line (hs ! c) \<le> hd_line (hs ! i) \<and> hd_subtree_end (hs ! i) \<le> hd_subtree_end (hs ! c) \<and> c \<le> i"
proof (cases "c = i")
  case False
  note lev = anc_levels [OF assms(1,3), of c]
  have ci: "c < i" and c: "c < length hs" using lev assms False by auto
  have inside: "hd_line (hs ! c) \<le> hd_line (hs ! i)" "hd_line (hs ! i) \<le> hd_subtree_end (hs ! c)"
    using subtree_range_iff_descendant [OF assms(1) c assms(3)] assms(2) by auto
  have "hd_subtree_end (hs ! i) \<le> hd_subtree_end (hs ! c)"
  proof (cases "next_closing (map hd_level hs) c")
    case None
    then show ?thesis
      using headings_wf_subtree [OF assms(1) c] headings_wf_ranges [OF assms(1,3)] headings_wf_basic [OF assms(1) c]
      by auto
  next
    case (Some j)
    then have j: "c < j" "j < length hs" "hd_level (hs ! j) \<le> hd_level (hs ! c)"
      using next_closing_SomeD [OF Some] c by auto
    have s: "hd_subtree_end (hs ! c) = hd_line (hs ! j) - 1"
      using Some headings_wf_subtree [OF assms(1) c] headings_wf_lines [OF assms(1) j(1,2)] by auto
    have "hd_level (hs ! c) < hd_level (hs ! i)" using lev assms ci by auto
    have "i < j"
    proof (rule ccontr)
      assume "\<not> i < j"
      then have "hd_level (hs ! c) < hd_level (hs ! j)" using lev assms(2) j(1) by auto
      then show False using j(3) by simp
    qed
    then obtain k where k: "next_closing (map hd_level hs) i = Some k" "k \<le> j"
      using next_closing_le [of i j "map hd_level hs"] j \<open>hd_level (hs ! c) < hd_level (hs ! i)\<close> assms(3) by auto
    then have ik: "i < k" "k < length hs" using next_closing_SomeD [OF k(1)] by auto
    have "hd_line (hs ! k) \<le> hd_line (hs ! j)"
      using headings_wf_lines [OF assms(1), of k j] k j by (cases "k = j") auto
    moreover have "hd_subtree_end (hs ! i) = hd_line (hs ! k) - 1"
      using k headings_wf_subtree [OF assms(1,3)] headings_wf_lines [OF assms(1) ik] by auto
    ultimately show ?thesis using s by simp
  qed
  then show ?thesis using inside ci by simp
qed (use assms in auto)


section \<open>Heading text: cleaning is bounded and idempotent\<close>

text \<open>
  A character as its own bytes: a lead byte and its continuation bytes, none after an ASCII byte.
  Every \<open>&str\<close> of the program is \<open>valid_str\<close>, since Rust strings hold valid UTF-8.
\<close>

definition is_char :: "string \<Rightarrow> bool" where
  "is_char c \<longleftrightarrow> c \<noteq> [] \<and> \<not> is_cont (hd c) \<and> (\<forall>b\<in>set (tl c). is_cont b)
     \<and> (byte_val (hd c) < 128 \<longrightarrow> tl c = [])"

definition valid_str :: "string \<Rightarrow> bool" where
  "valid_str s \<longleftrightarrow> (\<forall>c\<in>set (chars s). is_char c)"

lemma takeWhile_cont_concat:
  "\<forall>c\<in>set cs. is_char c \<Longrightarrow> takeWhile is_cont (concat cs) = [] \<and> dropWhile is_cont (concat cs) = concat cs"
  by (induction cs) (auto simp: is_char_def neq_Nil_conv)

lemma chars_concat: "\<forall>c\<in>set cs. is_char c \<Longrightarrow> chars (concat cs) = cs"
proof (induction cs)
  case (Cons c cs)
  obtain b bs where c: "c = b # bs" "\<forall>x\<in>set bs. is_cont x"
    using Cons.prems by (cases c) (auto simp: is_char_def)
  have "takeWhile is_cont (bs @ concat cs) = bs" "dropWhile is_cont (bs @ concat cs) = concat cs"
    using c(2) takeWhile_cont_concat [of cs] Cons.prems by (simp_all add: takeWhile_append2 dropWhile_append2)
  then show ?case using Cons c by simp
qed simp

abbreviation is_sep :: "string \<Rightarrow> bool" where
  "is_sep c \<equiv> is_whitespace c \<or> is_control c"

abbreviation space :: string where "space \<equiv> '' ''"

lemma space_facts: "is_whitespace space" "\<not> is_control space" "\<not> is_rendering_format_char space"
    "\<not> is_layout_only_char space" "is_char space"
  by (auto simp: is_whitespace_def is_control_def is_rendering_format_char_def
      is_layout_only_char_def is_char_def is_cont_def)

definition match_count :: "string list \<Rightarrow> nat" where
  "match_count cs = length (filter (\<lambda>c. \<not> is_rendering_format_char c) cs)"

lemma match_count_simps [simp]:
  "match_count [] = 0" "match_count (c # cs) = (if is_rendering_format_char c then 0 else 1) + match_count cs"
  "match_count (cs @ ds) = match_count cs + match_count ds"
  by (auto simp: match_count_def)

definition good_word :: "string list \<Rightarrow> bool" where
  "good_word w \<longleftrightarrow> (\<forall>c\<in>set w. \<not> is_sep c \<and> \<not> is_layout_only_char c)
     \<and> (\<exists>c\<in>set w. \<not> is_rendering_format_char c)"

fun join_words :: "string list list \<Rightarrow> string list" where
  "join_words [] = []"
| "join_words [w] = w"
| "join_words (w # v # ws) = w @ space # join_words (v # ws)"

lemma join_words_snoc:
  "join_words (ws @ [w]) = (if ws = [] then w else join_words ws @ space # w)"
  by (induction ws rule: join_words.induct) auto

definition within_caps :: "string list \<Rightarrow> bool" where
  "within_caps out \<longleftrightarrow>
     match_count out \<le> MAX_HEADING_TEXT_CHARS \<and> length out \<le> MAX_HEADING_TEXT_RAW_CHARS"

lemma push_word_chars_result:
  assumes "push_word_chars (length pre) wm (pre @ s0 @ acc) (match_count (pre @ s0 @ acc))
      (length (pre @ s0 @ acc)) cs = (out, m, r, broke)"
    and "within_caps (pre @ s0 @ acc)"
    and "wm \<longleftrightarrow> (\<exists>c\<in>set acc. \<not> is_rendering_format_char c)"
  shows "within_caps out \<and>
    (if broke
     then out = pre \<or> (\<exists>acc'. out = pre @ s0 @ acc' \<and> set acc' \<subseteq> set (acc @ cs)
                         \<and> (\<exists>c\<in>set acc'. \<not> is_rendering_format_char c))
     else out = pre @ s0 @ acc @ cs \<and> m = match_count out \<and> r = length out)"
  using assms
proof (induction cs arbitrary: acc wm)
  case Nil
  then show ?case by auto
next
  case (Cons c cs)
  let ?o = "pre @ s0 @ acc"
  show ?case
  proof (cases "\<not> is_rendering_format_char c \<and> match_count ?o = MAX_HEADING_TEXT_CHARS
      \<or> length ?o = MAX_HEADING_TEXT_RAW_CHARS")
    case True
    have "within_caps pre" using Cons.prems(2) by (auto simp: within_caps_def)
    then show ?thesis
      using Cons.prems True by (cases wm) (auto simp: Let_def intro!: exI [of _ acc])
  next
    case False
    have step: "push_word_chars (length pre) (wm \<or> \<not> is_rendering_format_char c) (pre @ s0 @ (acc @ [c]))
        (match_count (pre @ s0 @ (acc @ [c]))) (length (pre @ s0 @ (acc @ [c]))) cs = (out, m, r, broke)"
      using Cons.prems(1) False by (auto simp: Let_def split: if_splits)
    have caps: "within_caps (pre @ s0 @ (acc @ [c]))"
      using Cons.prems(2) False by (auto simp: within_caps_def)
    have "(wm \<or> \<not> is_rendering_format_char c) = (\<exists>c\<in>set (acc @ [c]). \<not> is_rendering_format_char c)"
      using Cons.prems(3) by auto
    moreover have "(acc @ [c]) @ cs = acc @ c # cs" by simp
    ultimately show ?thesis using Cons.IH [OF step caps] by metis
  qed
qed

lemma good_word_filter:
  assumes "\<forall>c\<in>set w. \<not> is_sep c" "\<exists>c\<in>set w. \<not> is_ignored_in_matching c"
  shows "good_word (filter (\<lambda>c. \<not> is_layout_only_char c) w)"
  using assms by (auto simp: good_word_def is_ignored_in_matching_def)

lemma good_word_Nil [simp]: "\<not> good_word []"
  by (simp add: good_word_def)

lemma join_words_eq_Nil: "\<forall>w\<in>set ws. good_word w \<Longrightarrow> join_words ws = [] \<longleftrightarrow> ws = []"
  by (cases ws rule: join_words.cases) auto

text \<open>Whatever the words, the cleaned text is words joined by single spaces, within both caps.\<close>

lemma clean_words_form:
  assumes "\<forall>w\<in>set words. (\<forall>c\<in>set w. \<not> is_sep c) \<and> (\<exists>c\<in>set w. \<not> is_ignored_in_matching c)"
    and "\<forall>w\<in>set vs. good_word w" "within_caps (join_words vs)"
  shows "\<exists>ws. clean_words (join_words vs) (match_count (join_words vs)) (length (join_words vs)) words
      = join_words ws \<and> (\<forall>w\<in>set ws. good_word w) \<and> within_caps (join_words ws)
      \<and> \<Union> (set ` set ws) \<subseteq> \<Union> (set ` set vs) \<union> \<Union> (set ` set words)"
  using assms
proof (induction words arbitrary: vs)
  case Nil
  then show ?case by auto
next
  case (Cons word words)
  let ?o = "join_words vs" and ?w = "filter (\<lambda>c. \<not> is_layout_only_char c) word"
  show ?case
  proof (cases "?o \<noteq> [] \<and> (match_count ?o = MAX_HEADING_TEXT_CHARS \<or> length ?o = MAX_HEADING_TEXT_RAW_CHARS)")
    case True
    then show ?thesis using Cons.prems by (auto simp: Let_def)
  next
    case False
    define s0 where "s0 = (if ?o \<noteq> [] then [space] else [])"
    obtain out m r broke where p: "push_word_chars (length ?o) False (?o @ s0 @ [])
        (match_count (?o @ s0 @ [])) (length (?o @ s0 @ [])) ?w = (out, m, r, broke)"
      by (metis prod_cases4)
    have caps: "within_caps (?o @ s0 @ [])"
      using False Cons.prems(3) space_facts by (auto simp: s0_def within_caps_def)
    note res = push_word_chars_result [OF p caps]
    have unfold: "clean_words ?o (match_count ?o) (length ?o) (word # words) =
        (if broke then out else clean_words out m r words)"
      using p False space_facts by (cases "?o = []") (simp_all add: s0_def Let_def)
    have joined: "?o @ s0 @ acc = join_words (vs @ [acc])" for acc
      using join_words_eq_Nil [OF Cons.prems(2)] by (auto simp: join_words_snoc s0_def)
    have gw: "good_word ?w" using Cons.prems(1) by (intro good_word_filter) auto
    show ?thesis
    proof (cases broke)
      case False
      then have o: "out = join_words (vs @ [?w])" "m = match_count out" "r = length out" "within_caps out"
        using res joined [of ?w] by auto
      have "\<exists>ws. clean_words out m r words = join_words ws \<and> (\<forall>w\<in>set ws. good_word w)
        \<and> within_caps (join_words ws)
        \<and> \<Union> (set ` set ws) \<subseteq> \<Union> (set ` set (vs @ [?w])) \<union> \<Union> (set ` set words)"
        unfolding o(2,3) unfolding o(1)
        using Cons.prems gw o by (intro Cons.IH) auto
      then show ?thesis using unfold False by fastforce
    next
      case True
      consider "out = ?o" | acc' where "out = ?o @ s0 @ acc'" "set acc' \<subseteq> set ?w"
          "\<exists>c\<in>set acc'. \<not> is_rendering_format_char c"
        using res True by auto
      then show ?thesis
      proof cases
        case 1
        then show ?thesis using unfold True Cons.prems by (intro exI [of _ vs]) auto
      next
        case 2
        then have "good_word acc'" using gw by (auto simp: good_word_def)
        then show ?thesis
          using 2 unfold True Cons.prems res joined [of acc'] by (intro exI [of _ "vs @ [acc']"]) auto
      qed
    qed
  qed
qed

lemma split_by_sound: "w \<in> set (split_by p cs) \<Longrightarrow> \<forall>c\<in>set w. \<not> p c \<and> c \<in> set cs"
proof (induction cs arbitrary: w)
  case (Cons c cs)
  then show ?case by (fastforce split: if_splits list.splits)
qed simp

lemma split_by_append:
  "\<forall>c\<in>set w. \<not> p c \<Longrightarrow> p s \<Longrightarrow> split_by p (w @ s # cs) = w # split_by p cs"
  by (induction w) auto

lemma split_by_none: "\<forall>c\<in>set w. \<not> p c \<Longrightarrow> split_by p w = [w]"
  by (induction w) auto

lemma split_by_join_words:
  "\<forall>w\<in>set ws. \<forall>c\<in>set w. \<not> is_sep c \<Longrightarrow> ws \<noteq> [] \<Longrightarrow> split_by is_sep (join_words ws) = ws"
proof (induction ws rule: join_words.induct)
  case (3 w v ws)
  then show ?case using split_by_append [of w is_sep space] space_facts by simp
qed (auto simp: split_by_none)

lemma push_word_chars_fits:
  "match_count out + match_count cs \<le> MAX_HEADING_TEXT_CHARS \<Longrightarrow>
   length out + length cs \<le> MAX_HEADING_TEXT_RAW_CHARS \<Longrightarrow>
   push_word_chars k wm out (match_count out) (length out) cs =
     (out @ cs, match_count (out @ cs), length (out @ cs), False)"
proof (induction cs arbitrary: out wm)
  case (Cons c cs)
  have "push_word_chars k (wm \<or> \<not> is_rendering_format_char c) (out @ [c]) (match_count (out @ [c]))
      (length (out @ [c])) cs = ((out @ [c]) @ cs, match_count ((out @ [c]) @ cs), length ((out @ [c]) @ cs), False)"
    using Cons.prems by (intro Cons.IH) auto
  then show ?case using Cons.prems by (auto simp: Let_def)
qed simp

lemma filter_good_word: "good_word w \<Longrightarrow> filter (\<lambda>c. \<not> is_layout_only_char c) w = w"
  by (auto simp: good_word_def filter_id_conv)

lemma within_caps_prefix: "within_caps (xs @ ys) \<Longrightarrow> within_caps xs"
  by (auto simp: within_caps_def)

lemma join_words_append:
  "vs \<noteq> [] \<Longrightarrow> ws \<noteq> [] \<Longrightarrow> join_words (vs @ ws) = join_words vs @ space # join_words ws"
proof (induction vs rule: join_words.induct)
  case (2 w)
  then show ?case by (cases ws) auto
qed auto

lemma join_words_prefix: "\<exists>r. join_words (vs @ ws) = join_words vs @ r"
  by (cases "vs = []"; cases "ws = []") (auto simp: join_words_append)

lemma clean_words_fits:
  "\<forall>w\<in>set (vs @ ws). good_word w \<Longrightarrow> within_caps (join_words (vs @ ws)) \<Longrightarrow>
   clean_words (join_words vs) (match_count (join_words vs)) (length (join_words vs)) ws = join_words (vs @ ws)"
proof (induction ws arbitrary: vs)
  case (Cons w ws)
  let ?o = "join_words vs"
  define s0 where "s0 = (if ?o \<noteq> [] then [space] else [])"
  have vs: "\<forall>w\<in>set vs. good_word w" using Cons.prems(1) by simp
  have joined: "?o @ s0 @ w = join_words (vs @ [w])"
    using join_words_eq_Nil [OF vs] by (auto simp: join_words_snoc s0_def)
  have "within_caps (?o @ s0 @ w)"
    using Cons.prems(2) join_words_prefix [of "vs @ [w]" ws] within_caps_prefix joined by (metis append_Cons append_Nil append_assoc)
  then have fits: "match_count (?o @ s0) + match_count w \<le> MAX_HEADING_TEXT_CHARS"
      "length (?o @ s0) + length w \<le> MAX_HEADING_TEXT_RAW_CHARS"
    by (auto simp: within_caps_def)
  have "w \<noteq> []" "0 < match_count w" using Cons.prems(1) by (auto simp: good_word_def match_count_def filter_empty_conv)
  then have guard: "\<not> (?o \<noteq> [] \<and> (match_count ?o = MAX_HEADING_TEXT_CHARS \<or> length ?o = MAX_HEADING_TEXT_RAW_CHARS))"
    using fits by auto
  have "clean_words ?o (match_count ?o) (length ?o) (w # ws) =
      clean_words (join_words (vs @ [w])) (match_count (join_words (vs @ [w]))) (length (join_words (vs @ [w]))) ws"
    using guard push_word_chars_fits [OF fits, of "length ?o" False] Cons.prems(1) space_facts
    unfolding joined [symmetric]
    by (cases "?o = []") (simp_all add: Let_def s0_def filter_good_word)
  also have "\<dots> = join_words ((vs @ [w]) @ ws)"
    using Cons.prems by (intro Cons.IH) auto
  finally show ?case by simp
qed simp

lemma heading_words_good:
  "\<forall>w\<in>set (heading_words s). (\<forall>c\<in>set w. \<not> is_sep c \<and> c \<in> set (chars s)) \<and> (\<exists>c\<in>set w. \<not> is_ignored_in_matching c)"
  by (auto simp: heading_words_def dest: split_by_sound)

lemma join_words_last:
  "\<forall>w\<in>set ws. good_word w \<Longrightarrow> ws \<noteq> [] \<Longrightarrow> join_words ws \<noteq> [] \<and> \<not> is_sep (last (join_words ws))"
proof (cases ws rule: rev_cases)
  case (snoc vs w)
  assume g: "\<forall>w\<in>set ws. good_word w"
  then have "w \<noteq> []" "\<forall>c\<in>set w. \<not> is_sep c" using snoc by (auto simp: good_word_def)
  then show ?thesis using snoc by (auto simp: join_words_snoc)
qed auto

lemma drop_right_noop: "xs = [] \<or> \<not> p (last xs) \<Longrightarrow> drop_right p xs = xs"
  by (cases xs rule: rev_cases) auto

lemma set_join_words: "set (join_words ws) \<subseteq> {space} \<union> \<Union> (set ` set ws)"
  by (induction ws rule: join_words.induct) auto

lemma clean_heading_text_form:
  obtains ws where "clean_heading_text s = concat (join_words ws)" "\<forall>w\<in>set ws. good_word w"
    "within_caps (join_words ws)" "set (join_words ws) \<subseteq> {space} \<union> set (chars s)"
proof -
  obtain ws where ws: "clean_words [] 0 0 (heading_words s) = join_words ws" "\<forall>w\<in>set ws. good_word w"
      "within_caps (join_words ws)" "\<Union> (set ` set ws) \<subseteq> \<Union> (set ` set (heading_words s))"
    using clean_words_form [of "heading_words s" "[]"] heading_words_good [of s]
    by (auto simp: within_caps_def)
  have "drop_right is_whitespace (join_words ws) = join_words ws"
    using join_words_last [OF ws(2)] by (intro drop_right_noop) (cases "ws = []", auto)
  then have "clean_heading_text s = concat (join_words ws)"
    by (simp add: clean_heading_text_def ws(1))
  moreover have "set (join_words ws) \<subseteq> {space} \<union> set (chars s)"
    using set_join_words [of ws] ws(4) heading_words_good [of s] by blast
  ultimately show thesis using that ws by blast
qed

lemma clean_heading_text_join_words:
  assumes "\<forall>w\<in>set ws. good_word w" "within_caps (join_words ws)" "\<forall>c\<in>set (join_words ws). is_char c"
  shows "clean_heading_text (concat (join_words ws)) = concat (join_words ws)"
proof (cases "ws = []")
  case False
  have "heading_words (concat (join_words ws)) = ws"
    using assms False chars_concat [OF assms(3)]
    by (subst heading_words_def)
       (fastforce simp: split_by_join_words good_word_def is_ignored_in_matching_def filter_id_conv)
  then have "clean_words [] 0 0 (heading_words (concat (join_words ws))) = join_words ws"
    using clean_words_fits [of "[]" ws] assms by simp
  then show ?thesis
    using join_words_last [OF assms(1) False] by (simp add: clean_heading_text_def drop_right_noop)
qed (simp add: clean_heading_text_def heading_words_def)


section \<open>Keys made of heading texts\<close>

lemma control_byte_free:
  assumes "is_char c" "\<not> is_control c"
  shows "CHR 0x1F \<notin> set c"
proof
  assume x: "CHR 0x1F \<in> set c"
  obtain b bs where c: "c = b # bs" using assms(1) by (cases c) (auto simp: is_char_def)
  have "\<not> is_cont (CHR 0x1F)" by (simp add: is_cont_def)
  then have "b = CHR 0x1F" using x c assms(1) by (auto simp: is_char_def)
  then have "c = [CHR 0x1F]" using c assms(1) by (auto simp: is_char_def)
  then show False using assms(2) by (simp add: is_control_def)
qed

text \<open>The characters of a cleaned text are those of the words it is made of.\<close>

lemma clean_heading_text_chars:
  assumes "valid_str s"
  obtains ws where "chars (clean_heading_text s) = join_words ws" "\<forall>w\<in>set ws. good_word w"
    "within_caps (join_words ws)" "\<forall>c\<in>set (join_words ws). is_char c"
    "clean_heading_text s = concat (join_words ws)"
proof -
  obtain ws where ws: "clean_heading_text s = concat (join_words ws)" "\<forall>w\<in>set ws. good_word w"
    "within_caps (join_words ws)" "set (join_words ws) \<subseteq> {space} \<union> set (chars s)"
    by (rule clean_heading_text_form)
  then have c: "\<forall>c\<in>set (join_words ws). is_char c"
    using assms space_facts by (auto simp: valid_str_def)
  then have "chars (clean_heading_text s) = join_words ws"
    using chars_concat [OF c] ws(1) by simp
  then show thesis using that ws c by blast
qed

lemma clean_heading_text_controls:
  assumes "valid_str s" "c \<in> set (chars (clean_heading_text s))"
  shows "is_char c \<and> \<not> is_control c \<and> \<not> is_layout_only_char c"
proof -
  obtain ws where "chars (clean_heading_text s) = join_words ws" "\<forall>w\<in>set ws. good_word w"
    "within_caps (join_words ws)" "\<forall>c\<in>set (join_words ws). is_char c"
    "clean_heading_text s = concat (join_words ws)"
    by (rule clean_heading_text_chars [OF assms(1)])
  moreover from this have "c \<in> set (join_words ws)" using assms(2) by simp
  moreover from this have "c = space \<or> (\<exists>w\<in>set ws. c \<in> set w)" using set_join_words [of ws] by auto
  ultimately show ?thesis using space_facts unfolding good_word_def by metis
qed

lemma visible_control_free:
  assumes "valid_str s"
  shows "CHR 0x1F \<notin> set (concat (filter p (chars (clean_heading_text s))))"
  using clean_heading_text_controls [OF assms] control_byte_free by fastforce

lemma set_concat_take: "set (concat (take n xss)) \<subseteq> set (concat xss)"
  by (auto dest: in_set_takeD)

lemma set_trim_end: "set (trim_end s) \<subseteq> set s"
proof -
  have "set (concat (drop_right p xss)) \<subseteq> set (concat xss)" for p and xss :: "string list"
    using set_drop_right [of p xss] by auto
  then show ?thesis unfolding trim_end_def by (metis concat_chars)
qed

lemma normalize_separator_free:
  assumes "valid_str s" "\<And>t. CHR 0x1F \<notin> set t \<Longrightarrow> CHR 0x1F \<notin> set (fo t)"
  shows "CHR 0x1F \<notin> set (normalize_heading_text fo s)"
proof -
  let ?v = "concat (filter (\<lambda>c. \<not> is_ignored_in_matching c) (chars (clean_heading_text s)))"
  have f: "CHR 0x1F \<notin> set (fo ?v)"
    using assms(2) visible_control_free [OF assms(1)] by blast
  have "set (trim_end (concat (take n (chars (fo ?v))))) \<subseteq> set (fo ?v)" for n
    using set_trim_end set_concat_take [of n "chars (fo ?v)"] by (metis concat_chars order_trans)
  then show ?thesis using f unfolding normalize_heading_text_def Let_def by auto
qed

lemma join_inj:
  assumes "join [c] ps = join [c] qs" "\<forall>p\<in>set ps. c \<notin> set p \<and> p \<noteq> []" "\<forall>q\<in>set qs. c \<notin> set q \<and> q \<noteq> []"
  shows "ps = qs"
proof -
  have ne: "join [c] rs = [] \<longleftrightarrow> rs = []" if "\<forall>r\<in>set rs. r \<noteq> []" for rs
    using that by (cases rs; cases "tl rs") auto
  show "ps = qs"
  proof (cases "ps = []")
    case True
    then show ?thesis using ne [of qs] assms by auto
  next
    case False
    then have "qs \<noteq> []" using ne [of ps] assms by auto
    have "split_on c (join [c] ps) = ps" using assms(2) False by (intro split_on_join) auto
    moreover have "split_on c (join [c] qs) = qs" using assms(3) \<open>qs \<noteq> []\<close> by (intro split_on_join) auto
    ultimately show ?thesis by (metis assms(1))
  qed
qed

section \<open>Properties of the heading model\<close>

text \<open>
  Concrete data for the witnesses: a body with a preamble and three headings, and the events a
  CommonMark parser reports for it.
\<close>

definition demo_body :: string where
  "demo_body = ''intro'' @ [newline] @ ''# A'' @ [newline] @ ''text'' @ [newline] @ ''## B'' @ [newline]
     @ ''more'' @ [newline] @ ''# C'' @ [newline]"

definition demo_parser :: "string \<Rightarrow> (md_event \<times> nat) list" where
  "demo_parser body =
     [(Start OtherTag, 0), (TextEvent ''intro'', 0), (End OtherTag, 0),
      (Start (HeadingTag 1), 6), (TextEvent ''A'', 8), (End (HeadingTag 1), 6),
      (Start OtherTag, 10), (TextEvent ''text'', 10), (End OtherTag, 10),
      (Start (HeadingTag 2), 15), (TextEvent ''B'', 18), (End (HeadingTag 2), 15),
      (Start OtherTag, 20), (TextEvent ''more'', 20), (End OtherTag, 20),
      (Start (HeadingTag 1), 25), (TextEvent ''C'', 27), (End (HeadingTag 1), 25)]"

abbreviation demo_tree :: heading_tree where
  "demo_tree \<equiv> heading_tree_parse demo_parser demo_body"

lemma demo_tree_headings: "length (ht_headings demo_tree) = 3"
  by code_simp

text \<open>
  C14. The heading tree \<open>HeadingTree::parse\<close> builds with its stack is, for every event stream, the
  declarative one: each heading's parent is the nearest earlier heading of a lower level, its section
  ends on the line before the next heading and its subtree on the line before the next heading of the
  same level or shallower (the body's last line when there is none).
\<close>

theorem heading_tree_refines_spec:
  "ht_headings (heading_tree_parse parser body) =
     map (heading_at (line_count (line_index_new body)) (scan_headings (line_index_new body) (parser body)))
       [0..<length (scan_headings (line_index_new body) (parser body))]"
  by (simp add: heading_tree_parse_def Let_def build_headings_eq)

text \<open>
  Whatever the markdown parser reports, no heading range of a parsed tree is inverted or empty:
  lines start at 1 and strictly ascend in document order, the heading's line is not past its section's
  end, that is not past its subtree's end, nothing passes the body's last line, and no heading has an
  empty text.
\<close>

theorem heading_ranges_ordered:
  assumes "i < length (ht_headings (heading_tree_parse parser body))"
  shows "1 \<le> hd_line (ht_headings (heading_tree_parse parser body) ! i)
    \<and> hd_line (ht_headings (heading_tree_parse parser body) ! i)
        \<le> hd_section_end (ht_headings (heading_tree_parse parser body) ! i)
    \<and> hd_section_end (ht_headings (heading_tree_parse parser body) ! i)
        \<le> hd_subtree_end (ht_headings (heading_tree_parse parser body) ! i)
    \<and> hd_subtree_end (ht_headings (heading_tree_parse parser body) ! i)
        \<le> max 1 (tree_line_count (heading_tree_parse parser body))
    \<and> hd_text (ht_headings (heading_tree_parse parser body) ! i) \<noteq> []
    \<and> (\<forall>j<i. hd_line (ht_headings (heading_tree_parse parser body) ! j)
               < hd_line (ht_headings (heading_tree_parse parser body) ! i))"
  using headings_wf_ranges [OF heading_tree_parse_wf assms] headings_wf_basic [OF heading_tree_parse_wf assms]
    headings_wf_lines [OF heading_tree_parse_wf _ assms] by blast

theorem heading_ranges_ordered_witness:
  "1 \<le> hd_line (ht_headings demo_tree ! 1)
    \<and> hd_line (ht_headings demo_tree ! 1) \<le> hd_section_end (ht_headings demo_tree ! 1)
    \<and> hd_section_end (ht_headings demo_tree ! 1) \<le> hd_subtree_end (ht_headings demo_tree ! 1)"
  using heading_ranges_ordered [of 1 demo_parser demo_body] demo_tree_headings by simp

text \<open>
  C15. The subtree line range of a heading covers exactly the headings nested under it: heading \<open>j\<close>
  starts within the range of heading \<open>i\<close> if and only if \<open>i\<close> is \<open>j\<close> or an ancestor of \<open>j\<close> along the
  parent pointers.
\<close>

theorem subtree_range_holds_descendants:
  assumes "i < length (ht_headings (heading_tree_parse parser body))"
    and "j < length (ht_headings (heading_tree_parse parser body))"
  shows "(hd_line (ht_headings (heading_tree_parse parser body) ! i)
            \<le> hd_line (ht_headings (heading_tree_parse parser body) ! j)
          \<and> hd_line (ht_headings (heading_tree_parse parser body) ! j)
            \<le> hd_subtree_end (ht_headings (heading_tree_parse parser body) ! i))
    \<longleftrightarrow> anc (tree_parent (heading_tree_parse parser body)) i j"
  using subtree_range_iff_descendant [OF heading_tree_parse_wf assms] by (simp add: tree_parent_def)

theorem subtree_range_holds_descendants_witness:
  "anc (tree_parent demo_tree) 0 1 \<and> \<not> anc (tree_parent demo_tree) 0 2"
proof -
  have r: "hd_line (ht_headings demo_tree ! 0) = 2 \<and> hd_subtree_end (ht_headings demo_tree ! 0) = 5
      \<and> hd_line (ht_headings demo_tree ! 1) = 4 \<and> hd_line (ht_headings demo_tree ! 2) = 6"
    by code_simp
  show ?thesis
    using subtree_range_holds_descendants [of 0 demo_parser demo_body 1]
      subtree_range_holds_descendants [of 0 demo_parser demo_body 2] demo_tree_headings r by simp
qed

text \<open>
  \<open>common_ancestor\<close> always returns, and returns the deepest heading that is an ancestor of (or
  equal to) both arguments; it returns None exactly when they share none.
\<close>

theorem common_ancestor_deepest:
  "(case common_ancestor (heading_tree_parse parser body) (Some a) (Some b) of
      Some c \<Rightarrow> {d. anc (tree_parent (heading_tree_parse parser body)) d a
                    \<and> anc (tree_parent (heading_tree_parse parser body)) d b}
               = {d. anc (tree_parent (heading_tree_parse parser body)) d c}
    | None \<Rightarrow> {d. anc (tree_parent (heading_tree_parse parser body)) d a
                  \<and> anc (tree_parent (heading_tree_parse parser body)) d b} = {})"
proof (cases "common_ancestor (heading_tree_parse parser body) (Some a) (Some b)")
  case None
  then show ?thesis
    using tree.common_up_None [of "a + b + 1" parser body a b]
    by (auto simp: common_ancestor_def tree_parent_def)
next
  case (Some c)
  then show ?thesis
    using common_ancestor_iff [of parser body a b c] by (auto intro: anc_trans)
qed

text \<open>
  The line numbering agrees with splitting the text at newlines: the bytes of lines \<open>a\<close> to \<open>b\<close>
  that \<open>LineIndex::byte_range\<close> selects are those segments of the text joined by newlines.
\<close>

theorem byte_range_is_lines:
  assumes "1 \<le> a" "a \<le> b" "b \<le> line_count (line_index_new body)"
  shows "slice body (byte_range (line_index_new body) a b) =
    join [newline] (take (b - a + 1) (drop (a - 1) (split_on newline body)))"
  by (rule slice_byte_range [OF assms])

theorem byte_range_is_lines_witness:
  "slice demo_body (byte_range (line_index_new demo_body) 2 3) = ''# A'' @ [newline] @ ''text''"
proof -
  have "3 \<le> line_count (line_index_new demo_body)" by code_simp
  moreover have "join [newline] (take (3 - 2 + 1) (drop (2 - 1) (split_on newline demo_body)))
      = ''# A'' @ [newline] @ ''text''" by code_simp
  ultimately show ?thesis using byte_range_is_lines [of 2 3 demo_body] by simp
qed

text \<open>
  \<open>line_of\<close> finds the line of a byte: it is a line of the text and the byte lies between that
  line's first byte and its terminator.
\<close>

theorem line_of_is_containing_line:
  assumes "b < length body"
  shows "1 \<le> line_of (line_index_new body) b
    \<and> line_of (line_index_new body) b \<le> line_count (line_index_new body)
    \<and> fst (byte_range (line_index_new body) (line_of (line_index_new body) b) (line_of (line_index_new body) b)) \<le> b
    \<and> b \<le> snd (byte_range (line_index_new body) (line_of (line_index_new body) b) (line_of (line_index_new body) b))"
  using line_of_bounds [OF assms] by blast

theorem line_of_is_containing_line_witness:
  "1 \<le> line_of (line_index_new demo_body) 9 \<and> line_of (line_index_new demo_body) 9 \<le> line_count (line_index_new demo_body)"
proof -
  have "9 < length demo_body" by code_simp
  then show ?thesis using line_of_is_containing_line [of 9 demo_body] by blast
qed

text \<open>
  Cleaning heading text is idempotent: stored heading text, cleaned again when a caller sends it
  back, does not change.
\<close>

theorem clean_heading_text_idempotent:
  assumes "valid_str s"
  shows "clean_heading_text (clean_heading_text s) = clean_heading_text s"
proof -
  obtain ws where ws: "chars (clean_heading_text s) = join_words ws" "\<forall>w\<in>set ws. good_word w"
    "within_caps (join_words ws)" "\<forall>c\<in>set (join_words ws). is_char c"
    "clean_heading_text s = concat (join_words ws)"
    by (rule clean_heading_text_chars [OF assms])
  show ?thesis unfolding ws(5) by (rule clean_heading_text_join_words [OF ws(2-4)])
qed

theorem clean_heading_text_idempotent_witness:
  "clean_heading_text (clean_heading_text ''  GPU   Backends '') = clean_heading_text ''  GPU   Backends ''
   \<and> clean_heading_text ''  GPU   Backends '' = ''GPU Backends''"
proof -
  have "valid_str ''  GPU   Backends ''" by code_simp
  then have "clean_heading_text (clean_heading_text ''  GPU   Backends '') = clean_heading_text ''  GPU   Backends ''"
    by (rule clean_heading_text_idempotent)
  moreover have "clean_heading_text ''  GPU   Backends '' = ''GPU Backends''" by code_simp
  ultimately show ?thesis by blast
qed

text \<open>
  Stored heading text is bounded and carries no separator: at most 200 matching characters and
  400 characters in all, no control character and no layout-only character.
\<close>

theorem clean_heading_text_bounds:
  assumes "valid_str s"
  shows "char_count (clean_heading_text s) \<le> MAX_HEADING_TEXT_RAW_CHARS
    \<and> length (filter (\<lambda>c. \<not> is_rendering_format_char c) (chars (clean_heading_text s))) \<le> MAX_HEADING_TEXT_CHARS
    \<and> (\<forall>c\<in>set (chars (clean_heading_text s)). \<not> is_control c \<and> \<not> is_layout_only_char c)"
proof -
  obtain ws where "chars (clean_heading_text s) = join_words ws" "\<forall>w\<in>set ws. good_word w"
    "within_caps (join_words ws)" "\<forall>c\<in>set (join_words ws). is_char c"
    "clean_heading_text s = concat (join_words ws)"
    by (rule clean_heading_text_chars [OF assms])
  then show ?thesis
    using clean_heading_text_controls [OF assms] by (auto simp: within_caps_def match_count_def)
qed

theorem clean_heading_text_bounds_witness:
  "valid_str (''A'' @ [CHR 0x1F] @ ''B'') \<and> char_count (clean_heading_text (''A'' @ [CHR 0x1F] @ ''B'')) \<le> 400"
proof -
  have v: "valid_str (''A'' @ [CHR 0x1F] @ ''B'')" by code_simp
  then show ?thesis
    using clean_heading_text_bounds [OF v]
    by (simp add: MAX_HEADING_TEXT_RAW_CHARS_def MAX_HEADING_TEXT_CHARS_def)
qed

lemma prefix_key_eq_iff:
  assumes "\<And>t. CHR 0x1F \<notin> set t \<Longrightarrow> CHR 0x1F \<notin> set (case_fold t)"
    and "\<forall>s\<in>set p. valid_str s \<and> normalize_heading_text case_fold s \<noteq> []"
    and "\<forall>s\<in>set q. valid_str s \<and> normalize_heading_text case_fold s \<noteq> []"
  shows "heading_prefix_key case_fold p = heading_prefix_key case_fold q
     \<longleftrightarrow> map (normalize_heading_text case_fold) p = map (normalize_heading_text case_fold) q"
proof
  assume "heading_prefix_key case_fold p = heading_prefix_key case_fold q"
  then show "map (normalize_heading_text case_fold) p = map (normalize_heading_text case_fold) q"
    unfolding heading_prefix_key_def HEADING_KEY_SEPARATOR_def
  proof (rule join_inj)
    show "\<forall>r\<in>set (map (normalize_heading_text case_fold) p). CHR 0x1F \<notin> set r \<and> r \<noteq> []"
      using assms(2) normalize_separator_free [OF _ assms(1)] by auto
    show "\<forall>r\<in>set (map (normalize_heading_text case_fold) q). CHR 0x1F \<notin> set r \<and> r \<noteq> []"
      using assms(3) normalize_separator_free [OF _ assms(1)] by auto
  qed
qed (simp add: heading_prefix_key_def)

text \<open>
  The \<open>heading_prefixes\<close> key is unambiguous: two heading paths have the same key only when their
  normalised segments are equal one by one, so no heading text can imitate a path. The case folding
  of the \<open>unicase\<close> crate is assumed only not to introduce the separator control character.
\<close>

theorem heading_prefix_key_injective:
  assumes "\<And>t. CHR 0x1F \<notin> set t \<Longrightarrow> CHR 0x1F \<notin> set (case_fold t)"
    and "\<forall>s\<in>set p. valid_str s \<and> normalize_heading_text case_fold s \<noteq> []"
    and "\<forall>s\<in>set q. valid_str s \<and> normalize_heading_text case_fold s \<noteq> []"
    and "heading_prefix_key case_fold p = heading_prefix_key case_fold q"
  shows "map (normalize_heading_text case_fold) p = map (normalize_heading_text case_fold) q"
  using assms(4) prefix_key_eq_iff [OF assms(1-3)] by blast

theorem heading_prefix_key_injective_witness:
  "map (normalize_heading_text (\<lambda>t. t)) [''Input'', ''Output''] =
     map (normalize_heading_text (\<lambda>t. t)) [''Input '', '' Output'']
   \<and> heading_prefix_key (\<lambda>t. t) [''Input > Output''] \<noteq> heading_prefix_key (\<lambda>t. t) [''Input'', ''Output'']"
proof -
  let ?p = "[''Input'', ''Output'']" and ?q = "[''Input '', '' Output'']"
  have v: "\<forall>s\<in>set ?p. valid_str s \<and> normalize_heading_text (\<lambda>t. t) s \<noteq> []"
      "\<forall>s\<in>set ?q. valid_str s \<and> normalize_heading_text (\<lambda>t. t) s \<noteq> []" by code_simp+
  have e: "heading_prefix_key (\<lambda>t. t) ?p = heading_prefix_key (\<lambda>t. t) ?q" by code_simp
  have n: "heading_prefix_key (\<lambda>t. t) [''Input > Output''] \<noteq> heading_prefix_key (\<lambda>t. t) ?p" by code_simp
  show ?thesis using heading_prefix_key_injective [OF _ v e] n by simp
qed

end
