(* ===== verification/Chunks.thy ===== *)
theory Chunks
  imports Headings "HOL-Library.Sublist"
begin

text \<open>
  The markdown chunker of \<open>src/src/chunk.rs\<close>: \<open>split_sections\<close> cuts a body at the heading tree's
  boundaries, \<open>chunk_markdown\<close> accumulates small sections up to the target size, splits oversized
  ones and merges small fragments, and the last step prepends the breadcrumb and the description.
  Also the payload keys \<open>src/src/ingest.rs\<close> derives from a chunk's heading path.

  The \<open>MarkdownSplitter\<close> of the \<open>text_splitter\<close> crate is a parameter: from a size and a text it
  gives the fragments with their byte offsets. \<open>splitter_ok\<close> states what \<open>chunk_indices\<close> documents:
  fragments are non-empty substrings at their offsets.
\<close>

section \<open>Data\<close>

record chunking_config =
  cc_max_chunk_size :: nat
  cc_target_chunk_size :: "nat option"
  cc_prepend_description :: bool
  cc_prepend_heading_path :: bool
  cc_heading_metadata :: bool

definition chunk_target :: "chunking_config \<Rightarrow> nat" where
  "chunk_target config =
     (case cc_target_chunk_size config of None \<Rightarrow> cc_max_chunk_size config | Some t \<Rightarrow> t)"

record chunk =
  ck_text :: string
  ck_index :: nat
  ck_line_start :: nat
  ck_line_end :: nat
  ck_heading_path :: "string list"
  ck_heading_level :: nat
  ck_section_line_start :: nat
  ck_section_line_end :: nat
  ck_body_offset :: nat

definition MIN_MERGE_SIZE :: nat where
  "MIN_MERGE_SIZE = 200"

definition MAX_HEADING_PATH_CHARS :: nat where
  "MAX_HEADING_PATH_CHARS = 200"

definition heading_path_budget :: "nat \<Rightarrow> nat" where
  "heading_path_budget max_chunk_size = min MAX_HEADING_PATH_CHARS (max_chunk_size div 4)"

record body_section =
  sec_text :: string
  sec_byte_start :: nat
  sec_line_start :: nat
  sec_line_end :: nat
  sec_heading :: "nat option"

record raw_chunk =
  rc_text :: string
  rc_line_start :: nat
  rc_line_end :: nat
  rc_breadcrumb :: "nat option"
  rc_section :: section_id

section \<open>Operations\<close>

definition make_section :: "string \<Rightarrow> heading_tree \<Rightarrow> nat \<Rightarrow> nat \<Rightarrow> nat option \<Rightarrow> body_section" where
  "make_section body tree first_line last_line heading =
     (let range = byte_range (ht_lines tree) first_line last_line in
      \<lparr>sec_text = slice body range, sec_byte_start = fst range, sec_line_start = first_line,
       sec_line_end = last_line, sec_heading = heading\<rparr>)"

definition split_sections :: "string \<Rightarrow> heading_tree \<Rightarrow> body_section list" where
  "split_sections body tree =
     (let pe = preamble_end tree in
      (if 0 < pe \<and> trim (slice body (byte_range (ht_lines tree) 1 pe)) \<noteq> []
       then [make_section body tree 1 pe None] else [])
      @ map (\<lambda>(i, h). make_section body tree (hd_line h) (hd_section_end h) (Some i))
          (enumerate 0 (ht_headings tree)))"

definition sep2 :: string where
  "sep2 = [newline, newline]"

definition rc_append ::
    "raw_chunk \<Rightarrow> string \<Rightarrow> nat \<Rightarrow> nat option \<Rightarrow> section_id \<Rightarrow> heading_tree \<Rightarrow> raw_chunk" where
  "rc_append c t line_end breadcrumb section tree =
     c\<lparr>rc_text := rc_text c @ sep2 @ t,
       rc_line_end := line_end,
       rc_breadcrumb := common_ancestor tree (rc_breadcrumb c) breadcrumb,
       rc_section := section_merge (rc_section c) section tree\<rparr>"

definition format_heading_path :: "string list \<Rightarrow> nat \<Rightarrow> string option" where
  "format_heading_path path budget_chars =
     (if path = [] \<or> budget_chars = 0 then None
      else
        let joined = join '' > '' path in
        if char_count joined \<le> budget_chars then Some joined
        else Some (concat (take budget_chars (chars joined))))"

definition heading_reserve :: "chunking_config \<Rightarrow> nat" where
  "heading_reserve config =
     (if cc_prepend_heading_path config then heading_path_budget (cc_max_chunk_size config) else 0)"

definition effective_max :: "chunking_config \<Rightarrow> nat" where
  "effective_max config = cc_max_chunk_size config - heading_reserve config"

definition effective_target :: "chunking_config \<Rightarrow> nat" where
  "effective_target config = chunk_target config - heading_reserve config"

definition leading_breadcrumb :: "heading_tree \<Rightarrow> body_section \<Rightarrow> nat option" where
  "leading_breadcrumb tree s =
     (case sec_heading s of None \<Rightarrow> None | Some i \<Rightarrow> hd_parent (ht_headings tree ! i))"

definition section_id_of :: "body_section \<Rightarrow> section_id" where
  "section_id_of s = (case sec_heading s of None \<Rightarrow> Preamble | Some i \<Rightarrow> Heading i)"

text \<open>The two ways a chunk starts: from a fragment (\<open>new_chunk\<close>) and from a whole section (\<open>seeded\<close>).\<close>

definition fragment_chunk :: "heading_tree \<Rightarrow> body_section \<Rightarrow> nat \<times> nat \<times> string \<Rightarrow> raw_chunk" where
  "fragment_chunk tree s frag =
     (case frag of (frag_idx, byte_offset, part) \<Rightarrow>
        let abs_start = sec_byte_start s + byte_offset;
            frag_line_start = line_of (ht_lines tree) abs_start;
            frag_line_end =
              max (min (line_of (ht_lines tree) (abs_start + (length part - 1))) (sec_line_end s))
                frag_line_start;
            frag_breadcrumb = (if frag_idx = 0 then leading_breadcrumb tree s else sec_heading s)
        in \<lparr>rc_text = part, rc_line_start = frag_line_start, rc_line_end = frag_line_end,
            rc_breadcrumb = frag_breadcrumb, rc_section = section_id_of s\<rparr>)"

definition seeded_chunk :: "heading_tree \<Rightarrow> body_section \<Rightarrow> raw_chunk" where
  "seeded_chunk tree s =
     \<lparr>rc_text = sec_text s, rc_line_start = sec_line_start s, rc_line_end = sec_line_end s,
      rc_breadcrumb = leading_breadcrumb tree s, rc_section = section_id_of s\<rparr>"

text \<open>One fragment of an oversized section; the state is the chunks so far and the pending fragment.\<close>

fun add_fragment ::
    "heading_tree \<Rightarrow> nat \<Rightarrow> body_section \<Rightarrow> raw_chunk list \<times> raw_chunk option \<Rightarrow> nat \<times> nat \<times> string
     \<Rightarrow> raw_chunk list \<times> raw_chunk option" where
  "add_fragment tree eff_max s (chunks, pending) (frag_idx, byte_offset, part) =
     (let new_chunk = fragment_chunk tree s (frag_idx, byte_offset, part) in
      case pending of
        Some prev \<Rightarrow>
          let prev_len = length (trim (rc_text prev));
              combined = prev_len + 2 + length (trim part)
          in if combined \<le> eff_max \<or> prev_len < MIN_MERGE_SIZE
             then
               let prev = rc_append prev part (rc_line_end new_chunk) (rc_breadcrumb new_chunk)
                            (section_id_of s) tree in
               if length (trim (rc_text prev)) < MIN_MERGE_SIZE then (chunks, Some prev)
               else (chunks @ [prev], None)
             else if length (trim part) < MIN_MERGE_SIZE then (chunks @ [prev], Some new_chunk)
             else (chunks @ [prev, new_chunk], None)
      | None \<Rightarrow>
          if length (trim part) < MIN_MERGE_SIZE then (chunks, Some new_chunk)
          else (chunks @ [new_chunk], None))"

text \<open>The trailing small fragment of an oversized section.\<close>

definition flush_tail ::
    "heading_tree \<Rightarrow> nat \<Rightarrow> bool \<Rightarrow> raw_chunk list \<times> raw_chunk option \<Rightarrow> raw_chunk list" where
  "flush_tail tree eff_max isolate_sections st =
     (case st of
        (chunks, None) \<Rightarrow> chunks
      | (chunks, Some tail) \<Rightarrow>
          if chunks = [] then [tail]
          else
            let lst = last chunks;
                combined = length (trim (rc_text lst)) + 2 + length (trim (rc_text tail));
                same_section = (rc_section lst = rc_section tail)
            in if combined \<le> eff_max \<and> (same_section \<or> \<not> isolate_sections)
               then butlast chunks
                 @ [rc_append lst (rc_text tail) (rc_line_end tail) (rc_breadcrumb tail)
                      (rc_section tail) tree]
               else chunks @ [tail])"

definition flush_current :: "raw_chunk list \<Rightarrow> raw_chunk option \<Rightarrow> raw_chunk list" where
  "flush_current chunks current = (case current of None \<Rightarrow> chunks | Some cur \<Rightarrow> chunks @ [cur])"

definition split_oversized ::
    "(nat \<Rightarrow> string \<Rightarrow> (nat \<times> string) list) \<Rightarrow> heading_tree \<Rightarrow> nat \<Rightarrow> bool \<Rightarrow> body_section
     \<Rightarrow> raw_chunk list \<Rightarrow> raw_chunk list" where
  "split_oversized splitter tree eff_max isolate_sections s chunks =
     flush_tail tree eff_max isolate_sections
       (foldl (add_fragment tree eff_max s) (chunks, None)
          (enumerate 0 (splitter eff_max (sec_text s))))"

text \<open>One section; the state is the finished chunks and the accumulator.\<close>

definition add_section ::
    "(nat \<Rightarrow> string \<Rightarrow> (nat \<times> string) list) \<Rightarrow> heading_tree \<Rightarrow> chunking_config
     \<Rightarrow> raw_chunk list \<times> raw_chunk option \<Rightarrow> body_section \<Rightarrow> raw_chunk list \<times> raw_chunk option" where
  "add_section splitter tree config st s =
     (case st of (chunks, current) \<Rightarrow>
        if effective_max config < length (trim (sec_text s))
        then (split_oversized splitter tree (effective_max config) (cc_heading_metadata config) s
                (flush_current chunks current), None)
        else
          let combined_len =
                (case current of
                   Some cur \<Rightarrow> length (trim (rc_text cur)) + 2 + length (trim (sec_text s))
                 | None \<Rightarrow> length (trim (sec_text s)))
          in if combined_len \<le> effective_target config \<and> \<not> cc_heading_metadata config
             then (case current of
                     Some cur \<Rightarrow>
                       (chunks, Some (rc_append cur (sec_text s) (sec_line_end s)
                                        (leading_breadcrumb tree s) (section_id_of s) tree))
                   | None \<Rightarrow> (chunks, Some (seeded_chunk tree s)))
             else (flush_current chunks current, Some (seeded_chunk tree s)))"

definition raw_chunks ::
    "(nat \<Rightarrow> string \<Rightarrow> (nat \<times> string) list) \<Rightarrow> chunking_config \<Rightarrow> heading_tree \<Rightarrow> string \<Rightarrow> raw_chunk list" where
  "raw_chunks splitter config tree body =
     (case foldl (add_section splitter tree config) ([], None) (split_sections body tree) of
        (chunks, current) \<Rightarrow> flush_current chunks current)"

definition finish_chunk ::
    "chunking_config \<Rightarrow> string option \<Rightarrow> heading_tree \<Rightarrow> nat \<times> raw_chunk \<Rightarrow> chunk" where
  "finish_chunk config description tree ir =
     (case ir of (index, raw) \<Rightarrow>
        let body_len = length (rc_text raw);
            with_desc =
              (case (cc_prepend_description config, description) of
                 (True, Some desc) \<Rightarrow> desc @ sep2 @ rc_text raw
               | _ \<Rightarrow> rc_text raw);
            t = (if cc_prepend_heading_path config
                 then (case format_heading_path (tree_path tree (rc_breadcrumb raw))
                              (heading_reserve config - 2) of
                         Some crumb \<Rightarrow> crumb @ sep2 @ with_desc
                       | None \<Rightarrow> with_desc)
                 else with_desc);
            range = section_line_range (rc_section raw) tree
        in \<lparr>ck_text = t, ck_index = index, ck_line_start = rc_line_start raw,
            ck_line_end = rc_line_end raw, ck_heading_path = section_path (rc_section raw) tree,
            ck_heading_level = section_level (rc_section raw) tree,
            ck_section_line_start = fst range, ck_section_line_end = snd range,
            ck_body_offset = length t - body_len\<rparr>)"

definition chunk_markdown ::
    "(string \<Rightarrow> (md_event \<times> nat) list) \<Rightarrow> (nat \<Rightarrow> string \<Rightarrow> (nat \<times> string) list)
     \<Rightarrow> string \<Rightarrow> string option \<Rightarrow> chunking_config \<Rightarrow> chunk list" where
  "chunk_markdown parser splitter body description config =
     (let tree = heading_tree_parse parser body in
      map (finish_chunk config description tree)
        (enumerate 0 (raw_chunks splitter config tree body)))"

section \<open>Payload keys\<close>

definition push_new :: "'a \<Rightarrow> 'a list \<Rightarrow> 'a list" where
  "push_new k keys = (if k \<in> set keys then keys else keys @ [k])"

definition derive_heading_prefixes :: "(string \<Rightarrow> string) \<Rightarrow> string list \<Rightarrow> string list" where
  "derive_heading_prefixes case_fold path =
     foldl (\<lambda>keys start.
         foldl (\<lambda>keys end. push_new (heading_prefix_key case_fold (take (end - start) (drop start path))) keys)
           keys [start + 1..<length path + 1])
       [] [0..<length path]"

definition section_key :: "string \<Rightarrow> chunk \<Rightarrow> string" where
  "section_key file_path c =
     file_path @ ''#'' @ dec (ck_section_line_start c) @ ''-'' @ dec (ck_section_line_end c) @ '':''
     @ join HEADING_KEY_SEPARATOR (ck_heading_path c)"


section \<open>No text is lost, duplicated or reordered\<close>

text \<open>A list of texts, each after a separator: unlike \<open>join\<close> this distributes over append.\<close>

definition sepcat :: "string list \<Rightarrow> string" where
  "sepcat ts = concat (map (\<lambda>t. sep2 @ t) ts)"

lemma sepcat_simps [simp]: "sepcat [] = []" "sepcat (t # ts) = sep2 @ t @ sepcat ts"
  "sepcat (ts @ us) = sepcat ts @ sepcat us"
  by (auto simp: sepcat_def)

lemma join_sepcat: "join sep2 ts = drop 2 (sepcat ts)"
proof (induction ts rule: induct_list012)
  case (3 t u ts)
  then show ?case by (simp add: sep2_def numeral_2_eq_2)
qed (simp_all add: sep2_def)

definition pending_texts :: "raw_chunk option \<Rightarrow> string list" where
  "pending_texts c = (case c of None \<Rightarrow> [] | Some c \<Rightarrow> [rc_text c])"

definition state_text :: "raw_chunk list \<times> raw_chunk option \<Rightarrow> string" where
  "state_text st = sepcat (map rc_text (fst st) @ pending_texts (snd st))"

text \<open>The texts a section contributes: itself, or the splitter's fragments when it is oversized.\<close>

definition section_pieces ::
    "(nat \<Rightarrow> string \<Rightarrow> (nat \<times> string) list) \<Rightarrow> chunking_config \<Rightarrow> body_section \<Rightarrow> string list" where
  "section_pieces splitter config s =
     (if effective_max config < length (trim (sec_text s))
      then map snd (splitter (effective_max config) (sec_text s)) else [sec_text s])"

lemma rc_text_append [simp]: "rc_text (rc_append c t l b s tree) = rc_text c @ sep2 @ t"
  by (simp add: rc_append_def)

lemma add_fragment_text:
  "state_text (add_fragment tree eff_max s st (i, off, part)) = state_text st @ sep2 @ part"
  by (cases st; cases "snd st") (auto simp: state_text_def pending_texts_def Let_def fragment_chunk_def)

lemma fold_fragments_text:
  "state_text (foldl (add_fragment tree eff_max s) st frags) = state_text st @ sepcat (map (snd \<circ> snd) frags)"
proof (induction frags arbitrary: st)
  case (Cons f frags)
  obtain i off part where "f = (i, off, part)" by (cases f) auto
  then show ?case using Cons add_fragment_text by (simp del: add_fragment.simps)
qed simp

lemma flush_tail_text: "sepcat (map rc_text (flush_tail tree eff_max isolate st)) = state_text st"
proof (cases st)
  case (Pair chunks pending)
  show ?thesis
  proof (cases pending)
    case (Some tail)
    show ?thesis
    proof (cases chunks rule: rev_cases)
      case (snoc cs c)
      then show ?thesis using Pair Some by (auto simp: flush_tail_def state_text_def pending_texts_def Let_def)
    qed (simp add: Pair Some flush_tail_def state_text_def pending_texts_def)
  qed (simp add: Pair flush_tail_def state_text_def pending_texts_def)
qed

lemma flush_current_text: "sepcat (map rc_text (flush_current chunks current)) = state_text (chunks, current)"
  by (auto simp: flush_current_def state_text_def pending_texts_def split: option.splits)

lemma map_snd_enumerate: "map (snd \<circ> snd) (enumerate k xs) = map snd xs"
  by (simp flip: map_map)

lemma add_section_text:
  "state_text (add_section splitter tree config st s) = state_text st @ sepcat (section_pieces splitter config s)"
proof -
  obtain chunks current where st: "st = (chunks, current)" by (cases st)
  show ?thesis
  proof (cases "effective_max config < length (trim (sec_text s))")
    case True
    have "state_text (add_section splitter tree config st s) =
        sepcat (map rc_text (split_oversized splitter tree (effective_max config) (cc_heading_metadata config) s
                (flush_current chunks current)))"
      using True by (simp add: st add_section_def state_text_def pending_texts_def)
    also have "\<dots> = state_text (flush_current chunks current, None) @ sepcat (map snd (splitter (effective_max config) (sec_text s)))"
      unfolding split_oversized_def flush_tail_text fold_fragments_text map_snd_enumerate ..
    also have "state_text (flush_current chunks current, None) = state_text st"
      using flush_current_text [of chunks current] by (simp add: state_text_def pending_texts_def st)
    finally show ?thesis using True by (simp add: section_pieces_def)
  next
    case False
    then show ?thesis
      by (auto simp: st add_section_def Let_def section_pieces_def state_text_def pending_texts_def
          flush_current_def seeded_chunk_def split: option.splits)
  qed
qed

lemma fold_sections_text:
  "state_text (foldl (add_section splitter tree config) st ss) =
     state_text st @ sepcat (concat (map (section_pieces splitter config) ss))"
  by (induction ss arbitrary: st) (simp_all add: add_section_text)

lemma raw_chunks_text:
  "sepcat (map rc_text (raw_chunks splitter config tree body)) =
     sepcat (concat (map (section_pieces splitter config) (split_sections body tree)))"
proof -
  obtain chunks current where f: "foldl (add_section splitter tree config) ([], None) (split_sections body tree) = (chunks, current)"
    by (cases "foldl (add_section splitter tree config) ([], None) (split_sections body tree)")
  show ?thesis
    using fold_sections_text [of splitter tree config "([], None)" "split_sections body tree"]
    by (simp add: raw_chunks_def f flush_current_text) (simp add: state_text_def pending_texts_def)
qed

section \<open>Line ranges and attribution\<close>

definition splitter_ok :: "(nat \<Rightarrow> string \<Rightarrow> (nat \<times> string) list) \<Rightarrow> bool" where
  "splitter_ok splitter \<longleftrightarrow>
     (\<forall>n t off part. (off, part) \<in> set (splitter n t) \<longrightarrow> part \<noteq> [] \<and> take (length part) (drop off t) = part)"

lemma line_of_in_range:
  fixes body
  defines "li \<equiv> line_index_new body"
  assumes "1 \<le> a" "a \<le> b" "b \<le> line_count li"
    and "fst (byte_range li a b) \<le> x" "x < snd (byte_range li a b)"
  shows "a \<le> line_of li x \<and> line_of li x \<le> b"
proof -
  let ?s = "li_starts li" and ?w = "takeWhile (\<lambda>s. s \<le> x) (li_starts li)"
  have sorted: "sorted ?s"
    using sorted_starts [of body] unfolding li_def by (simp add: strict_sorted_imp_sorted)
  have lw: "length ?w = card {i. i < length ?s \<and> ?s ! i \<le> x}"
    by (rule takeWhile_map_upt_sorted [OF sorted])
  have br: "fst (byte_range li a b) = ?s ! (a - 1)"
      "snd (byte_range li a b) = (if b < line_count li then ?s ! b - 1 else li_len li)"
    using byte_range_in [OF assms(2-4)] by auto
  have "{..<a} \<subseteq> {i. i < length ?s \<and> ?s ! i \<le> x}"
  proof
    fix i assume "i \<in> {..<a}"
    then have i: "i \<le> a - 1" "a - 1 < length ?s" using assms(2-4) by (auto simp: line_count_def)
    then have "?s ! i \<le> ?s ! (a - 1)" using sorted by (simp add: sorted_nth_mono)
    then show "i \<in> {i. i < length ?s \<and> ?s ! i \<le> x}" using i assms(5) br by auto
  qed
  then have lo: "a \<le> length ?w" unfolding lw using card_mono [of "{i. i < length ?s \<and> ?s ! i \<le> x}" "{..<a}"] by simp
  have "{i. i < length ?s \<and> ?s ! i \<le> x} \<subseteq> {..<b}"
  proof
    fix i assume i: "i \<in> {i. i < length ?s \<and> ?s ! i \<le> x}"
    show "i \<in> {..<b}"
    proof (rule ccontr)
      assume "i \<notin> {..<b}"
      then have "b \<le> i" "b < length ?s" using i by auto
      then have le: "?s ! b \<le> ?s ! i" using sorted i by (simp add: sorted_nth_mono)
      have "x < ?s ! b - 1" using assms(6) br \<open>b < length ?s\<close> by (simp add: line_count_def)
      then have "x < ?s ! i" using le by linarith
      then show False using i by simp
    qed
  qed
  then have "length ?w \<le> b" unfolding lw using card_mono [of "{..<b}"] by fastforce
  then show ?thesis using lo assms(2) by (simp add: line_of_def)
qed

text \<open>
  The interface between the accumulation loop and what is said about a chunk: a property that both
  kinds of fresh chunk have and that an append keeps (when headings isolate sections, an append to a
  chunk of the same section) holds of every chunk the loop produces.
\<close>

locale chunk_invariant =
  fixes splitter :: "nat \<Rightarrow> string \<Rightarrow> (nat \<times> string) list"
    and tree :: heading_tree
    and config :: chunking_config
    and ss :: "body_section list"
    and P :: "raw_chunk \<Rightarrow> bool"
  assumes seed: "s \<in> set ss \<Longrightarrow> P (seeded_chunk tree s)"
    and fragment: "s \<in> set ss \<Longrightarrow> (off, part) \<in> set (splitter (effective_max config) (sec_text s)) \<Longrightarrow>
      P (fragment_chunk tree s (i, off, part))"
    and append: "P c \<Longrightarrow> P d \<Longrightarrow> (cc_heading_metadata config \<Longrightarrow> rc_section c = rc_section d) \<Longrightarrow>
      P (rc_append c (rc_text d) (rc_line_end d) (rc_breadcrumb d) (rc_section d) tree)"
begin

definition frag_inv :: "body_section \<Rightarrow> raw_chunk list \<times> raw_chunk option \<Rightarrow> bool" where
  "frag_inv s st \<longleftrightarrow> (\<forall>c\<in>set (fst st). P c)
     \<and> (\<forall>c. snd st = Some c \<longrightarrow> P c \<and> rc_section c = section_id_of s)"

lemma add_fragment_inv:
  assumes "s \<in> set ss" "(off, part) \<in> set (splitter (effective_max config) (sec_text s))" "frag_inv s st"
  shows "frag_inv s (add_fragment tree (effective_max config) s st (i, off, part))"
proof -
  let ?n = "fragment_chunk tree s (i, off, part)"
  have n: "P ?n" "rc_section ?n = section_id_of s" "rc_text ?n = part"
    using fragment [OF assms(1,2)] by (auto simp: fragment_chunk_def Let_def)
  have a: "P (rc_append c part (rc_line_end ?n) (rc_breadcrumb ?n) (section_id_of s) tree)"
      "rc_section (rc_append c part (rc_line_end ?n) (rc_breadcrumb ?n) (section_id_of s) tree) = section_id_of s"
    if "P c" "rc_section c = section_id_of s" for c
    using append [OF that(1) n(1)] that n by (auto simp: rc_append_def)
  show ?thesis
    using assms(3) n a by (cases st; cases "snd st") (auto simp: frag_inv_def Let_def)
qed

lemma fold_fragments_inv:
  "s \<in> set ss \<Longrightarrow> set frags \<subseteq> UNIV \<times> set (splitter (effective_max config) (sec_text s)) \<Longrightarrow>
   frag_inv s st \<Longrightarrow> frag_inv s (foldl (add_fragment tree (effective_max config) s) st frags)"
proof (induction frags arbitrary: st)
  case (Cons f frags)
  obtain i off part where f: "f = (i, off, part)" by (cases f) auto
  then show ?case
    using Cons.prems add_fragment_inv [of s off part st i] by (auto intro: Cons.IH)
qed simp

lemma flush_tail_inv:
  assumes "frag_inv s st"
  shows "\<forall>c\<in>set (flush_tail tree (effective_max config) (cc_heading_metadata config) st). P c"
proof -
  obtain chunks pending where st: "st = (chunks, pending)" by (cases st)
  show ?thesis
  proof (cases pending)
    case (Some tail)
    show ?thesis
    proof (cases chunks rule: rev_cases)
      case (snoc cs c)
      then have "P c" "P tail" using assms by (auto simp: st Some frag_inv_def)
      then have "P (rc_append c (rc_text tail) (rc_line_end tail) (rc_breadcrumb tail) (rc_section tail) tree)"
        if "rc_section c = rc_section tail \<or> \<not> cc_heading_metadata config"
        using append that by blast
      then show ?thesis using assms snoc by (auto simp: st Some frag_inv_def flush_tail_def Let_def)
    qed (use assms in \<open>auto simp: st Some frag_inv_def flush_tail_def\<close>)
  qed (use assms in \<open>auto simp: st frag_inv_def flush_tail_def\<close>)
qed

definition sec_inv :: "raw_chunk list \<times> raw_chunk option \<Rightarrow> bool" where
  "sec_inv st \<longleftrightarrow> (\<forall>c\<in>set (flush_current (fst st) (snd st)). P c)"

lemma add_section_inv:
  assumes "s \<in> set ss" "sec_inv st"
  shows "sec_inv (add_section splitter tree config st s)"
proof -
  obtain chunks current where st: "st = (chunks, current)" by (cases st)
  show ?thesis
  proof (cases "effective_max config < length (trim (sec_text s))")
    case True
    let ?frags = "enumerate 0 (splitter (effective_max config) (sec_text s))"
    have "set ?frags \<subseteq> UNIV \<times> set (splitter (effective_max config) (sec_text s))"
      by (auto simp: enumerate_eq_zip dest: set_zip_rightD)
    moreover have "frag_inv s (flush_current chunks current, None)"
      using assms(2) by (simp add: st sec_inv_def frag_inv_def)
    ultimately show ?thesis
      using True flush_tail_inv [OF fold_fragments_inv [OF assms(1)]]
      by (auto simp: st add_section_def sec_inv_def split_oversized_def flush_current_def)
  next
    case False
    have n: "P (seeded_chunk tree s)" by (rule seed [OF assms(1)])
    have "P (rc_append c (sec_text s) (sec_line_end s) (leading_breadcrumb tree s) (section_id_of s) tree)"
      if "P c" "\<not> cc_heading_metadata config" for c
      using append [OF that(1) n] that(2) by (simp add: seeded_chunk_def)
    then show ?thesis
      using False assms(2) n
      by (auto simp: st add_section_def sec_inv_def Let_def flush_current_def split: option.splits)
  qed
qed

lemma fold_sections_inv:
  "set ts \<subseteq> set ss \<Longrightarrow> sec_inv st \<Longrightarrow> sec_inv (foldl (add_section splitter tree config) st ts)"
  by (induction ts arbitrary: st) (auto simp: add_section_inv)

lemma all_chunks:
  assumes "c \<in> set (case foldl (add_section splitter tree config) ([], None) ss of
    (chunks, current) \<Rightarrow> flush_current chunks current)"
  shows "P c"
proof -
  obtain chunks current where f: "foldl (add_section splitter tree config) ([], None) ss = (chunks, current)"
    by fastforce
  have "sec_inv (chunks, current)"
    unfolding f [symmetric] by (rule fold_sections_inv) (simp_all add: sec_inv_def flush_current_def)
  then show ?thesis using assms by (simp add: f sec_inv_def)
qed

end

definition valid_id :: "heading_tree \<Rightarrow> section_id \<Rightarrow> bool" where
  "valid_id tree sid \<longleftrightarrow> (case sid of Heading i \<Rightarrow> i < length (ht_headings tree) | _ \<Rightarrow> True)"

definition sec_valid :: "string \<Rightarrow> heading_tree \<Rightarrow> body_section \<Rightarrow> bool" where
  "sec_valid body tree s \<longleftrightarrow>
     1 \<le> sec_line_start s \<and> sec_line_start s \<le> sec_line_end s \<and> sec_line_end s \<le> tree_line_count tree
     \<and> s = make_section body tree (sec_line_start s) (sec_line_end s) (sec_heading s)
     \<and> valid_id tree (section_id_of s)
     \<and> fst (section_line_range (section_id_of s) tree) \<le> sec_line_start s
     \<and> sec_line_end s \<le> snd (section_line_range (section_id_of s) tree)"

lemma make_section_simps [simp]:
  "sec_text (make_section body tree a b h) = slice body (byte_range (ht_lines tree) a b)"
  "sec_byte_start (make_section body tree a b h) = fst (byte_range (ht_lines tree) a b)"
  "sec_line_start (make_section body tree a b h) = a"
  "sec_line_end (make_section body tree a b h) = b"
  "sec_heading (make_section body tree a b h) = h"
  by (auto simp: make_section_def Let_def)

lemma tree_lines [simp]: "ht_lines (heading_tree_parse parser body) = line_index_new body"
  by (simp add: heading_tree_parse_def Let_def)

lemma line_count_pos: "body \<noteq> [] \<Longrightarrow> 1 \<le> tree_line_count (heading_tree_parse parser body)"
  by (simp add: tree_line_count_def line_count_new Suc_le_eq)

lemma preamble_end_le:
  assumes "body \<noteq> []"
  shows "preamble_end (heading_tree_parse parser body) \<le> tree_line_count (heading_tree_parse parser body)"
proof (cases "ht_headings (heading_tree_parse parser body)")
  case (Cons h hs)
  then have "hd_line h \<le> max 1 (tree_line_count (heading_tree_parse parser body))"
    using headings_wf_basic [OF heading_tree_parse_wf [of parser body], of 0] by simp
  then show ?thesis using Cons line_count_pos [OF assms, of parser] by (simp add: preamble_end_def)
qed (simp add: preamble_end_def)

lemma split_sections_valid:
  assumes "body \<noteq> []" "s \<in> set (split_sections body (heading_tree_parse parser body))"
  shows "sec_valid body (heading_tree_parse parser body) s"
proof -
  let ?t = "heading_tree_parse parser body"
  note wf = heading_tree_parse_wf [of parser body]
  from assms(2) consider "s = make_section body ?t 1 (preamble_end ?t) None" "0 < preamble_end ?t"
    | i where "i < length (ht_headings ?t)"
        "s = make_section body ?t (hd_line (ht_headings ?t ! i)) (hd_section_end (ht_headings ?t ! i)) (Some i)"
    by (auto simp: split_sections_def Let_def in_set_enumerate_eq split: if_splits)
  then show ?thesis
  proof cases
    case 1
    then show ?thesis
      using preamble_end_le [OF assms(1), of parser] by (simp add: sec_valid_def section_id_of_def valid_id_def)
  next
    case 2
    then show ?thesis
      using headings_wf_ranges [OF wf 2(1)] headings_wf_basic [OF wf 2(1)] line_count_pos [OF assms(1), of parser]
      by (simp add: sec_valid_def section_id_of_def valid_id_def)
  qed
qed

lemma split_sections_id_inj:
  assumes "s \<in> set (split_sections body tree)" "s' \<in> set (split_sections body tree)"
    and "section_id_of s = section_id_of s'"
  shows "s = s'"
  using assms
  by (auto simp: split_sections_def Let_def in_set_enumerate_eq section_id_of_def split: if_splits)

lemma section_id_of_neq_Root: "section_id_of s \<noteq> Root"
  by (simp add: section_id_of_def split: option.splits)

lemma fragment_lines:
  assumes "splitter_ok splitter" "(off, part) \<in> set (splitter n (sec_text s))"
    and "sec_valid body (heading_tree_parse parser body) s"
  shows "sec_line_start s \<le> rc_line_start (fragment_chunk (heading_tree_parse parser body) s (i, off, part))
    \<and> rc_line_start (fragment_chunk (heading_tree_parse parser body) s (i, off, part))
        \<le> rc_line_end (fragment_chunk (heading_tree_parse parser body) s (i, off, part))
    \<and> rc_line_end (fragment_chunk (heading_tree_parse parser body) s (i, off, part)) \<le> sec_line_end s"
proof -
  let ?li = "line_index_new body" and ?a = "sec_line_start s" and ?b = "sec_line_end s"
  from assms(3) have s: "sec_text s = slice body (byte_range ?li ?a ?b)" "sec_byte_start s = fst (byte_range ?li ?a ?b)"
    and ab: "1 \<le> ?a" "?a \<le> ?b" "?b \<le> line_count ?li"
    by (metis make_section_simps(1,2) sec_valid_def tree_lines, metis make_section_simps(1,2) sec_valid_def tree_lines)
      (use assms(3) in \<open>auto simp: sec_valid_def tree_line_count_def\<close>)
  have p: "part \<noteq> []" "take (length part) (drop off (sec_text s)) = part"
    using assms(1,2) by (auto simp: splitter_ok_def)
  then have "length part \<le> length (sec_text s) - off" by (metis length_drop length_take min.cobounded1)
  then have "off < length (sec_text s)" using p(1) by (cases "off < length (sec_text s)") auto
  then have "off < snd (byte_range ?li ?a ?b) - fst (byte_range ?li ?a ?b)" by (simp add: s slice_def)
  then have "?a \<le> line_of ?li (sec_byte_start s + off) \<and> line_of ?li (sec_byte_start s + off) \<le> ?b"
    using line_of_in_range [OF ab, of "sec_byte_start s + off"] s by simp
  then show ?thesis by (simp add: fragment_chunk_def Let_def)
qed

lemma section_merge_range:
  fixes parser body
  defines "t \<equiv> heading_tree_parse parser body"
  assumes "body \<noteq> []" "valid_id t a" "valid_id t b"
  shows "valid_id t (section_merge a b t)
    \<and> fst (section_line_range (section_merge a b t) t) \<le> fst (section_line_range a t)
    \<and> snd (section_line_range a t) \<le> snd (section_line_range (section_merge a b t) t)
    \<and> snd (section_line_range b t) \<le> snd (section_line_range (section_merge a b t) t)"
proof -
  have wf: "headings_wf (tree_line_count t) (ht_headings t)"
    unfolding t_def by (rule heading_tree_parse_wf)
  have n: "1 \<le> tree_line_count t" unfolding t_def by (rule line_count_pos [OF assms(2)])
  have root: "1 \<le> fst (section_line_range x t) \<and> snd (section_line_range x t) \<le> tree_line_count t"
    if "valid_id t x" for x
    using that headings_wf_basic [OF wf] headings_wf_ranges [OF wf] n preamble_end_le [OF assms(2), of parser]
    by (cases x) (fastforce simp: valid_id_def t_def)+
  show ?thesis
  proof (cases "a = b")
    case True
    then show ?thesis using assms by simp
  next
    case False
    show ?thesis
    proof (cases "\<exists>i j c. a = Heading i \<and> b = Heading j \<and> common_ancestor t (Some i) (Some j) = Some c")
      case True
      then obtain i j c where c: "a = Heading i" "b = Heading j" "common_ancestor t (Some i) (Some j) = Some c"
        by blast
      then have "anc (parent_of (ht_headings t)) c i" "anc (parent_of (ht_headings t)) c j"
        using common_ancestor_iff [of parser body i j c] by (auto simp: t_def tree_parent_def)
      then show ?thesis
        using anc_range [OF wf, of c i] anc_range [OF wf, of c j] c assms(3,4) False by (auto simp: valid_id_def)
    next
      case nc: False
      then have "section_merge a b t = Root"
        using False by (cases a; cases b) (auto split: option.splits)
      then show ?thesis using root [OF assms(3)] root [OF assms(4)] by (simp add: valid_id_def)
    qed
  qed
qed

definition chunk_cov :: "heading_tree \<Rightarrow> raw_chunk \<Rightarrow> bool" where
  "chunk_cov tree c \<longleftrightarrow> valid_id tree (rc_section c)
     \<and> fst (section_line_range (rc_section c) tree) \<le> rc_line_start c
     \<and> rc_line_end c \<le> snd (section_line_range (rc_section c) tree)"

lemma rc_append_simps [simp]:
  "rc_line_start (rc_append c t l b s tree) = rc_line_start c"
  "rc_line_end (rc_append c t l b s tree) = l"
  "rc_section (rc_append c t l b s tree) = section_merge (rc_section c) s tree"
  "rc_breadcrumb (rc_append c t l b s tree) = common_ancestor tree (rc_breadcrumb c) b"
  by (auto simp: rc_append_def)

lemma seeded_chunk_simps [simp]:
  "rc_text (seeded_chunk tree s) = sec_text s" "rc_line_start (seeded_chunk tree s) = sec_line_start s"
  "rc_line_end (seeded_chunk tree s) = sec_line_end s" "rc_section (seeded_chunk tree s) = section_id_of s"
  by (auto simp: seeded_chunk_def)

lemma fragment_chunk_simps [simp]:
  "rc_text (fragment_chunk tree s (i, off, part)) = part"
  "rc_section (fragment_chunk tree s (i, off, part)) = section_id_of s"
  by (auto simp: fragment_chunk_def Let_def)

interpretation cov: chunk_invariant splitter "heading_tree_parse parser body" config
    "split_sections body (heading_tree_parse parser body)"
    "\<lambda>c. body \<noteq> [] \<longrightarrow> splitter_ok splitter \<longrightarrow> chunk_cov (heading_tree_parse parser body) c"
  for splitter parser body config
proof (unfold_locales, goal_cases)
  case (1 s)
  then show ?case using split_sections_valid [of body s parser] by (auto simp: chunk_cov_def sec_valid_def)
next
  case (2 s off part i)
  show ?case
  proof (intro impI)
    assume "body \<noteq> []" "splitter_ok splitter"
    then have v: "sec_valid body (heading_tree_parse parser body) s" using 2 split_sections_valid by blast
    from fragment_lines [OF \<open>splitter_ok splitter\<close> 2(2) v, of i] v
    show "chunk_cov (heading_tree_parse parser body) (fragment_chunk (heading_tree_parse parser body) s (i, off, part))"
      unfolding chunk_cov_def sec_valid_def fragment_chunk_simps by linarith
  qed
next
  case (3 c d)
  then show ?case
    using section_merge_range [of body parser "rc_section c" "rc_section d"]
    by (auto simp: chunk_cov_def simp del: section_merge.simps)
qed

definition chunk_iso :: "body_section list \<Rightarrow> raw_chunk \<Rightarrow> bool" where
  "chunk_iso ss c \<longleftrightarrow> (\<exists>s\<in>set ss. rc_section c = section_id_of s
     \<and> sec_line_start s \<le> rc_line_start c \<and> rc_line_end c \<le> sec_line_end s)"

interpretation iso_inv: chunk_invariant splitter "heading_tree_parse parser body" config
    "split_sections body (heading_tree_parse parser body)"
    "\<lambda>c. body \<noteq> [] \<longrightarrow> splitter_ok splitter \<longrightarrow> cc_heading_metadata config \<longrightarrow>
         chunk_iso (split_sections body (heading_tree_parse parser body)) c"
  for splitter parser body config
proof (unfold_locales, goal_cases)
  case (1 s)
  then show ?case by (auto simp: chunk_iso_def)
next
  case (2 s off part i)
  show ?case
  proof (intro impI)
    assume "body \<noteq> []" "splitter_ok splitter"
    then have v: "sec_valid body (heading_tree_parse parser body) s" using 2 split_sections_valid by blast
    from fragment_lines [OF \<open>splitter_ok splitter\<close> 2(2) v, of i] 2(1)
    show "chunk_iso (split_sections body (heading_tree_parse parser body))
        (fragment_chunk (heading_tree_parse parser body) s (i, off, part))"
      unfolding chunk_iso_def fragment_chunk_simps by blast
  qed
next
  case (3 c d)
  then show ?case by (auto simp: chunk_iso_def dest: split_sections_id_inj)
qed


section \<open>The chunker\<close>

text \<open>
  C16. The chunker conserves the body: whatever it merges, splits and flushes, the raw chunk texts
  joined with blank lines are exactly the section texts (a section the splitter cuts counting as its
  fragments) joined with blank lines, in document order. Nothing is lost, duplicated or reordered.
\<close>

theorem chunks_conserve_text:
  "join sep2 (map rc_text (raw_chunks splitter config tree body))
     = join sep2 (concat (map (section_pieces splitter config) (split_sections body tree)))"
  by (simp add: join_sepcat raw_chunks_text)

lemma raw_chunks_cov:
  assumes "body \<noteq> []" "splitter_ok splitter"
    "c \<in> set (raw_chunks splitter config (heading_tree_parse parser body) body)"
  shows "chunk_cov (heading_tree_parse parser body) c"
  using cov.all_chunks assms unfolding raw_chunks_def by blast

lemma raw_chunks_iso:
  assumes "body \<noteq> []" "splitter_ok splitter" "cc_heading_metadata config"
    "c \<in> set (raw_chunks splitter config (heading_tree_parse parser body) body)"
  shows "chunk_iso (split_sections body (heading_tree_parse parser body)) c"
  using iso_inv.all_chunks assms unfolding raw_chunks_def by blast

lemma map_snd_enumerate_id: "map snd (enumerate n xs) = xs"
  by (induction xs arbitrary: n) auto

lemma in_chunk_markdown:
  assumes "c \<in> set (chunk_markdown parser splitter body description config)"
  obtains i raw where "raw \<in> set (raw_chunks splitter config (heading_tree_parse parser body) body)"
    "c = finish_chunk config description (heading_tree_parse parser body) (i, raw)"
  using assms by (force simp: chunk_markdown_def Let_def in_set_enumerate_eq)

lemma finish_chunk_simps [simp]:
  "ck_line_start (finish_chunk config description tree (i, raw)) = rc_line_start raw"
  "ck_line_end (finish_chunk config description tree (i, raw)) = rc_line_end raw"
  "ck_section_line_start (finish_chunk config description tree (i, raw)) = fst (section_line_range (rc_section raw) tree)"
  "ck_section_line_end (finish_chunk config description tree (i, raw)) = snd (section_line_range (rc_section raw) tree)"
  "ck_heading_path (finish_chunk config description tree (i, raw)) = section_path (rc_section raw) tree"
  "ck_heading_level (finish_chunk config description tree (i, raw)) = section_level (rc_section raw) tree"
  by (auto simp: finish_chunk_def Let_def)

definition whole_splitter :: "nat \<Rightarrow> string \<Rightarrow> (nat \<times> string) list" where
  "whole_splitter n t = (if t = [] then [] else [(0, t)])"

lemma whole_splitter_ok: "splitter_ok whole_splitter"
  by (auto simp: splitter_ok_def whole_splitter_def)

definition demo_config :: chunking_config where
  "demo_config = \<lparr>cc_max_chunk_size = 1000, cc_target_chunk_size = None, cc_prepend_description = False,
     cc_prepend_heading_path = True, cc_heading_metadata = True\<rparr>"

definition demo_chunks :: "chunk list" where
  "demo_chunks = chunk_markdown demo_parser whole_splitter demo_body None demo_config"


lemma demo_chunks_eval:
  "map (\<lambda>c. (ck_line_start c, ck_line_end c, ck_section_line_start c, ck_section_line_end c)) demo_chunks
     = [(1, 1, 1, 1), (2, 3, 2, 5), (4, 5, 4, 5), (6, 7, 6, 7)]"
  by code_simp

lemma demo_chunk_in: "demo_chunks ! 1 \<in> set demo_chunks"
proof -
  have "length demo_chunks = 4" using arg_cong [OF demo_chunks_eval, of length] by simp
  then show ?thesis by simp
qed

text \<open>
  C17. The line range a chunk cites lies within the line range of the section it is attributed to:
  its attributed section never starts after the chunk's first line nor ends before its last, whether
  the chunk is one section, a merge of several, or a fragment of an oversized one.
\<close>

theorem chunk_within_attributed_section:
  assumes "body \<noteq> []" "splitter_ok splitter"
    and "c \<in> set (chunk_markdown parser splitter body description config)"
  shows "ck_section_line_start c \<le> ck_line_start c \<and> ck_line_end c \<le> ck_section_line_end c"
proof -
  obtain i raw where r: "raw \<in> set (raw_chunks splitter config (heading_tree_parse parser body) body)"
    "c = finish_chunk config description (heading_tree_parse parser body) (i, raw)"
    using assms(3) by (rule in_chunk_markdown)
  show ?thesis using raw_chunks_cov [OF assms(1,2) r(1)] r(2) by (simp add: chunk_cov_def)
qed

lemma chunk_within_attributed_section_witness:
  "ck_section_line_start (demo_chunks ! 1) \<le> ck_line_start (demo_chunks ! 1)
     \<and> ck_line_end (demo_chunks ! 1) \<le> ck_section_line_end (demo_chunks ! 1)"
  by (rule chunk_within_attributed_section [OF _ whole_splitter_ok demo_chunk_in [unfolded demo_chunks_def],
        folded demo_chunks_def]) (simp add: demo_body_def)

text \<open>
  C18. With heading metadata on no chunk crosses a heading boundary: every chunk lies within the own
  lines of one section of the body, and its recorded heading path, level and line range are that
  section's, never a merge's.
\<close>

theorem heading_metadata_isolates_sections:
  assumes "body \<noteq> []" "splitter_ok splitter" "cc_heading_metadata config"
    and "c \<in> set (chunk_markdown parser splitter body description config)"
  shows "\<exists>s \<in> set (split_sections body (heading_tree_parse parser body)).
           sec_line_start s \<le> ck_line_start c \<and> ck_line_end c \<le> sec_line_end s
           \<and> ck_heading_path c = section_path (section_id_of s) (heading_tree_parse parser body)
           \<and> ck_heading_level c = section_level (section_id_of s) (heading_tree_parse parser body)
           \<and> (ck_section_line_start c, ck_section_line_end c)
               = section_line_range (section_id_of s) (heading_tree_parse parser body)"
proof -
  obtain i raw where r: "raw \<in> set (raw_chunks splitter config (heading_tree_parse parser body) body)"
    "c = finish_chunk config description (heading_tree_parse parser body) (i, raw)"
    using assms(4) by (rule in_chunk_markdown)
  show ?thesis using raw_chunks_iso [OF assms(1-3) r(1)] r(2) by (auto simp: chunk_iso_def)
qed

lemma heading_metadata_isolates_sections_witness:
  "\<exists>s \<in> set (split_sections demo_body demo_tree).
     sec_line_start s \<le> ck_line_start (demo_chunks ! 1) \<and> ck_line_end (demo_chunks ! 1) \<le> sec_line_end s
     \<and> ck_heading_path (demo_chunks ! 1) = section_path (section_id_of s) demo_tree
     \<and> ck_heading_level (demo_chunks ! 1) = section_level (section_id_of s) demo_tree
     \<and> (ck_section_line_start (demo_chunks ! 1), ck_section_line_end (demo_chunks ! 1))
         = section_line_range (section_id_of s) demo_tree"
  by (rule heading_metadata_isolates_sections [OF _ whole_splitter_ok _
        demo_chunk_in [unfolded demo_chunks_def], folded demo_chunks_def])
    (simp_all add: demo_body_def demo_config_def)

text \<open>
  \<open>body_offset\<close> strips exactly what was prepended: the rest of a chunk's text from that byte on is
  the raw chunk's text, whatever breadcrumb and description came before it.
\<close>

theorem body_offset_recovers_raw_text:
  "map (\<lambda>c. drop (ck_body_offset c) (ck_text c)) (chunk_markdown parser splitter body description config)
     = map rc_text (raw_chunks splitter config (heading_tree_parse parser body) body)"
proof -
  have "drop (ck_body_offset (finish_chunk config description tree (i, raw)))
      (ck_text (finish_chunk config description tree (i, raw))) = rc_text raw" for tree i raw
    by (auto simp: finish_chunk_def Let_def split: option.splits bool.splits)
  then have *: "drop (ck_body_offset (finish_chunk config description tree ir))
      (ck_text (finish_chunk config description tree ir)) = rc_text (snd ir)" for tree ir
    by (cases ir) simp
  have "map (\<lambda>c. drop (ck_body_offset c) (ck_text c)) (map (finish_chunk config description tree) irs)
      = map rc_text (map snd irs)" for tree irs
    by (simp add: *)
  from this [where irs = "enumerate 0 raws" for raws] show ?thesis
    by (simp only: chunk_markdown_def Let_def map_snd_enumerate_id)
qed


text \<open>A prefix of a text's characters is a text with those characters.\<close>

lemma dropWhile_hd: "dropWhile P xs = y # ys \<Longrightarrow> \<not> P y"
  by (metis dropWhile_eq_Cons_conv)

lemma hd_concat_take_chars:
  "concat (take k (chars s)) = [] \<or> (s \<noteq> [] \<and> hd (concat (take k (chars s))) = hd s)"
  by (cases s rule: chars.cases; cases k) auto

lemma chars_concat_take: "chars (concat (take k (chars s))) = take k (chars s)"
proof (induction s arbitrary: k rule: chars.induct)
  case (2 b bs)
  show ?case
  proof (cases k)
    case (Suc n)
    define r where "r = concat (take n (chars (dropWhile is_cont bs)))"
    have "r = [] \<or> \<not> is_cont (hd r)"
      using hd_concat_take_chars [of n "dropWhile is_cont bs"] dropWhile_hd [of is_cont bs]
      unfolding r_def [symmetric] by (cases "dropWhile is_cont bs") auto
    then have t: "takeWhile is_cont r = []" "dropWhile is_cont r = r"
      by (cases r; auto)+
    have "takeWhile is_cont (takeWhile is_cont bs @ r) = takeWhile is_cont bs"
      "dropWhile is_cont (takeWhile is_cont bs @ r) = r"
      using t by (auto simp: takeWhile_append dropWhile_append dest: set_takeWhileD)
    then show ?thesis using Suc 2 [of n] by (simp flip: r_def)
  qed simp
qed simp

lemma format_heading_path_budget:
  assumes "format_heading_path path budget = Some crumb"
  shows "char_count crumb \<le> budget \<and> 0 < budget"
  using assms by (auto simp: format_heading_path_def Let_def chars_concat_take split: if_splits)

lemma reserve_fits: "effective_max config + heading_reserve config = cc_max_chunk_size config"
  by (auto simp: effective_max_def heading_reserve_def heading_path_budget_def min_def)

text \<open>
  The breadcrumb is paid for before sections are sized: what is prepended to a chunk without a
  description is nothing, or a prefix and a blank line that together take at most the reserve
  subtracted from the maximum, which is at most 200 characters and a quarter of the chunk size.
\<close>

theorem breadcrumb_within_reserve:
  assumes "c \<in> set (chunk_markdown parser splitter body None config)"
  shows "\<exists>raw \<in> set (raw_chunks splitter config (heading_tree_parse parser body) body).
           ck_text c = rc_text raw
           \<or> (\<exists>crumb. ck_text c = crumb @ sep2 @ rc_text raw
                \<and> effective_max config + (char_count crumb + 2) \<le> cc_max_chunk_size config
                \<and> char_count crumb + 2 \<le> min 200 (cc_max_chunk_size config div 4))"
proof -
  obtain i raw where r: "raw \<in> set (raw_chunks splitter config (heading_tree_parse parser body) body)"
    "c = finish_chunk config None (heading_tree_parse parser body) (i, raw)"
    using assms by (rule in_chunk_markdown)
  show ?thesis
  proof (cases "cc_prepend_heading_path config \<and> (\<exists>crumb. format_heading_path
      (tree_path (heading_tree_parse parser body) (rc_breadcrumb raw)) (heading_reserve config - 2) = Some crumb)")
    case True
    then obtain crumb where p: "cc_prepend_heading_path config" "format_heading_path
      (tree_path (heading_tree_parse parser body) (rc_breadcrumb raw)) (heading_reserve config - 2) = Some crumb"
      by blast
    have t: "ck_text c = crumb @ sep2 @ rc_text raw"
      using p by (simp add: r(2) finish_chunk_def Let_def split: bool.splits)
    have b: "char_count crumb + 2 \<le> min 200 (cc_max_chunk_size config div 4)"
      using format_heading_path_budget [OF p(2)] p(1)
      by (auto simp: heading_reserve_def heading_path_budget_def MAX_HEADING_PATH_CHARS_def)
    have "char_count crumb + 2 \<le> heading_reserve config"
      using format_heading_path_budget [OF p(2)] by linarith
    then have "effective_max config + (char_count crumb + 2) \<le> cc_max_chunk_size config"
      using reserve_fits [of config] by linarith
    then show ?thesis using r(1) t b by blast
  next
    case False
    then have "ck_text c = rc_text raw"
      by (auto simp: r(2) finish_chunk_def Let_def split: option.splits bool.splits)
    then show ?thesis using r(1) by blast
  qed
qed

lemma breadcrumb_within_reserve_witness:
  "\<exists>raw \<in> set (raw_chunks whole_splitter demo_config demo_tree demo_body).
     ck_text (demo_chunks ! 1) = rc_text raw
     \<or> (\<exists>crumb. ck_text (demo_chunks ! 1) = crumb @ sep2 @ rc_text raw
          \<and> effective_max demo_config + (char_count crumb + 2) \<le> cc_max_chunk_size demo_config
          \<and> char_count crumb + 2 \<le> min 200 (cc_max_chunk_size demo_config div 4))"
  by (rule breadcrumb_within_reserve [OF demo_chunk_in [unfolded demo_chunks_def], folded demo_chunks_def])

lemma set_push_new: "set (push_new k keys) = insert k (set keys)"
  by (auto simp: push_new_def)

lemma distinct_push_new: "distinct keys \<Longrightarrow> distinct (push_new k keys)"
  by (simp add: push_new_def)

lemma set_foldl_push_new: "set (foldl (\<lambda>keys x. push_new (f x) keys) keys xs) = set keys \<union> f ` set xs"
  by (induction xs arbitrary: keys) (auto simp: set_push_new)

lemma distinct_foldl_push_new: "distinct keys \<Longrightarrow> distinct (foldl (\<lambda>keys x. push_new (f x) keys) keys xs)"
  by (induction xs arbitrary: keys) (auto simp: distinct_push_new)

lemma set_foldl_foldl_push_new:
  "set (foldl (\<lambda>keys s. foldl (\<lambda>keys e. push_new (g s e) keys) keys (es s)) keys ss)
     = set keys \<union> (\<Union>s\<in>set ss. g s ` set (es s))"
  by (induction ss arbitrary: keys) (auto simp: set_foldl_push_new)

lemma distinct_derive_heading_prefixes: "distinct (derive_heading_prefixes cf path)"
proof -
  have "distinct keys \<Longrightarrow> distinct (foldl (\<lambda>keys s. foldl (\<lambda>keys e. push_new (g s e) keys) keys (es s)) keys ss)"
    for keys :: "string list" and ss :: "nat list" and g es
    by (induction ss arbitrary: keys) (auto simp: distinct_foldl_push_new)
  from this [OF distinct.simps(1) [THEN iffD2, OF TrueI]] show ?thesis unfolding derive_heading_prefixes_def .
qed

lemma runs_are_sublists:
  "{take (e - s) (drop s xs) |s e. s < length xs \<and> s + 1 \<le> e \<and> e < length xs + 1} = {r. sublist r xs \<and> r \<noteq> []}"
proof (rule set_eqI, rule iffI)
  fix r assume "r \<in> {take (e - s) (drop s xs) |s e. s < length xs \<and> s + 1 \<le> e \<and> e < length xs + 1}"
  then obtain s e where r: "r = take (e - s) (drop s xs)" "s < length xs" "s + 1 \<le> e" "e < length xs + 1" by blast
  have "xs = take s xs @ r @ drop (e - s) (drop s xs)" unfolding r(1) by (simp only: append_take_drop_id)
  then show "r \<in> {r. sublist r xs \<and> r \<noteq> []}" using r by (auto simp: sublist_def)
next
  fix r assume "r \<in> {r. sublist r xs \<and> r \<noteq> []}"
  then obtain ps qs where "xs = ps @ r @ qs" "r \<noteq> []" by (auto simp: sublist_def)
  then have "r = take (length ps + length r - length ps) (drop (length ps) xs) \<and> length ps < length xs
      \<and> length ps + 1 \<le> length ps + length r \<and> length ps + length r < length xs + 1"
    by (cases r) auto
  then show "r \<in> {take (e - s) (drop s xs) |s e. s < length xs \<and> s + 1 \<le> e \<and> e < length xs + 1}" by blast
qed

lemma set_derive_heading_prefixes:
  "set (derive_heading_prefixes cf path) = heading_prefix_key cf ` {r. sublist r path \<and> r \<noteq> []}"
proof -
  have "set (derive_heading_prefixes cf path)
      = heading_prefix_key cf ` {take (e - s) (drop s path) |s e. s < length path \<and> s + 1 \<le> e \<and> e < length path + 1}"
    unfolding derive_heading_prefixes_def set_foldl_foldl_push_new
    by (rule set_eqI) (simp only: UN_iff image_iff set_upt atLeastLessThan_iff list.set Un_empty_left
        mem_Collect_eq Bex_def, blast)
  then show ?thesis unfolding runs_are_sublists .
qed

text \<open>
  C19. The \<open>heading_prefixes\<close> payload answers the section filter exactly: the list of keys a path
  derives has no duplicates, and it holds the key of a queried path if and only if some contiguous run
  of the stored path has the query's normalised segments, at whatever depth the run starts.
\<close>

theorem heading_prefixes_match_runs:
  assumes "\<And>t. CHR 0x1F \<notin> set t \<Longrightarrow> CHR 0x1F \<notin> set (case_fold t)"
    and "\<forall>s\<in>set path. valid_str s \<and> normalize_heading_text case_fold s \<noteq> []"
    and "\<forall>s\<in>set query. valid_str s \<and> normalize_heading_text case_fold s \<noteq> []"
    and "query \<noteq> []"
  shows "distinct (derive_heading_prefixes case_fold path)
    \<and> (heading_prefix_key case_fold query \<in> set (derive_heading_prefixes case_fold path)
       \<longleftrightarrow> (\<exists>run. sublist run path
             \<and> map (normalize_heading_text case_fold) run = map (normalize_heading_text case_fold) query))"
proof -
  have "heading_prefix_key case_fold query \<in> set (derive_heading_prefixes case_fold path)
      \<longleftrightarrow> (\<exists>run. sublist run path \<and> run \<noteq> [] \<and> heading_prefix_key case_fold query = heading_prefix_key case_fold run)"
    unfolding set_derive_heading_prefixes by blast
  also have "\<dots> \<longleftrightarrow> (\<exists>run. sublist run path
             \<and> map (normalize_heading_text case_fold) run = map (normalize_heading_text case_fold) query)"
  proof -
    have "heading_prefix_key case_fold query = heading_prefix_key case_fold run \<and> run \<noteq> []
        \<longleftrightarrow> map (normalize_heading_text case_fold) run = map (normalize_heading_text case_fold) query"
      if "sublist run path" for run
    proof -
      have "\<forall>s\<in>set run. valid_str s \<and> normalize_heading_text case_fold s \<noteq> []"
        using assms(2) set_mono_sublist [OF that] by blast
      from prefix_key_eq_iff [OF assms(1) assms(3) this] assms(4) show ?thesis
        by (metis Nil_is_map_conv)
    qed
    then show ?thesis by blast
  qed
  finally show ?thesis using distinct_derive_heading_prefixes by blast
qed

lemma heading_prefixes_match_runs_witness:
  "heading_prefix_key (\<lambda>t. t) [''B '', ''C''] \<in> set (derive_heading_prefixes (\<lambda>t. t) [''A'', ''B'', ''C''])"
proof -
  have v: "\<forall>s\<in>set [''A'', ''B'', ''C'']. valid_str s \<and> normalize_heading_text (\<lambda>t. t) s \<noteq> []"
      "\<forall>s\<in>set [''B '', ''C'']. valid_str s \<and> normalize_heading_text (\<lambda>t. t) s \<noteq> []" by code_simp+
  have "sublist [''B'', ''C''] [''A'', ''B'', ''C'']
      \<and> map (normalize_heading_text (\<lambda>t. t)) [''B'', ''C''] = map (normalize_heading_text (\<lambda>t. t)) [''B '', ''C'']"
    by code_simp
  then show ?thesis using heading_prefixes_match_runs [OF _ v] by blast
qed

end
