(* ===== verification/Status.thy ===== *)
theory Status
  imports Prelude "HOL-Library.Word"
begin

text \<open>
  The in-memory record of indexing activity, \<open>src/src/status.rs\<close>: the run state machine behind
  \<open>/status\<close> with its generation-checked guards, the schema error streak, the payload index and strict
  rejection maps, the stale-chunking latch, and the query-side counters with their latency histograms.

  Counters are 64-bit words with the source's saturating or wrapping addition. The clocks are
  arguments: \<open>unix\<close> for \<open>unix_now\<close> (seconds), \<open>tick\<close> for \<open>Instant::now\<close> (nanoseconds), and \<open>fmt\<close> is
  chrono's \<open>format_unix\<close>. Every lock acquisition runs one closure, so each operation is one function
  on the state.
\<close>

section \<open>Data\<close>

datatype run_mode = Full | Incremental

definition from_full :: "bool \<Rightarrow> run_mode" where
  "from_full full = (if full then Full else Incremental)"

fun run_mode_str :: "run_mode \<Rightarrow> string" where
  "run_mode_str Full = ''full''"
| "run_mode_str Incremental = ''incremental''"

datatype trigger = Cli | Startup | Webhook | WriteTool | Worker

fun trigger_str :: "trigger \<Rightarrow> string" where
  "trigger_str Cli = ''cli''"
| "trigger_str Startup = ''startup''"
| "trigger_str Webhook = ''webhook''"
| "trigger_str WriteTool = ''write_tool''"
| "trigger_str Worker = ''worker''"

datatype phase = Starting | Discovering | Scanning | Embedding | Backfilling | RemovingOrphans

fun phase_str :: "phase \<Rightarrow> string" where
  "phase_str Starting = ''starting''"
| "phase_str Discovering = ''discovering''"
| "phase_str Scanning = ''scanning''"
| "phase_str Embedding = ''embedding''"
| "phase_str Backfilling = ''backfilling''"
| "phase_str RemovingOrphans = ''removing_orphans''"

definition run_modes :: "run_mode list" where "run_modes = [Full, Incremental]"

definition triggers :: "trigger list" where "triggers = [Cli, Startup, Webhook, WriteTool, Worker]"

definition phases :: "phase list" where
  "phases = [Starting, Discovering, Scanning, Embedding, Backfilling, RemovingOrphans]"

type_synonym u64 = "64 word"

record run_counters =
  rc_discovered :: u64
  rc_indexed :: u64
  rc_skipped :: u64
  rc_invalid :: u64
  rc_empty :: u64
  rc_read_errors :: u64
  rc_metadata_backfilled :: u64
  rc_orphans_removed :: u64
  rc_strict_rejected :: u64
  rc_refreshed :: u64

definition run_counters_default :: run_counters where
  "run_counters_default =
     \<lparr>rc_discovered = 0, rc_indexed = 0, rc_skipped = 0, rc_invalid = 0, rc_empty = 0, rc_read_errors = 0,
      rc_metadata_backfilled = 0, rc_orphans_removed = 0, rc_strict_rejected = 0, rc_refreshed = 0\<rparr>"

definition as_pairs :: "run_counters \<Rightarrow> (string \<times> u64) list" where
  "as_pairs c =
     [(''discovered'', rc_discovered c), (''indexed'', rc_indexed c), (''skipped'', rc_skipped c),
      (''invalid'', rc_invalid c), (''empty'', rc_empty c), (''read_errors'', rc_read_errors c),
      (''metadata_backfilled'', rc_metadata_backfilled c), (''orphans_removed'', rc_orphans_removed c),
      (''strict_rejected'', rc_strict_rejected c), (''refreshed'', rc_refreshed c)]"

record last_run =
  lr_mode :: run_mode
  lr_trigger :: trigger
  lr_success :: bool
  lr_error :: "string option"
  lr_started_unix :: int
  lr_started_at :: string
  lr_finished_unix :: int
  lr_finished_at :: string
  lr_duration :: nat
  lr_counters :: run_counters

datatype payload_index_state = IndexOk | IndexFailed string

record strict_rejection =
  sr_reason :: string

text \<open>\<open>InvalidSchemaFile\<close>: the path and the reason.\<close>

type_synonym invalid_schema_file = "string \<times> string"

record schema_error_state =
  se_since_unix :: int
  se_since_at :: string
  se_files :: "invalid_schema_file list"

record current_run =
  cur_generation :: u64
  cur_mode :: run_mode
  cur_trigger :: trigger
  cur_phase :: phase
  cur_started :: nat
  cur_started_unix :: int
  cur_files_done :: u64
  cur_files_total :: u64
  cur_chunks_embedded :: u64
  cur_chunks_total :: u64
  cur_counters :: run_counters

record inner =
  st_current :: "current_run option"
  st_last :: "last_run option"
  st_generation :: u64
  st_runs_total :: u64
  st_runs_failed :: u64
  st_last_success_unix :: "int option"
  st_payload_indexes :: "string \<rightharpoonup> payload_index_state"
  st_strict_rejected_files :: "string \<rightharpoonup> strict_rejection"
  st_schema_error :: "schema_error_state option"
  st_stale_chunking :: bool

definition inner_default :: inner where
  "inner_default =
     \<lparr>st_current = None, st_last = None, st_generation = 0, st_runs_total = 0, st_runs_failed = 0,
      st_last_success_unix = None, st_payload_indexes = Map.empty, st_strict_rejected_files = Map.empty,
      st_schema_error = None, st_stale_chunking = False\<rparr>"

section \<open>Operations\<close>

definition saturating_add :: "u64 \<Rightarrow> u64 \<Rightarrow> u64" where
  "saturating_add a b = (if unat a + unat b < 2 ^ 64 then a + b else - 1)"

text \<open>\<open>begin\<close> returns the generation its guard carries.\<close>

definition begin_run :: "int \<Rightarrow> nat \<Rightarrow> run_mode \<Rightarrow> trigger \<Rightarrow> inner \<Rightarrow> u64 \<times> inner" where
  "begin_run unix tick mode trig s =
     (let generation = st_generation s + 1 in
      (generation,
       s\<lparr>st_generation := generation,
         st_current := Some
           \<lparr>cur_generation = generation, cur_mode = mode, cur_trigger = trig, cur_phase = Starting,
            cur_started = tick, cur_started_unix = unix, cur_files_done = 0, cur_files_total = 0,
            cur_chunks_embedded = 0, cur_chunks_total = 0, cur_counters = run_counters_default\<rparr>\<rparr>))"

definition update_current :: "(current_run \<Rightarrow> current_run) \<Rightarrow> inner \<Rightarrow> inner" where
  "update_current f s = s\<lparr>st_current := map_option f (st_current s)\<rparr>"

definition set_phase :: "phase \<Rightarrow> inner \<Rightarrow> inner" where
  "set_phase p = update_current (\<lambda>cur. cur\<lparr>cur_phase := p\<rparr>)"

definition set_files_total :: "u64 \<Rightarrow> inner \<Rightarrow> inner" where
  "set_files_total tot = update_current (\<lambda>cur. cur\<lparr>cur_files_total := tot,
     cur_counters := (cur_counters cur)\<lparr>rc_discovered := tot\<rparr>\<rparr>)"

definition set_files_done :: "u64 \<Rightarrow> inner \<Rightarrow> inner" where
  "set_files_done n = update_current (\<lambda>cur. cur\<lparr>cur_files_done := n\<rparr>)"

definition set_chunks_total :: "u64 \<Rightarrow> inner \<Rightarrow> inner" where
  "set_chunks_total tot = update_current (\<lambda>cur. cur\<lparr>cur_chunks_total := tot, cur_chunks_embedded := 0\<rparr>)"

definition add_chunks_embedded :: "u64 \<Rightarrow> inner \<Rightarrow> inner" where
  "add_chunks_embedded n = update_current (\<lambda>cur.
     cur\<lparr>cur_chunks_embedded := saturating_add (cur_chunks_embedded cur) n\<rparr>)"

definition set_counters :: "run_counters \<Rightarrow> inner \<Rightarrow> inner" where
  "set_counters counters = update_current (\<lambda>cur. cur\<lparr>cur_counters := counters\<rparr>)"

definition finish_run ::
    "(int \<Rightarrow> string) \<Rightarrow> int \<Rightarrow> nat \<Rightarrow> u64 \<Rightarrow> string option \<Rightarrow> inner \<Rightarrow> inner" where
  "finish_run fmt unix tick generation error s =
     (case st_current s of
        None \<Rightarrow> s
      | Some cur \<Rightarrow>
          if cur_generation cur \<noteq> generation then s
          else
            let success = (error = None) in
            s\<lparr>st_current := None,
              st_runs_total := saturating_add (st_runs_total s) 1,
              st_runs_failed :=
                (if success then st_runs_failed s else saturating_add (st_runs_failed s) 1),
              st_last_success_unix := (if success then Some unix else st_last_success_unix s),
              st_last := Some
                \<lparr>lr_mode = cur_mode cur, lr_trigger = cur_trigger cur, lr_success = success,
                 lr_error = error, lr_started_unix = cur_started_unix cur,
                 lr_started_at = fmt (cur_started_unix cur), lr_finished_unix = unix,
                 lr_finished_at = fmt unix, lr_duration = tick - cur_started cur,
                 lr_counters = cur_counters cur\<rparr>\<rparr>)"

definition record_payload_index :: "string \<Rightarrow> string option \<Rightarrow> inner \<Rightarrow> inner" where
  "record_payload_index field error s =
     s\<lparr>st_payload_indexes := (st_payload_indexes s)
         (field \<mapsto> (case error of None \<Rightarrow> IndexOk | Some e \<Rightarrow> IndexFailed e))\<rparr>"

definition record_strict_rejection :: "string \<Rightarrow> string option \<Rightarrow> inner \<Rightarrow> inner" where
  "record_strict_rejection path reason s =
     s\<lparr>st_strict_rejected_files := (st_strict_rejected_files s)
         (path := map_option (\<lambda>r. \<lparr>sr_reason = r\<rparr>) reason)\<rparr>"

definition phrase_matching_available :: "inner \<Rightarrow> bool" where
  "phrase_matching_available s \<longleftrightarrow> st_payload_indexes s ''text'' = Some IndexOk"

definition is_bulk_indexing :: "inner \<Rightarrow> bool" where
  "is_bulk_indexing s \<longleftrightarrow> st_stale_chunking s
     \<or> (case st_current s of None \<Rightarrow> False | Some cur \<Rightarrow> cur_mode cur = Full \<or> 1 < cur_files_total cur)"

definition clear_stale_chunking :: "inner \<Rightarrow> inner" where
  "clear_stale_chunking s = s\<lparr>st_stale_chunking := False\<rparr>"

definition record_schema_error ::
    "(int \<Rightarrow> string) \<Rightarrow> int \<Rightarrow> invalid_schema_file list \<Rightarrow> inner \<Rightarrow> inner" where
  "record_schema_error fmt unix invalid s =
     (let since = (case st_schema_error s of None \<Rightarrow> unix | Some prev \<Rightarrow> se_since_unix prev) in
      s\<lparr>st_schema_error := Some \<lparr>se_since_unix = since, se_since_at = fmt since, se_files = invalid\<rparr>\<rparr>)"

definition clear_schema_error :: "inner \<Rightarrow> inner" where
  "clear_schema_error s = s\<lparr>st_schema_error := None\<rparr>"

definition schema_error :: "inner \<Rightarrow> schema_error_state option" where
  "schema_error s = st_schema_error s"

text \<open>A \<open>ReconcileScan\<close> guard is its own flag; \<open>mark_rechunk\<close> sets it and, the first time, the latch.\<close>

definition mark_rechunk :: "bool \<times> inner \<Rightarrow> bool \<times> inner" where
  "mark_rechunk gs =
     (case gs of (rechunk, s) \<Rightarrow> (True, if rechunk then s else s\<lparr>st_stale_chunking := True\<rparr>))"

definition rechunk_detected :: "bool \<times> inner \<Rightarrow> bool" where
  "rechunk_detected gs = fst gs"

definition ABORTED_REASON :: string where
  "ABORTED_REASON = ''run ended without reporting an outcome (panicked, or its future was cancelled)''"

text \<open>A \<open>RunGuard\<close>: the generation and whether it is armed. \<open>finish\<close> disarms it before it drops.\<close>

record run_guard =
  rg_generation :: u64
  rg_armed :: bool

definition guard_of :: "u64 \<Rightarrow> run_guard" where
  "guard_of generation = \<lparr>rg_generation = generation, rg_armed = True\<rparr>"

definition guard_drop :: "(int \<Rightarrow> string) \<Rightarrow> int \<Rightarrow> nat \<Rightarrow> run_guard \<Rightarrow> inner \<Rightarrow> inner" where
  "guard_drop fmt unix tick g s =
     (if rg_armed g then finish_run fmt unix tick (rg_generation g) (Some ABORTED_REASON) s else s)"

definition guard_finish ::
    "(int \<Rightarrow> string) \<Rightarrow> int \<Rightarrow> nat \<Rightarrow> run_guard \<Rightarrow> string option \<Rightarrow> inner \<Rightarrow> inner" where
  "guard_finish fmt unix tick g error s =
     (let g = g\<lparr>rg_armed := False\<rparr> in
      guard_drop fmt unix tick g (finish_run fmt unix tick (rg_generation g) error s))"


section \<open>The run state machine\<close>

text \<open>
  The operations a process performs on the status, in any interleaving: the second component of a
  state is the list of guards that have been issued and not yet dropped. A guard leaves the list when
  it is consumed by \<open>finish\<close> or dropped; nothing else can reach \<open>finish_run\<close>.
\<close>

inductive status_step ::
    "(int \<Rightarrow> string) \<Rightarrow> inner \<times> run_guard list \<Rightarrow> inner \<times> run_guard list \<Rightarrow> bool"
  for fmt where
  StepBegin: "begin_run unix tick mode trig s = (generation, s') \<Longrightarrow>
    status_step fmt (s, gs) (s', guard_of generation # gs)"
| StepFinish: "g \<in> set gs \<Longrightarrow>
    status_step fmt (s, gs) (guard_finish fmt unix tick g error s, remove1 g gs)"
| StepDrop: "g \<in> set gs \<Longrightarrow> status_step fmt (s, gs) (guard_drop fmt unix tick g s, remove1 g gs)"
| StepPhase: "status_step fmt (s, gs) (set_phase p s, gs)"
| StepFilesTotal: "status_step fmt (s, gs) (set_files_total n s, gs)"
| StepFilesDone: "status_step fmt (s, gs) (set_files_done n s, gs)"
| StepChunksTotal: "status_step fmt (s, gs) (set_chunks_total n s, gs)"
| StepChunksEmbedded: "status_step fmt (s, gs) (add_chunks_embedded n s, gs)"
| StepCounters: "status_step fmt (s, gs) (set_counters c s, gs)"
| StepPayloadIndex: "status_step fmt (s, gs) (record_payload_index field e s, gs)"
| StepRejection: "status_step fmt (s, gs) (record_strict_rejection path r s, gs)"
| StepRechunk: "status_step fmt (s, gs) (snd (mark_rechunk (flag, s)), gs)"
| StepClearStale: "status_step fmt (s, gs) (clear_stale_chunking s, gs)"
| StepSchemaError: "status_step fmt (s, gs) (record_schema_error fmt unix invalid s, gs)"
| StepClearSchema: "status_step fmt (s, gs) (clear_schema_error s, gs)"

inductive_cases status_step_cases: "status_step fmt (s, gs) (s', gs')"

text \<open>Reachable states, with the number of runs begun so far.\<close>

inductive status_reach :: "(int \<Rightarrow> string) \<Rightarrow> nat \<Rightarrow> inner \<times> run_guard list \<Rightarrow> bool" for fmt where
  ReachInit: "status_reach fmt 0 (inner_default, [])"
| ReachStep: "status_reach fmt n sg \<Longrightarrow> status_step fmt sg sg' \<Longrightarrow>
    status_reach fmt (if length (snd sg') = length (snd sg) + 1 then n + 1 else n) sg'"

lemma update_current_simps [simp]:
  "st_generation (update_current f s) = st_generation s"
  "st_runs_total (update_current f s) = st_runs_total s"
  "st_runs_failed (update_current f s) = st_runs_failed s"
  "st_current (update_current f s) = map_option f (st_current s)"
  by (auto simp: update_current_def)

lemmas set_defs = set_phase_def set_files_total_def set_files_done_def set_chunks_total_def
  add_chunks_embedded_def set_counters_def

lemmas record_defs = record_payload_index_def record_strict_rejection_def mark_rechunk_def
  clear_stale_chunking_def record_schema_error_def clear_schema_error_def Let_def

text \<open>What \<open>finish_run\<close> does, by whether the guard is the current run's.\<close>

lemma finish_run_stale:
  assumes "\<And>cur. st_current s = Some cur \<Longrightarrow> cur_generation cur \<noteq> generation"
  shows "finish_run fmt unix tick generation error s = s"
  using assms by (auto simp: finish_run_def split: option.splits)

lemma finish_run_current:
  assumes "st_current s = Some cur" "cur_generation cur = generation"
  shows "st_current (finish_run fmt unix tick generation error s) = None"
    and "st_runs_total (finish_run fmt unix tick generation error s) = saturating_add (st_runs_total s) 1"
    and "st_runs_failed (finish_run fmt unix tick generation error s)
       = (if error = None then st_runs_failed s else saturating_add (st_runs_failed s) 1)"
  using assms by (auto simp: finish_run_def Let_def)

lemma finish_run_generation [simp]: "st_generation (finish_run fmt unix tick g e s) = st_generation s"
  by (auto simp: finish_run_def Let_def split: option.splits)

lemma finish_run_current_cases:
  "st_current (finish_run fmt unix tick g e s) =
     (case st_current s of None \<Rightarrow> None | Some cur \<Rightarrow> if cur_generation cur = g then None else Some cur)"
  by (auto simp: finish_run_def Let_def split: option.splits)

lemma guard_finish_armed: "guard_finish fmt unix tick g error s = finish_run fmt unix tick (rg_generation g) error s"
  by (simp add: guard_finish_def guard_drop_def)

definition run_inv :: "inner \<times> run_guard list \<Rightarrow> bool" where
  "run_inv sg \<longleftrightarrow> (\<forall>g\<in>set (snd sg). rg_armed g)
     \<and> (\<forall>cur. st_current (fst sg) = Some cur \<longrightarrow>
          cur_generation cur = st_generation (fst sg) \<and> guard_of (cur_generation cur) \<in> set (snd sg))"

lemma guard_eqI: "rg_armed g \<Longrightarrow> rg_generation g = n \<Longrightarrow> g = guard_of n"
  by (cases g) (simp add: guard_of_def)

lemma run_inv_retire:
  assumes "run_inv (s, gs)" "g \<in> set gs"
  shows "run_inv (finish_run fmt unix tick (rg_generation g) e s, remove1 g gs)"
proof -
  have armed: "\<forall>h\<in>set (remove1 g gs). rg_armed h"
    using assms(1) by (auto simp: run_inv_def dest: in_set_remove1 [THEN iffD1, rotated] notin_set_remove1 set_remove1_subset [THEN subsetD])
  have "cur_generation cur = st_generation s \<and> guard_of (cur_generation cur) \<in> set (remove1 g gs)"
    if "st_current s = Some cur" "cur_generation cur \<noteq> rg_generation g" for cur
  proof -
    have "guard_of (cur_generation cur) \<noteq> g" using that(2) by (auto simp: guard_of_def)
    then show ?thesis using assms(1) that(1) by (auto simp: run_inv_def)
  qed
  then show ?thesis
    using armed by (auto simp: run_inv_def finish_run_current_cases split: option.splits if_splits)
qed

lemma run_inv_step: "status_step fmt sg sg' \<Longrightarrow> run_inv sg \<Longrightarrow> run_inv sg'"
proof (induction rule: status_step.induct)
  case (StepBegin unix tick mode trig s generation s' gs)
  then show ?case by (auto simp: run_inv_def begin_run_def Let_def guard_of_def)
next
  case (StepFinish g gs s unix tick error)
  then show ?case by (simp add: guard_finish_armed run_inv_retire)
next
  case (StepDrop g gs s unix tick)
  then have "rg_armed g" by (simp add: run_inv_def)
  then show ?case using StepDrop by (simp add: guard_drop_def run_inv_retire)
qed (auto simp: run_inv_def set_defs record_defs)

lemma run_inv_reach: "status_reach fmt n sg \<Longrightarrow> run_inv sg"
  by (induction rule: status_reach.induct) (auto simp: run_inv_step, simp add: run_inv_def inner_default_def)

text \<open>While fewer than \<open>2 ^ 64\<close> runs have begun, generations are the numbers from 1 and never repeat.\<close>

definition fresh_inv :: "nat \<Rightarrow> inner \<times> run_guard list \<Rightarrow> bool" where
  "fresh_inv n sg \<longleftrightarrow> st_generation (fst sg) = of_nat n
     \<and> distinct (map rg_generation (snd sg))
     \<and> (\<forall>g\<in>set (snd sg). 0 < unat (rg_generation g) \<and> unat (rg_generation g) \<le> n)"

lemma fresh_inv_remove: "fresh_inv n (s, gs) \<Longrightarrow> fresh_inv n (finish_run fmt unix tick k e s, remove1 g gs)"
  using set_remove1_subset [of g gs]
  by (auto simp: fresh_inv_def distinct_map intro: inj_on_subset)

lemma unat_Suc_of_nat: "n + 1 < 2 ^ 64 \<Longrightarrow> unat (of_nat n + 1 :: u64) = n + 1"
proof -
  assume "n + 1 < 2 ^ 64"
  then have "unat (of_nat (n + 1) :: u64) = n + 1"
    by (simp add: unsigned_of_nat take_bit_nat_eq_self del: of_nat_add of_nat_Suc)
  then show ?thesis by (simp add: add.commute)
qed

lemma fresh_inv_begin:
  assumes "fresh_inv n (s, gs)" "n + 1 < 2 ^ 64" "begin_run unix tick mode trig s = (generation, s')"
  shows "fresh_inv (n + 1) (s', guard_of generation # gs)"
proof -
  have g: "generation = of_nat n + 1" "st_generation s' = of_nat n + 1"
    using assms(1,3) by (auto simp: begin_run_def Let_def fresh_inv_def)
  have u: "unat generation = n + 1" using unat_Suc_of_nat [OF assms(2)] g by simp
  have "rg_generation h \<noteq> generation" if "h \<in> set gs" for h
    using assms(1) that u by (auto simp: fresh_inv_def)
  then have d: "generation \<notin> rg_generation ` set gs" by blast
  have le: "\<forall>h\<in>set gs. 0 < unat (rg_generation h) \<and> unat (rg_generation h) \<le> n + 1"
    using assms(1) by (auto simp: fresh_inv_def)
  show ?thesis using assms(1) g d le u by (simp add: fresh_inv_def guard_of_def add.commute)
qed

lemma fresh_inv_reach: "status_reach fmt n sg \<Longrightarrow> n < 2 ^ 64 \<Longrightarrow> fresh_inv n sg"
proof (induction rule: status_reach.induct)
  case ReachInit
  then show ?case by (simp add: fresh_inv_def inner_default_def)
next
  case (ReachStep n sg sg')
  have run: "run_inv sg" using ReachStep.hyps(1) by (rule run_inv_reach)
  from ReachStep.hyps(2) show ?case
  proof cases
    case (StepBegin unix tick mode trig s generation s' gs)
    then show ?thesis using ReachStep fresh_inv_begin by auto
  next
    case (StepFinish g gs s unix tick error)
    then show ?thesis
      using ReachStep by (auto simp: guard_finish_armed length_remove1 fresh_inv_remove)
  next
    case (StepDrop g gs s unix tick)
    then have "rg_armed g" using run by (simp add: run_inv_def)
    then show ?thesis
      using StepDrop ReachStep by (auto simp: guard_drop_def length_remove1 fresh_inv_remove)
  qed (use ReachStep in \<open>auto simp: fresh_inv_def set_defs record_defs\<close>)
qed


section \<open>Query metrics\<close>

definition LATENCY_BUCKETS_MS :: "u64 list" where
  "LATENCY_BUCKETS_MS = [5, 10, 25, 50, 100, 250, 500, 1000, 2500, 5000, 10000]"

record latency_histogram =
  lh_buckets :: "u64 list"
  lh_count :: u64
  lh_sum_ms :: u64

definition histogram_new :: latency_histogram where
  "histogram_new = \<lparr>lh_buckets = replicate (length LATENCY_BUCKETS_MS + 1) 0, lh_count = 0, lh_sum_ms = 0\<rparr>"

text \<open>The position of the first bound the sample fits under, else the overflow slot.\<close>

definition bucket_index :: "u64 \<Rightarrow> nat" where
  "bucket_index ms = length (takeWhile (\<lambda>bound. \<not> ms \<le> bound) LATENCY_BUCKETS_MS)"

definition histogram_record :: "u64 \<Rightarrow> latency_histogram \<Rightarrow> latency_histogram" where
  "histogram_record ms h =
     (let idx = bucket_index ms in
      h\<lparr>lh_buckets := (lh_buckets h)[idx := lh_buckets h ! idx + 1],
        lh_count := lh_count h + 1,
        lh_sum_ms := lh_sum_ms h + ms\<rparr>)"

record histogram_snapshot =
  hs_bucket_bounds_ms :: "u64 list"
  hs_bucket_counts :: "u64 list"
  hs_count :: u64
  hs_sum_ms :: u64

fun running_sums :: "u64 \<Rightarrow> u64 list \<Rightarrow> u64 list" where
  "running_sums running [] = []"
| "running_sums running (b # bs) = (running + b) # running_sums (running + b) bs"

definition histogram_snapshot_of :: "latency_histogram \<Rightarrow> histogram_snapshot" where
  "histogram_snapshot_of h =
     \<lparr>hs_bucket_bounds_ms = LATENCY_BUCKETS_MS,
      hs_bucket_counts = running_sums 0 (lh_buckets h),
      hs_count = lh_count h, hs_sum_ms = lh_sum_ms h\<rparr>"

record retrieval_metrics =
  rm_queries_total :: u64
  rm_zero_result_total :: u64
  rm_rerank_attempted_total :: u64
  rm_rerank_failed_total :: u64
  rm_embed_latency_ms :: latency_histogram
  rm_qdrant_latency_ms :: latency_histogram
  rm_rerank_latency_ms :: latency_histogram

definition metrics_new :: retrieval_metrics where
  "metrics_new =
     \<lparr>rm_queries_total = 0, rm_zero_result_total = 0, rm_rerank_attempted_total = 0,
      rm_rerank_failed_total = 0, rm_embed_latency_ms = histogram_new,
      rm_qdrant_latency_ms = histogram_new, rm_rerank_latency_ms = histogram_new\<rparr>"

definition record_query ::
    "u64 \<Rightarrow> u64 \<Rightarrow> (u64 \<times> bool) option \<Rightarrow> nat \<Rightarrow> retrieval_metrics \<Rightarrow> retrieval_metrics" where
  "record_query embed_ms qdrant_ms rerank result_count m =
     (let m = m\<lparr>rm_queries_total := rm_queries_total m + 1\<rparr>;
          m = (if result_count = 0 then m\<lparr>rm_zero_result_total := rm_zero_result_total m + 1\<rparr> else m);
          m = m\<lparr>rm_embed_latency_ms := histogram_record embed_ms (rm_embed_latency_ms m)\<rparr>;
          m = m\<lparr>rm_qdrant_latency_ms := histogram_record qdrant_ms (rm_qdrant_latency_ms m)\<rparr>
      in case rerank of
           None \<Rightarrow> m
         | Some (rerank_ms, success) \<Rightarrow>
             let m = m\<lparr>rm_rerank_attempted_total := rm_rerank_attempted_total m + 1\<rparr>;
                 m = (if \<not> success then m\<lparr>rm_rerank_failed_total := rm_rerank_failed_total m + 1\<rparr> else m)
             in m\<lparr>rm_rerank_latency_ms := histogram_record rerank_ms (rm_rerank_latency_ms m)\<rparr>)"


lemma sorted_buckets: "sorted LATENCY_BUCKETS_MS"
  by (simp add: LATENCY_BUCKETS_MS_def)

lemma length_buckets [simp]: "length LATENCY_BUCKETS_MS = 11"
  by (simp add: LATENCY_BUCKETS_MS_def)

lemma takeWhile_le_iff:
  fixes m :: "'a::linorder"
  assumes "sorted L" "k < length L"
  shows "length (takeWhile (\<lambda>b. \<not> m \<le> b) L) \<le> k \<longleftrightarrow> m \<le> L ! k"
proof
  let ?w = "takeWhile (\<lambda>b. \<not> m \<le> b) L"
  assume le: "length ?w \<le> k"
  then have "length ?w < length L" using assms(2) by simp
  then have "m \<le> L ! length ?w" using nth_length_takeWhile by blast
  then show "m \<le> L ! k" using assms le by (meson dual_order.trans sorted_nth_mono)
next
  let ?w = "takeWhile (\<lambda>b. \<not> m \<le> b) L"
  assume "m \<le> L ! k"
  show "length ?w \<le> k"
  proof (rule ccontr)
    assume "\<not> length ?w \<le> k"
    then have "k < length ?w" by simp
    then have "?w ! k \<in> set ?w" "?w ! k = L ! k" by (simp only: nth_mem, simp only: takeWhile_nth)
    then have "\<not> m \<le> L ! k" by (metis set_takeWhileD)
    then show False using \<open>m \<le> L ! k\<close> by simp
  qed
qed

lemma bucket_index_le_iff: "k < 11 \<Longrightarrow> bucket_index m \<le> k \<longleftrightarrow> m \<le> LATENCY_BUCKETS_MS ! k"
  unfolding bucket_index_def by (rule takeWhile_le_iff) (simp_all add: sorted_buckets)

lemma bucket_index_le: "bucket_index m \<le> 11"
  unfolding bucket_index_def by (metis length_buckets length_takeWhile_le)

lemma length_running_sums [simp]: "length (running_sums r xs) = length xs"
  by (induction r xs rule: running_sums.induct) auto

lemma running_sums_nth: "k < length xs \<Longrightarrow> running_sums r xs ! k = r + sum_list (take (Suc k) xs)"
  by (induction r xs arbitrary: k rule: running_sums.induct) (auto simp: nth_Cons' add.assoc less_Suc_eq_0_disj)

text \<open>A histogram holds a list of samples when each slot counts the samples of its bucket.\<close>

definition holds :: "latency_histogram \<Rightarrow> u64 list \<Rightarrow> bool" where
  "holds h ms \<longleftrightarrow>
     lh_buckets h = map (\<lambda>k. of_nat (length (filter (\<lambda>m. bucket_index m = k) ms))) [0..<12]
     \<and> lh_count h = of_nat (length ms) \<and> lh_sum_ms h = sum_list ms"

lemma holds_new: "holds histogram_new []"
  by (simp add: holds_def histogram_new_def list_eq_iff_nth_eq)

lemma holds_record: "holds h ms \<Longrightarrow> holds (histogram_record m h) (ms @ [m])"
  using bucket_index_le [of m]
  by (auto simp: holds_def histogram_record_def Let_def list_eq_iff_nth_eq nth_list_update add.commute
      simp del: upt_Suc intro!: nth_equalityI)

lemma sum_of_counts:
  "sum_list (map (\<lambda>k. of_nat (length (filter (\<lambda>m. f m = k) ms)) :: u64) [0..<n])
     = of_nat (length (filter (\<lambda>m. f m < n) ms))"
proof (induction n)
  case (Suc n)
  have "length (filter (\<lambda>m. f m < Suc n) ms)
      = length (filter (\<lambda>m. f m < n) ms) + length (filter (\<lambda>m. f m = n) ms)"
    by (induction ms) (auto simp: less_Suc_eq)
  then show ?case using Suc by simp
qed simp

definition snapshot_of_samples :: "u64 list \<Rightarrow> histogram_snapshot" where
  "snapshot_of_samples ms =
     \<lparr>hs_bucket_bounds_ms = LATENCY_BUCKETS_MS,
      hs_bucket_counts = map (\<lambda>b. of_nat (length (filter (\<lambda>m. m \<le> b) ms))) LATENCY_BUCKETS_MS
        @ [of_nat (length ms)],
      hs_count = of_nat (length ms), hs_sum_ms = sum_list ms\<rparr>"

lemma holds_snapshot:
  assumes "holds h ms"
  shows "histogram_snapshot_of h = snapshot_of_samples ms"
proof -
  let ?c = "\<lambda>k. of_nat (length (filter (\<lambda>m. bucket_index m = k) ms)) :: u64"
  have b: "lh_buckets h = map ?c [0..<12]" using assms by (simp add: holds_def)
  have k: "running_sums 0 (lh_buckets h) ! k = of_nat (length (filter (\<lambda>m. bucket_index m < Suc k) ms))"
    if "k < 12" for k
  proof -
    have "take (Suc k) (lh_buckets h) = map ?c [0..<Suc k]"
      using that by (simp add: b take_map del: upt_Suc)
    then have "running_sums 0 (lh_buckets h) ! k = sum_list (map ?c [0..<Suc k])"
      using that running_sums_nth [of k "lh_buckets h" 0] by (simp add: b del: upt_Suc)
    then show ?thesis by (simp only: sum_of_counts)
  qed
  have "running_sums 0 (lh_buckets h)
      = map (\<lambda>b. of_nat (length (filter (\<lambda>m. m \<le> b) ms))) LATENCY_BUCKETS_MS @ [of_nat (length ms)]"
  proof (rule nth_equalityI)
    fix i assume "i < length (running_sums 0 (lh_buckets h))"
    then have i: "i < 12" by (simp add: b)
    show "running_sums 0 (lh_buckets h) ! i
      = (map (\<lambda>b. of_nat (length (filter (\<lambda>m. m \<le> b) ms))) LATENCY_BUCKETS_MS @ [of_nat (length ms)]) ! i"
    proof (cases "i < 11")
      case True
      then show ?thesis using k [OF i] by (simp add: nth_append less_Suc_eq_le bucket_index_le_iff)
    next
      case False
      then have "i = 11" using i by simp
      moreover have "bucket_index m < 12" for m using bucket_index_le [of m] by simp
      ultimately show ?thesis using k [OF i] by (simp add: nth_append)
    qed
  qed (simp add: b)
  then show ?thesis using assms by (simp add: holds_def histogram_snapshot_of_def snapshot_of_samples_def)
qed

text \<open>A recorded query: the four arguments of \<open>record_query\<close>.\<close>

type_synonym query_record = "u64 \<times> u64 \<times> (u64 \<times> bool) option \<times> nat"

definition record_queries :: "query_record list \<Rightarrow> retrieval_metrics" where
  "record_queries qs = foldl (\<lambda>m (e, q, r, n). record_query e q r n m) metrics_new qs"

definition rerank_samples :: "query_record list \<Rightarrow> (u64 \<times> bool) list" where
  "rerank_samples qs = concat (map (\<lambda>(e, q, r, n). case r of None \<Rightarrow> [] | Some s \<Rightarrow> [s]) qs)"

definition metrics_inv :: "retrieval_metrics \<Rightarrow> query_record list \<Rightarrow> bool" where
  "metrics_inv m qs \<longleftrightarrow>
     rm_queries_total m = of_nat (length qs)
     \<and> rm_zero_result_total m = of_nat (length (filter (\<lambda>(e, q, r, n). n = 0) qs))
     \<and> rm_rerank_attempted_total m = of_nat (length (rerank_samples qs))
     \<and> rm_rerank_failed_total m = of_nat (length (filter (\<lambda>s. \<not> snd s) (rerank_samples qs)))
     \<and> holds (rm_embed_latency_ms m) (map fst qs)
     \<and> holds (rm_qdrant_latency_ms m) (map (fst \<circ> snd) qs)
     \<and> holds (rm_rerank_latency_ms m) (map fst (rerank_samples qs))"

lemma metrics_inv_record:
  "metrics_inv m qs \<Longrightarrow> metrics_inv (record_query e q r n m) (qs @ [(e, q, r, n)])"
  by (cases r)
    (auto simp: metrics_inv_def record_query_def Let_def rerank_samples_def holds_record add.commute)

lemma record_queries_inv: "metrics_inv (record_queries qs) qs"
proof (induction qs rule: rev_induct)
  case Nil
  then show ?case by (simp add: metrics_inv_def record_queries_def metrics_new_def rerank_samples_def holds_new)
next
  case (snoc x xs)
  obtain e q r n where "x = (e, q, r, n)" by (cases x) auto
  then show ?case using metrics_inv_record [OF snoc] by (simp add: record_queries_def)
qed

section \<open>Properties\<close>

text \<open>
  C20. The "indexing" flag is honest: whenever a run is recorded as in flight, an armed guard for it
  exists and has not been dropped, and dropping that guard (a panic or a cancelled future does) takes
  the record down. So no run stays in flight after the work it describes is gone.
\<close>

theorem in_flight_run_has_live_guard:
  assumes "status_reach fmt n (s, gs)" "st_current s = Some cur"
  shows "\<exists>g\<in>set gs. rg_armed g \<and> rg_generation g = cur_generation cur
           \<and> st_current (guard_drop fmt unix tick g s) = None"
proof -
  have g: "guard_of (cur_generation cur) \<in> set gs"
    using run_inv_reach [OF assms(1)] assms(2) by (auto simp: run_inv_def)
  have "st_current (guard_drop fmt unix tick (guard_of (cur_generation cur)) s) = None"
    using assms(2) by (simp add: guard_drop_def guard_of_def finish_run_current)
  then show ?thesis using g by (intro bexI [of _ "guard_of (cur_generation cur)"]) (simp_all add: guard_of_def)
qed

definition demo_begun :: inner where
  "demo_begun = snd (begin_run 0 0 Full Worker inner_default)"

lemma demo_begun_reach: "status_reach fmt 1 (demo_begun, [guard_of 1])"
proof -
  have b: "begin_run 0 0 Full Worker inner_default = (1, demo_begun)"
    by (simp add: demo_begun_def begin_run_def Let_def inner_default_def)
  from ReachStep [OF ReachInit StepBegin [OF b], of fmt] show ?thesis by simp
qed

lemma demo_begun_current: "\<exists>cur. st_current demo_begun = Some cur \<and> cur_generation cur = 1"
  by (simp add: demo_begun_def begin_run_def Let_def inner_default_def)

lemma in_flight_run_has_live_guard_witness:
  "\<exists>g\<in>set [guard_of 1]. st_current (guard_drop (\<lambda>_. []) 5 9 g demo_begun) = None"
proof -
  obtain cur where "st_current demo_begun = Some cur" using demo_begun_current by blast
  from in_flight_run_has_live_guard [OF demo_begun_reach this] show ?thesis by blast
qed

text \<open>
  C21. A guard retires only its own run: after a later run has begun, finishing or dropping any older
  guard leaves the status exactly as it was, as long as fewer than \<open>2 ^ 64\<close> runs have begun.
\<close>

theorem late_guard_cannot_cancel:
  assumes "status_reach fmt n (s, gs)" "n + 1 < 2 ^ 64"
    and "begin_run unix tick mode trig s = (generation, s')" "g \<in> set gs"
  shows "guard_finish fmt unix' tick' g error s' = s' \<and> guard_drop fmt unix' tick' g s' = s'"
proof -
  have "fresh_inv (n + 1) (s', guard_of generation # gs)"
    using fresh_inv_begin [OF fresh_inv_reach [OF assms(1)] assms(2,3)] assms(2) by simp
  then have "rg_generation g \<noteq> generation" using assms(4) by (auto simp: fresh_inv_def guard_of_def)
  moreover have "cur_generation cur = generation" if "st_current s' = Some cur" for cur
    using assms(3) that by (auto simp: begin_run_def Let_def)
  ultimately have "finish_run fmt unix' tick' (rg_generation g) e s' = s'" for e
    by (intro finish_run_stale) auto
  then show ?thesis by (simp add: guard_finish_armed guard_drop_def)
qed

lemma late_guard_cannot_cancel_witness:
  "guard_drop (\<lambda>_. []) 5 9 (guard_of 1) (snd (begin_run 3 4 Incremental Cli demo_begun))
     = snd (begin_run 3 4 Incremental Cli demo_begun)"
proof -
  have "begin_run 3 4 Incremental Cli demo_begun
      = (fst (begin_run 3 4 Incremental Cli demo_begun), snd (begin_run 3 4 Incremental Cli demo_begun))" by simp
  from late_guard_cannot_cancel [OF demo_begun_reach _ this] show ?thesis by simp
qed

text \<open>
  The query metrics count exactly the recorded queries: after any sequence of \<open>record_query\<close>
  calls the totals are the numbers of queries, of empty results, of attempted and of failed reranks
  (modulo the 64-bit width), and each histogram's snapshot is the cumulative count of its samples at
  or below every bound, the last bucket equal to the count.
\<close>

theorem metrics_count_queries:
  "rm_queries_total (record_queries qs) = of_nat (length qs)
   \<and> rm_zero_result_total (record_queries qs) = of_nat (length (filter (\<lambda>(e, q, r, n). n = 0) qs))
   \<and> rm_rerank_attempted_total (record_queries qs) = of_nat (length (rerank_samples qs))
   \<and> rm_rerank_failed_total (record_queries qs) = of_nat (length (filter (\<lambda>s. \<not> snd s) (rerank_samples qs)))
   \<and> histogram_snapshot_of (rm_embed_latency_ms (record_queries qs)) = snapshot_of_samples (map fst qs)
   \<and> histogram_snapshot_of (rm_qdrant_latency_ms (record_queries qs))
       = snapshot_of_samples (map (fst \<circ> snd) qs)
   \<and> histogram_snapshot_of (rm_rerank_latency_ms (record_queries qs))
       = snapshot_of_samples (map fst (rerank_samples qs))"
  using record_queries_inv [of qs] by (auto simp: metrics_inv_def intro: holds_snapshot)

end
