(* ===== verification/Paths.thy ===== *)
theory Paths
  imports Prelude "HOL-Library.Char_ord" "HOL-Library.List_Lexorder"
begin

text \<open>
  Paths of the knowledge base: the relative-path algebra of \<open>src/src/ingest.rs\<close> (resolving and
  writing markdown link paths, the ancestor list of the path filter), the include/exclude filter and
  the directory walk of the indexer, the symlink-refusing \<open>inspect_kb_path\<close>, and the schema tree's
  directory filter of \<open>src/src/schema.rs\<close>.

  A file tree is a value of type \<open>node\<close>: directories list their entries, a symbolic link has a target,
  a locked directory refuses every lookup. What the operating system finds behind a symbolic link is
  the parameter \<open>follow\<close>. The glob library is the record \<open>globs\<close>: which patterns compile, whether a
  set of them builds, and what a compiled pattern matches.
\<close>

section \<open>Path strings\<close>

abbreviation slash :: char where "slash \<equiv> CHR ''/''"

text \<open>\<open>Path::components\<close> of a Unix path: a leading separator is the root, repeated separators and
  \<open>.\<close> components vanish except a \<open>.\<close> at the very start.\<close>

datatype path_component = RootDir | CurDir | ParentDir | Normal string

definition component_of :: "string \<Rightarrow> path_component" where
  "component_of c = (if c = ''..'' then ParentDir else Normal c)"

definition components :: "string \<Rightarrow> path_component list" where
  "components p =
     (let parts = split_on slash p;
          lead = (if starts_with p [slash] then [RootDir] else if hd parts = ''.'' then [CurDir] else [])
      in lead @ map component_of (filter (\<lambda>c. c \<noteq> [] \<and> c \<noteq> ''.'') parts))"

definition file_name :: "string \<Rightarrow> string option" where
  "file_name p =
     (case rev (components p) of Normal n # _ \<Rightarrow> Some n | _ \<Rightarrow> None)"

text \<open>The components of the directory a path names an entry of (\<open>Path::parent\<close>, empty when none).\<close>

definition parent_components :: "string \<Rightarrow> path_component list" where
  "parent_components p = butlast (components p)"

fun component_str :: "path_component \<Rightarrow> string" where
  "component_str RootDir = [slash]"
| "component_str CurDir = ''.''"
| "component_str ParentDir = ''..''"
| "component_str (Normal n) = n"

definition path_join :: "string \<Rightarrow> string \<Rightarrow> string" where
  "path_join a b = (if a = [] \<or> ends_with a [slash] then a @ b else a @ [slash] @ b)"

definition path_of :: "path_component list \<Rightarrow> string" where
  "path_of cs = foldl (\<lambda>p c. path_join p (component_str c)) [] cs"

section \<open>Relative markdown paths\<close>

definition source_dir :: "string \<Rightarrow> string list" where
  "source_dir source_rel_path = filter (\<lambda>c. c \<noteq> []) (butlast (split_on slash source_rel_path))"

fun resolve_components :: "string list \<Rightarrow> string list \<Rightarrow> string list option" where
  "resolve_components stack [] = Some stack"
| "resolve_components stack (part # parts) =
     (if part = [] \<or> part = ''.'' then resolve_components stack parts
      else if part = ''..''
      then (if stack = [] then None else resolve_components (butlast stack) parts)
      else resolve_components (stack @ [part]) parts)"

definition resolve_relative_md_path :: "string \<Rightarrow> string \<Rightarrow> string option" where
  "resolve_relative_md_path target source_rel_path =
     (case resolve_components (source_dir source_rel_path) (split_on slash target) of
        None \<Rightarrow> None
      | Some stack \<Rightarrow> if stack = [] then None else Some (join [slash] stack))"

fun common_len :: "string list \<Rightarrow> string list \<Rightarrow> nat" where
  "common_len (a # as) (b # bs) = (if a = b then Suc (common_len as bs) else 0)"
| "common_len _ _ = 0"

definition relativize_md_path :: "string \<Rightarrow> string \<Rightarrow> string" where
  "relativize_md_path source_rel_path target_rel_path =
     (let sdir = source_dir source_rel_path;
          target_components = filter (\<lambda>c. c \<noteq> []) (split_on slash target_rel_path);
          target_dir = take (length target_components - 1) target_components;
          common = common_len sdir target_dir;
          climbs = length sdir - common
      in join [slash] (replicate climbs ''..'' @ drop common target_components))"

definition kb_root_relative :: "string \<Rightarrow> string" where
  "kb_root_relative raw = dropWhile (\<lambda>c. c = slash) raw"

text \<open>\<open>derive_path_ancestors\<close>: the accumulator is the path built so far and the list.\<close>

definition ancestor_step :: "string \<times> string list \<Rightarrow> path_component \<Rightarrow> string \<times> string list" where
  "ancestor_step st component =
     (case (st, component) of
        ((built, ancestors), Normal name) \<Rightarrow>
          let built = (if built \<noteq> [] then built @ [slash] else built) @ name
          in (built, ancestors @ [built])
      | _ \<Rightarrow> st)"

definition derive_path_ancestors :: "string \<Rightarrow> string list" where
  "derive_path_ancestors rel_path = snd (foldl ancestor_step ([], []) (components rel_path))"

section \<open>The include/exclude filter\<close>

record globs =
  glob_valid :: "string \<Rightarrow> bool"
  set_builds :: "string list \<Rightarrow> bool"
  glob_matches :: "string \<Rightarrow> string \<Rightarrow> bool"

record indexing_config =
  ic_include :: "string list"
  ic_exclude :: "string list"
  ic_exclude_files :: "string list"

definition parse_globs :: "globs \<Rightarrow> string list \<Rightarrow> string list \<times> nat" where
  "parse_globs lib patterns =
     (let valid = filter (glob_valid lib) patterns in (valid, length valid))"

definition build_globset :: "globs \<Rightarrow> string list \<Rightarrow> (string, string list) outcome" where
  "build_globset lib patterns =
     (let builder = fst (parse_globs lib patterns) in
      if set_builds lib builder then Ok builder else Err ''glob set'')"

definition set_matches :: "globs \<Rightarrow> string list \<Rightarrow> string \<Rightarrow> bool" where
  "set_matches lib patterns path = list_ex (\<lambda>g. glob_matches lib g path) patterns"

record path_filter =
  pf_include_set :: "string list"
  pf_exclude_set :: "string list option"
  pf_exclude_filenames :: "string set"

definition path_filter_from_config :: "globs \<Rightarrow> indexing_config \<Rightarrow> (string, path_filter) outcome" where
  "path_filter_from_config lib indexing =
     bind_outcome (map_err (\<lambda>e. ''Failed to build include '' @ e) (build_globset lib (ic_include indexing)))
       (\<lambda>include_set.
     bind_outcome
       (if ic_exclude indexing = [] then Ok None
        else bind_outcome (map_err (\<lambda>e. ''Failed to build exclude '' @ e)
               (build_globset lib (ic_exclude indexing))) (\<lambda>s. Ok (Some s)))
       (\<lambda>exclude_set.
     Ok \<lparr>pf_include_set = include_set, pf_exclude_set = exclude_set,
         pf_exclude_filenames = set (ic_exclude_files indexing)\<rparr>))"

definition is_indexable :: "globs \<Rightarrow> path_filter \<Rightarrow> string \<Rightarrow> bool" where
  "is_indexable lib f rel_path =
     (if (case file_name rel_path of Some n \<Rightarrow> n \<in> pf_exclude_filenames f | None \<Rightarrow> False) then False
      else if \<not> set_matches lib (pf_include_set f) rel_path then False
      else if (case pf_exclude_set f of Some excl \<Rightarrow> set_matches lib excl rel_path | None \<Rightarrow> False) then False
      else True)"

definition PROBE :: string where
  "PROBE = ''__kb_dir_probe__''"

definition excludes_dir :: "globs \<Rightarrow> path_filter \<Rightarrow> string \<Rightarrow> bool" where
  "excludes_dir lib f rel_dir =
     (case pf_exclude_set f of
        None \<Rightarrow> False
      | Some excl \<Rightarrow>
          set_matches lib excl (path_join rel_dir (PROBE @ ''.md''))
          \<and> set_matches lib excl (path_join (path_join rel_dir PROBE) (PROBE @ ''.md'')))"

fun exclusion_purge_filter :: "(string, path_filter) outcome \<Rightarrow> nat \<Rightarrow> path_filter option" where
  "exclusion_purge_filter (Ok f) valid_includes = (if valid_includes = 0 then None else Some f)"
| "exclusion_purge_filter _ valid_includes = None"

definition for_exclusion_purge :: "globs \<Rightarrow> indexing_config \<Rightarrow> path_filter option" where
  "for_exclusion_purge lib indexing =
     exclusion_purge_filter (path_filter_from_config lib indexing)
       (length (filter (glob_valid lib) (ic_include indexing)))"

definition partition_indexable ::
    "globs \<Rightarrow> indexing_config \<Rightarrow> string list \<Rightarrow> string list \<times> string list" where
  "partition_indexable lib indexing paths =
     (case path_filter_from_config lib indexing of
        Ok f \<Rightarrow> partition (is_indexable lib f) paths
      | _ \<Rightarrow> (paths, []))"

section \<open>Schema files\<close>

definition SCHEMA_FILE_NAMES :: "string list" where
  "SCHEMA_FILE_NAMES = [''.schema.yaml'', ''.kb-schema.yaml'']"

definition is_schema_file_path :: "string \<Rightarrow> bool" where
  "is_schema_file_path rel_path =
     (case file_name rel_path of None \<Rightarrow> False | Some n \<Rightarrow> n \<in> set SCHEMA_FILE_NAMES)"

text \<open>\<open>SchemaWalkFilter\<close>: the path filter, or None when it could not be built.\<close>

definition schema_walk_from_config :: "globs \<Rightarrow> indexing_config \<Rightarrow> path_filter option" where
  "schema_walk_from_config lib indexing =
     (case path_filter_from_config lib indexing of Ok f \<Rightarrow> Some f | _ \<Rightarrow> None)"

definition reads_dir :: "globs \<Rightarrow> path_filter option \<Rightarrow> path_component list \<Rightarrow> bool" where
  "reads_dir lib walk rel_dir =
     (if list_ex (\<lambda>c. starts_with (component_str c) ''.'') rel_dir then False
      else if path_of rel_dir = [] then True
      else \<not> (case walk of None \<Rightarrow> False | Some f \<Rightarrow> excludes_dir lib f (path_of rel_dir)))"

definition governs :: "globs \<Rightarrow> path_filter option \<Rightarrow> string \<Rightarrow> bool" where
  "governs lib walk rel_path \<longleftrightarrow>
     is_schema_file_path rel_path \<and> reads_dir lib walk (parent_components rel_path)"

section \<open>File trees\<close>

datatype node =
    FileNode
  | DirNode "(string \<times> node) list"
  | LockedDir
  | SymlinkNode string
  | SpecialNode

text \<open>What \<open>symlink_metadata\<close> reports.\<close>

datatype stat = IsFile | IsDir | IsSymlink | IsOther | NotFound | NotADirectory | StatFailed

fun node_stat :: "node \<Rightarrow> stat" where
  "node_stat FileNode = IsFile"
| "node_stat (DirNode es) = IsDir"
| "node_stat LockedDir = IsDir"
| "node_stat (SymlinkNode t) = IsSymlink"
| "node_stat SpecialNode = IsOther"

text \<open>
  \<open>lstat follow root names\<close> is the operating system's answer for the path \<open>root/names\<close>: the last
  component is not followed, an earlier symbolic link is, to whatever \<open>follow\<close> says is there.
\<close>

fun lstat :: "(string \<Rightarrow> string list \<Rightarrow> stat) \<Rightarrow> node \<Rightarrow> string list \<Rightarrow> stat" where
  "lstat follow n [] = node_stat n"
| "lstat follow (DirNode es) (c # cs) =
     (case map_of es c of None \<Rightarrow> NotFound | Some m \<Rightarrow> lstat follow m cs)"
| "lstat follow LockedDir (c # cs) = StatFailed"
| "lstat follow (SymlinkNode t) (c # cs) = follow t (c # cs)"
| "lstat follow FileNode (c # cs) = NotADirectory"
| "lstat follow SpecialNode (c # cs) = NotADirectory"

section \<open>Inspecting a path without following a link\<close>

datatype kb_entry = Missing | File | Dir | Other

datatype kb_path_error = NotRelative | GitDir | Symlink | Io

definition ascii_lower :: "char \<Rightarrow> char" where
  "ascii_lower b = (if 65 \<le> byte_val b \<and> byte_val b \<le> 90 then char_of (byte_val b + 32) else b)"

definition eq_ignore_ascii_case :: "string \<Rightarrow> string \<Rightarrow> bool" where
  "eq_ignore_ascii_case a b \<longleftrightarrow> map ascii_lower a = map ascii_lower b"

definition is_git_component :: "string \<Rightarrow> bool" where
  "is_git_component name = eq_ignore_ascii_case name ''.git''"

fun collect_names :: "path_component list \<Rightarrow> (kb_path_error, string list) outcome" where
  "collect_names [] = Ok []"
| "collect_names (CurDir # cs) = collect_names cs"
| "collect_names (Normal name # cs) =
     (if is_git_component name then Err GitDir
      else bind_outcome (collect_names cs) (\<lambda>names. Ok (name # names)))"
| "collect_names (RootDir # cs) = Err NotRelative"
| "collect_names (ParentDir # cs) = Err NotRelative"

text \<open>The loop over the collected names; the first list holds the components already checked.\<close>

fun inspect_names ::
    "(string list \<Rightarrow> stat) \<Rightarrow> string list \<Rightarrow> string list \<Rightarrow> (kb_path_error, kb_entry) outcome" where
  "inspect_names stat current [] = Ok Dir"
| "inspect_names stat current (name # names) =
     (let current = current @ [name]; is_leaf = (names = []) in
      case stat current of
        NotFound \<Rightarrow> Ok Missing
      | NotADirectory \<Rightarrow> Ok Missing
      | StatFailed \<Rightarrow> Err Io
      | IsSymlink \<Rightarrow> Err Symlink
      | IsDir \<Rightarrow> if \<not> is_leaf then inspect_names stat current names else Ok Dir
      | IsFile \<Rightarrow> if \<not> is_leaf then Ok Missing else Ok File
      | IsOther \<Rightarrow> if \<not> is_leaf then Ok Missing else Ok Other)"

definition inspect_kb_path ::
    "(string \<Rightarrow> string list \<Rightarrow> stat) \<Rightarrow> node \<Rightarrow> string \<Rightarrow> (kb_path_error, kb_entry) outcome" where
  "inspect_kb_path follow root rel =
     bind_outcome (collect_names (components rel)) (inspect_names (lstat follow root) [])"

section \<open>The directory walk\<close>

text \<open>
  \<open>walk_dir\<close> over a tree; a path is the list of names below the root. \<open>keep\<close> is the filter
  (\<open>is_indexable\<close> of the relative path, or everything in the unfiltered walk).
\<close>

fun walk_dir :: "(string list \<Rightarrow> bool) \<Rightarrow> string list \<Rightarrow> node \<Rightarrow> (string, string list list) outcome"
  and walk_entries ::
    "(string list \<Rightarrow> bool) \<Rightarrow> string list \<Rightarrow> (string \<times> node) list \<Rightarrow> (string, string list list) outcome" where
  "walk_dir keep path (DirNode es) = walk_entries keep path es"
| "walk_dir keep path _ = Err ''Failed to read directory''"
| "walk_entries keep path [] = Ok []"
| "walk_entries keep path ((name, n) # es) =
     (if is_git_component name then walk_entries keep path es
      else case n of
        SymlinkNode t \<Rightarrow> walk_entries keep path es
      | SpecialNode \<Rightarrow> walk_entries keep path es
      | FileNode \<Rightarrow>
          bind_outcome (walk_entries keep path es) (\<lambda>rest.
            Ok (if keep (path @ [name]) then (path @ [name]) # rest else rest))
      | _ \<Rightarrow>
          bind_outcome (walk_dir keep (path @ [name]) n) (\<lambda>below.
          bind_outcome (walk_entries keep path es) (\<lambda>rest. Ok (below @ rest))))"

definition discover_files ::
    "globs \<Rightarrow> indexing_config \<Rightarrow> node \<Rightarrow> (string, string list list) outcome" where
  "discover_files lib indexing root =
     bind_outcome (path_filter_from_config lib indexing) (\<lambda>f.
     bind_outcome (walk_dir (\<lambda>p. is_indexable lib f (join [slash] p)) [] root) (\<lambda>matched.
     Ok (sort matched)))"

definition walk_dir_unfiltered :: "node \<Rightarrow> (string, string list list) outcome" where
  "walk_dir_unfiltered root = walk_dir (\<lambda>_. True) [] root"


section \<open>Names and normal paths\<close>

definition valid_name :: "string \<Rightarrow> bool" where
  "valid_name c \<longleftrightarrow> c \<noteq> [] \<and> c \<noteq> ''.'' \<and> c \<noteq> ''..'' \<and> slash \<notin> set c"

text \<open>A normalised relative path: what stripping the root from a canonical path leaves.\<close>

definition normal_path :: "string \<Rightarrow> bool" where
  "normal_path p \<longleftrightarrow> list_all valid_name (split_on slash p)"

lemma valid_nameD: "valid_name c \<Longrightarrow> c \<noteq> [] \<and> c \<noteq> ''.'' \<and> c \<noteq> ''..'' \<and> slash \<notin> set c"
  by (simp add: valid_name_def)

lemma filter_valid: "list_all valid_name cs \<Longrightarrow> filter (\<lambda>c. c \<noteq> []) cs = cs"
  by (induction cs) (auto simp: valid_name_def)

lemma components_join:
  assumes "list_all valid_name cs"
  shows "components (join [slash] cs) = map Normal cs"
proof (cases cs)
  case Nil
  then show ?thesis by (simp add: components_def)
next
  case (Cons c ds)
  have c: "valid_name c" using assms Cons by simp
  have sp: "split_on slash (join [slash] cs) = cs"
    using assms Cons by (intro split_on_join) (auto simp: valid_name_def list_all_iff)
  have "\<not> starts_with (join [slash] cs) [slash]"
  proof
    assume "starts_with (join [slash] cs) [slash]"
    then have "hd (split_on slash (join [slash] cs)) = []" by (auto simp: starts_with_iff)
    then show False using sp Cons c by (simp add: valid_name_def)
  qed
  moreover have "filter (\<lambda>c. c \<noteq> [] \<and> c \<noteq> ''.'') cs = cs" "map component_of cs = map Normal cs"
    using assms by (induction cs) (auto simp: valid_name_def component_of_def)
  ultimately show ?thesis using sp Cons c by (simp add: components_def valid_name_def)
qed

lemma normal_pathE:
  assumes "normal_path p"
  obtains cs where "cs \<noteq> []" "list_all valid_name cs" "p = join [slash] cs" "split_on slash p = cs"
  using assms that [of "split_on slash p"] by (simp add: normal_path_def join_split_on)

section \<open>Links resolve back to their target\<close>

lemma common_len_le: "common_len as bs \<le> length as \<and> common_len as bs \<le> length bs"
  by (induction as bs rule: common_len.induct) auto

lemma take_common_len: "take (common_len as bs) as = take (common_len as bs) bs"
  by (induction as bs rule: common_len.induct) auto

lemma resolve_climb:
  "k \<le> length stack \<Longrightarrow>
   resolve_components stack (replicate k ''..'' @ parts) = resolve_components (take (length stack - k) stack) parts"
proof (induction k arbitrary: stack)
  case (Suc k)
  then have "stack \<noteq> []" by auto
  then show ?case using Suc.IH [of "butlast stack"] Suc.prems by (simp add: take_butlast)
qed simp

lemma resolve_valid: "list_all valid_name parts \<Longrightarrow> resolve_components stack parts = Some (stack @ parts)"
  by (induction parts arbitrary: stack) (auto simp: valid_name_def)

lemma resolve_components_valid:
  "resolve_components stack parts = Some r \<Longrightarrow> list_all valid_name stack \<Longrightarrow>
   \<forall>c\<in>set parts. slash \<notin> set c \<Longrightarrow> list_all valid_name r"
proof (induction stack parts rule: resolve_components.induct)
  case (2 stack part parts)
  have b: "list_all valid_name (butlast stack)"
    using "2.prems"(2) by (auto simp: list_all_iff dest: in_set_butlastD)
  consider "part = [] \<or> part = ''.''" | "part = ''..''" "stack \<noteq> []"
    | "part \<noteq> []" "part \<noteq> ''.''" "part \<noteq> ''..''"
    using "2.prems"(1) by (force split: if_splits)
  then show ?case
  proof cases
    case 1
    then show ?thesis using 2 by simp
  next
    case 2
    then show ?thesis using "2.IH"(2) "2.prems" b by simp
  next
    case 3
    then have "valid_name part" using "2.prems"(3) by (simp add: valid_name_def)
    then have "list_all valid_name (stack @ [part])" using "2.prems"(2) by simp
    then show ?thesis using "2.IH"(3) "2.prems" 3 by simp
  qed
qed simp

lemma source_dir_valid: "normal_path source \<Longrightarrow> list_all valid_name (source_dir source)"
  by (auto simp: source_dir_def normal_path_def list_all_iff dest: in_set_butlastD)

lemma join_snoc: "join sep (cs @ [c]) = (if cs = [] then c else join sep cs @ sep @ c)"
  by (induction cs rule: induct_list012) auto

lemma join_eq_Nil: "list_all valid_name cs \<Longrightarrow> join sep cs = [] \<longleftrightarrow> cs = []"
  by (cases cs; cases "tl cs") (auto simp: valid_name_def)

section \<open>The ancestor list\<close>

lemma ancestor_step_join:
  assumes "list_all valid_name pre"
  shows "ancestor_step (join [slash] pre, acc) (Normal c)
    = (join [slash] (pre @ [c]), acc @ [join [slash] (pre @ [c])])"
  using assms by (simp add: ancestor_step_def Let_def join_snoc join_eq_Nil)

lemma ancestors_fold:
  "list_all valid_name (pre @ cs) \<Longrightarrow>
   snd (foldl ancestor_step (join [slash] pre, acc) (map Normal cs))
     = acc @ map (\<lambda>k. join [slash] (pre @ take (Suc k) cs)) [0..<length cs]"
proof (induction cs arbitrary: pre acc)
  case (Cons c cs)
  have "map (\<lambda>k. join [slash] (pre @ take (Suc k) (c # cs))) [0..<length (c # cs)]
      = join [slash] (pre @ [c]) # map (\<lambda>k. join [slash] ((pre @ [c]) @ take (Suc k) cs)) [0..<length cs]"
    by (simp add: upt_conv_Cons map_Suc_upt [symmetric] del: upt_Suc)
  then show ?case
    using Cons.IH [of "pre @ [c]"] Cons.prems by (simp add: ancestor_step_join)
qed simp

lemma derive_path_ancestors_join:
  assumes "list_all valid_name cs"
  shows "derive_path_ancestors (join [slash] cs) = map (\<lambda>k. join [slash] (take (Suc k) cs)) [0..<length cs]"
  using ancestors_fold [of "[]" cs "[]"] assms by (simp add: derive_path_ancestors_def components_join)

lemma split_on_concat: "split_on c (p @ c # r) = split_on c p @ split_on c r"
proof (induction p)
  case (Cons b p)
  then show ?case using split_on_not_Nil [of c p] by (cases "split_on c p") auto
qed simp

text \<open>
  The prefixes of a normal path that end at a separator are the joins of its leading components.
\<close>

lemma prefix_at_slash:
  assumes "cs \<noteq> []" "list_all valid_name cs"
  shows "(\<exists>r. join [slash] cs = q @ [slash] @ r) \<longleftrightarrow> (\<exists>k. 0 < k \<and> k < length cs \<and> q = join [slash] (take k cs))"
proof
  have sp: "split_on slash (join [slash] cs) = cs"
    using assms by (intro split_on_join) (auto simp: valid_name_def list_all_iff)
  assume "\<exists>r. join [slash] cs = q @ [slash] @ r"
  then obtain r where r: "join [slash] cs = q @ slash # r" by auto
  then have c: "cs = split_on slash q @ split_on slash r" using sp split_on_concat by metis
  then have "take (length (split_on slash q)) cs = split_on slash q" by simp
  then have "q = join [slash] (take (length (split_on slash q)) cs)" by (simp add: join_split_on)
  moreover have "0 < length (split_on slash q)" by simp
  moreover have "length (split_on slash q) < length cs" by (subst c) simp
  ultimately show "\<exists>k. 0 < k \<and> k < length cs \<and> q = join [slash] (take k cs)" by blast
next
  assume "\<exists>k. 0 < k \<and> k < length cs \<and> q = join [slash] (take k cs)"
  then obtain k where k: "0 < k" "k < length cs" "q = join [slash] (take k cs)" by blast
  have app: "as \<noteq> [] \<Longrightarrow> bs \<noteq> [] \<Longrightarrow> join sep (as @ bs) = join sep as @ sep @ join sep bs" for sep as bs
  proof (induction as rule: induct_list012)
    case (2 a)
    then show ?case by (cases bs) auto
  qed auto
  have "join [slash] (take k cs @ drop k cs) = q @ [slash] @ join [slash] (drop k cs)"
    using k assms(1) app [of "take k cs" "drop k cs" "[slash]"] by simp
  then show "\<exists>r. join [slash] cs = q @ [slash] @ r" by auto
qed

section \<open>Real files\<close>

text \<open>The node at a path of names, through real directories only.\<close>

fun real_at :: "node \<Rightarrow> string list \<Rightarrow> node option" where
  "real_at n [] = Some n"
| "real_at (DirNode es) (c # cs) = (case map_of es c of None \<Rightarrow> None | Some m \<Rightarrow> real_at m cs)"
| "real_at _ (c # cs) = None"

lemma lstat_real: "real_at n cs = Some m \<Longrightarrow> lstat follow n cs = node_stat m"
  by (induction n cs rule: real_at.induct) (auto split: option.splits)

lemma real_at_append: "real_at n (xs @ ys) = (case real_at n xs of None \<Rightarrow> None | Some m \<Rightarrow> real_at m ys)"
  by (induction n xs rule: real_at.induct) (auto split: option.splits; cases ys; simp)+


text \<open>The answer read off the tree, without asking what is behind a symbolic link.\<close>

fun inspect_tree :: "node \<Rightarrow> string list \<Rightarrow> (kb_path_error, kb_entry) outcome" where
  "inspect_tree n [] = Ok Dir"
| "inspect_tree (DirNode es) (c # cs) =
     (case map_of es c of
        None \<Rightarrow> Ok Missing
      | Some (SymlinkNode t) \<Rightarrow> Err Symlink
      | Some FileNode \<Rightarrow> if cs = [] then Ok File else Ok Missing
      | Some SpecialNode \<Rightarrow> if cs = [] then Ok Other else Ok Missing
      | Some m \<Rightarrow> inspect_tree m cs)"
| "inspect_tree LockedDir (c # cs) = Err Io"
| "inspect_tree _ (c # cs) = Ok Missing"

lemma inspect_names_tree:
  "real_at root pre = Some n \<Longrightarrow> node_stat n \<noteq> IsSymlink \<Longrightarrow>
   inspect_names (lstat follow root) pre names = inspect_tree n names"
proof (induction names arbitrary: pre n)
  case (Cons name names)
  have stat: "lstat follow root (pre @ [name]) = lstat follow n [name]"
    using Cons.prems(1) by (induction root pre rule: real_at.induct) (auto split: option.splits)
  show ?case
  proof (cases n)
    case (DirNode es)
    show ?thesis
    proof (cases "map_of es name")
      case (Some m)
      have "real_at root (pre @ [name]) = Some m"
        using Cons.prems(1) DirNode Some by (simp add: real_at_append)
      then show ?thesis
        using Cons.IH [of "pre @ [name]" m] stat DirNode Some by (cases m; cases names) auto
    qed (simp add: stat DirNode)
  qed (use stat Cons.prems in auto)
qed simp

lemma inspect_tree_File: "inspect_tree n cs = Ok File \<longleftrightarrow> cs \<noteq> [] \<and> real_at n cs = Some FileNode"
proof (induction n cs rule: inspect_tree.induct)
  case (2 es c cs)
  show ?case
  proof (cases "map_of es c")
    case (Some m)
    then show ?thesis using 2 by (cases m; cases cs) auto
  qed simp
qed auto

lemma collect_names_Normal:
  "collect_names (map Normal cs) = (if list_ex is_git_component cs then Err GitDir else Ok cs)"
  by (induction cs) auto

fun wf_node :: "node \<Rightarrow> bool" where
  "wf_node (DirNode es) \<longleftrightarrow> distinct (map fst es) \<and> (\<forall>e\<in>set es. valid_name (fst e) \<and> wf_node (snd e))"
| "wf_node _ \<longleftrightarrow> True"

definition files_below :: "(string list \<Rightarrow> bool) \<Rightarrow> string list \<Rightarrow> node \<Rightarrow> string list set" where
  "files_below keep path n =
     {path @ q |q. q \<noteq> [] \<and> real_at n q = Some FileNode \<and> \<not> list_ex is_git_component q \<and> keep (path @ q)}"

lemma files_below_Nil: "files_below keep path (DirNode []) = {}"
  by (auto simp: files_below_def neq_Nil_conv)

lemma files_below_leaf:
  "n = FileNode \<or> n = SpecialNode \<or> n = SymlinkNode t \<Longrightarrow> files_below keep path n = {}"
  by (auto simp: files_below_def neq_Nil_conv)

lemma files_belowE: "p \<in> files_below keep path n \<Longrightarrow> \<exists>c q. p = path @ c # q"
  by (auto simp: files_below_def neq_Nil_conv)

lemma files_below_dir:
  "path @ c # q \<in> files_below keep path (DirNode es) \<longleftrightarrow>
     (\<exists>m. map_of es c = Some m \<and> real_at m q = Some FileNode)
     \<and> \<not> is_git_component c \<and> \<not> list_ex is_git_component q \<and> keep (path @ c # q)"
  by (auto simp: files_below_def split: option.splits)

lemma files_below_sub:
  "path @ c # q \<in> files_below keep (path @ [c]) n \<longleftrightarrow>
     q \<noteq> [] \<and> real_at n q = Some FileNode \<and> \<not> list_ex is_git_component q \<and> keep (path @ c # q)"
  by (auto simp: files_below_def)

lemma files_below_other: "c \<noteq> d \<Longrightarrow> path @ c # q \<notin> files_below keep (path @ [d]) n"
  by (auto simp: files_below_def)

lemma files_below_Cons:
  assumes "name \<notin> fst ` set es"
  shows "files_below keep path (DirNode ((name, n) # es)) =
    (if is_git_component name then {}
     else (if n = FileNode \<and> keep (path @ [name]) then {path @ [name]} else {})
        \<union> files_below keep (path @ [name]) n)
    \<union> files_below keep path (DirNode es)" (is "?l = ?r")
proof -
  have none: "map_of es name = None" using assms by (metis map_of_eq_None_iff)
  have eq: "path @ c # q \<in> ?l \<longleftrightarrow> path @ c # q \<in> ?r" for c q
  proof (cases "c = name")
    case True
    have "path @ name # q \<notin> files_below keep path (DirNode es)" by (simp add: files_below_dir none)
    then show ?thesis using True
      by (cases "is_git_component name"; cases q) (auto simp: files_below_dir files_below_sub)
  next
    case False
    then show ?thesis by (simp add: files_below_dir files_below_other)
  qed
  have left: "\<exists>c q. p = path @ c # q" if "p \<in> ?l" for p using that by (rule files_belowE)
  have sub: "\<exists>c q. p = path @ c # q" if p: "p \<in> files_below keep (path @ [name]) n" for p
  proof -
    obtain c q where "p = (path @ [name]) @ c # q" using files_belowE [OF p] by blast
    then have "p = path @ name # c # q" by simp
    then show ?thesis by blast
  qed
  have right: "\<exists>c q. p = path @ c # q" if "p \<in> ?r" for p
    using that sub [of p] files_belowE [of p keep path "DirNode es"] by (auto split: if_splits)
  show ?thesis using eq left right by blast
qed

lemma walk_files:
  "walk_dir keep path n = Ok ps \<Longrightarrow> wf_node n \<Longrightarrow> set ps = files_below keep path n"
  "walk_entries keep path es = Ok qs \<Longrightarrow> wf_node (DirNode es) \<Longrightarrow> set qs = files_below keep path (DirNode es)"
proof (induction keep path n and keep path es arbitrary: ps and qs rule: walk_dir_walk_entries.induct)
  case (4 keep path name n es)
  have notin: "name \<notin> fst ` set es" and wf: "wf_node n" "wf_node (DirNode es)" using "4.prems" by auto
  show ?case
  proof (cases "is_git_component name")
    case True
    then show ?thesis using 4 wf by (simp add: files_below_Cons [OF notin])
  next
    case False
    show ?thesis
    proof (cases n)
      case FileNode
      then show ?thesis
        using False 4 wf by (auto simp: files_below_Cons [OF notin] files_below_leaf outcome_simps)
    next
      case (DirNode fs)
      then show ?thesis
        using False 4 wf by (auto simp: files_below_Cons [OF notin] outcome_simps)
    next
      case LockedDir
      then show ?thesis using False 4 by (simp add: outcome_simps)
    qed (use False 4 wf in \<open>auto simp: files_below_Cons [OF notin] files_below_leaf\<close>)
  qed
qed (auto simp: files_below_Nil)


section \<open>Properties\<close>

lemma relativize_inverse:
  assumes "normal_path target"
  shows "resolve_relative_md_path (relativize_md_path source target) source = Some target"
proof -
  obtain cs where cs: "cs \<noteq> []" "list_all valid_name cs" "target = join [slash] cs" "split_on slash target = cs"
    using assms by (rule normal_pathE)
  define dirs where "dirs = source_dir source"
  define k where "k = common_len dirs (take (length cs - 1) cs)"
  have le: "k \<le> length dirs" "k \<le> length cs - 1"
    using common_len_le [of dirs "take (length cs - 1) cs"] by (auto simp: k_def)
  have "take k dirs = take k (take (length cs - 1) cs)"
    unfolding k_def by (rule take_common_len)
  then have k: "k \<le> length dirs" "k \<le> length cs - 1" "take k dirs = take k cs"
    using le by (simp_all add: min_absorb1)
  define parts where "parts = replicate (length dirs - k) ''..'' @ drop k cs"
  have rel: "relativize_md_path source target = join [slash] parts"
    using cs by (simp add: relativize_md_path_def Let_def filter_valid dirs_def k_def parts_def)
  have "split_on slash (join [slash] parts) = parts"
  proof (rule split_on_join)
    show "parts \<noteq> []" using cs(1) k(2) by (cases cs) (auto simp: parts_def)
    have "slash \<notin> set c" if "c \<in> set (drop k cs)" for c
      using cs(2) in_set_dropD [OF that] by (auto simp: list_all_iff valid_name_def)
    then show "\<forall>c\<in>set parts. slash \<notin> set c" by (auto simp: parts_def)
  qed
  moreover have "resolve_components dirs parts = Some cs"
  proof -
    have "list_all valid_name (drop k cs)" using cs(2) by (auto simp: list_all_iff dest: in_set_dropD)
    then have "resolve_components dirs parts = Some (take k dirs @ drop k cs)"
      using k(1) resolve_climb [of "length dirs - k" dirs "drop k cs"] resolve_valid by (simp add: parts_def)
    then show ?thesis by (simp add: k(3))
  qed
  ultimately show ?thesis
    using cs(1) by (simp add: resolve_relative_md_path_def rel flip: dirs_def cs(3))
qed

text \<open>
  C22. Writing and resolving a relative link are inverse: for any referencing document and any
  normalised target path, resolving the \<open>relativize_md_path\<close> writes gives the target back.
\<close>

theorem relativize_resolves_back:
  assumes "normal_path target"
  shows "resolve_relative_md_path (relativize_md_path source target) source = Some target"
  using assms by (rule relativize_inverse)

lemma relativize_resolves_back_witness:
  "relativize_md_path ''dev/a.md'' ''sysadmin/b.md'' = ''../sysadmin/b.md''
   \<and> resolve_relative_md_path (relativize_md_path ''dev/a.md'' ''sysadmin/b.md'') ''dev/a.md''
       = Some ''sysadmin/b.md''"
proof -
  have "normal_path ''sysadmin/b.md''" by code_simp
  moreover have "relativize_md_path ''dev/a.md'' ''sysadmin/b.md'' = ''../sysadmin/b.md''" by code_simp
  ultimately show ?thesis using relativize_resolves_back [of "''sysadmin/b.md''" "''dev/a.md''"] by blast
qed

text \<open>
  A link never resolves outside the knowledge base: from a normalised document path, whatever
  the link text is, the resolved path (when there is one) is a normalised relative path, without any
  \<open>..\<close>, \<open>.\<close> or empty component.
\<close>

theorem resolved_link_stays_inside:
  assumes "normal_path source" "resolve_relative_md_path target source = Some path"
  shows "normal_path path"
proof -
  obtain r where r: "resolve_components (source_dir source) (split_on slash target) = Some r" "r \<noteq> []"
      "path = join [slash] r"
    using assms(2) by (auto simp: resolve_relative_md_path_def split: option.splits if_splits)
  have v: "list_all valid_name r"
    by (rule resolve_components_valid [OF r(1) source_dir_valid [OF assms(1)]]) (auto dest: split_on_no_sep)
  then have "split_on slash path = r"
    unfolding r(3) using r(2) by (intro split_on_join) (auto simp: valid_name_def list_all_iff)
  then show ?thesis using v by (simp add: normal_path_def)
qed

lemma resolved_link_stays_inside_witness:
  "normal_path ''x/c.md'' \<and> resolve_relative_md_path ''../../x/c.md'' ''a/d.md'' = None"
proof -
  have "normal_path ''a/b/d.md''" "resolve_relative_md_path ''../../x//./c.md'' ''a/b/d.md'' = Some ''x/c.md''"
      "resolve_relative_md_path ''../../x/c.md'' ''a/d.md'' = None"
    by code_simp+
  then show ?thesis using resolved_link_stays_inside [of "''a/b/d.md''" "''../../x//./c.md''" "''x/c.md''"] by blast
qed

text \<open>
  The ancestor list answers the path filter at directory boundaries: for a normalised document
  path it holds a string exactly when that string is the path itself or a prefix of it that ends just
  before a separator, so a filter on \<open>notes/a\<close> never matches \<open>notes/ab.md\<close>.
\<close>

theorem path_ancestors_are_boundaries:
  assumes "normal_path rel_path"
  shows "q \<in> set (derive_path_ancestors rel_path)
     \<longleftrightarrow> q = rel_path \<or> starts_with rel_path (q @ [slash])"
proof -
  obtain cs where cs: "cs \<noteq> []" "list_all valid_name cs" "rel_path = join [slash] cs"
    using assms by (rule normal_pathE)
  have "q \<in> set (derive_path_ancestors rel_path) \<longleftrightarrow> (\<exists>k. 0 < k \<and> k \<le> length cs \<and> q = join [slash] (take k cs))"
  proof
    assume "q \<in> set (derive_path_ancestors rel_path)"
    then obtain j where "j < length cs" "q = join [slash] (take (Suc j) cs)"
      unfolding cs(3) derive_path_ancestors_join [OF cs(2)] by auto
    then show "\<exists>k. 0 < k \<and> k \<le> length cs \<and> q = join [slash] (take k cs)"
      by (intro exI [of _ "Suc j"]) simp
  next
    assume "\<exists>k. 0 < k \<and> k \<le> length cs \<and> q = join [slash] (take k cs)"
    then obtain k where "0 < k" "k \<le> length cs" "q = join [slash] (take k cs)" by blast
    then have "k - 1 < length cs" "q = join [slash] (take (Suc (k - 1)) cs)" by simp_all
    then show "q \<in> set (derive_path_ancestors rel_path)"
      unfolding cs(3) derive_path_ancestors_join [OF cs(2)] by force
  qed
  also have "\<dots> \<longleftrightarrow> q = rel_path \<or> (\<exists>k. 0 < k \<and> k < length cs \<and> q = join [slash] (take k cs))"
  proof -
    have "(0 < k \<and> k \<le> length cs \<and> q = join [slash] (take k cs)) \<longleftrightarrow>
        (k = length cs \<and> q = rel_path \<or> 0 < k \<and> k < length cs \<and> q = join [slash] (take k cs))" for k
      using cs(1,3) by (cases "k = length cs") auto
    then show ?thesis by auto
  qed
  also have "\<dots> \<longleftrightarrow> q = rel_path \<or> starts_with rel_path (q @ [slash])"
    using prefix_at_slash [OF cs(1,2), of q] by (simp add: cs(3) starts_with_iff)
  finally show ?thesis .
qed

lemma path_ancestors_are_boundaries_witness:
  "''notes'' \<in> set (derive_path_ancestors ''notes/ab.md'') \<and> ''notes/a'' \<notin> set (derive_path_ancestors ''notes/ab.md'')"
proof -
  have "normal_path ''notes/ab.md''" by code_simp
  moreover have "starts_with ''notes/ab.md'' (''notes'' @ [slash])" "\<not> starts_with ''notes/ab.md'' (''notes/a'' @ [slash])"
    by code_simp+
  ultimately show ?thesis
    using path_ancestors_are_boundaries [of "''notes/ab.md''" "''notes''"]
      path_ancestors_are_boundaries [of "''notes/ab.md''" "''notes/a''"] by simp
qed


text \<open>
  C24. The indexer's walk and the path inspection agree: in a well-formed tree, when discovery
  succeeds, it lists exactly the paths that the include/exclude filter accepts and that
  \<open>inspect_kb_path\<close> finds to be regular files. Nothing reached through a link, and nothing under a
  \<open>.git\<close> directory, is ever discovered; nothing else is missed.
\<close>

theorem discover_agrees_with_inspect:
  assumes "wf_node (DirNode es)" "list_all valid_name names"
    and "path_filter_from_config lib indexing = Ok f"
    and "discover_files lib indexing (DirNode es) = Ok found"
  shows "names \<in> set found \<longleftrightarrow>
     is_indexable lib f (join [slash] names)
     \<and> inspect_kb_path follow (DirNode es) (join [slash] names) = Ok File"
proof -
  obtain ps where ps: "walk_dir (\<lambda>p. is_indexable lib f (join [slash] p)) [] (DirNode es) = Ok ps" "found = sort ps"
    using assms(3,4) by (auto simp: discover_files_def outcome_simps)
  have "names \<in> set found \<longleftrightarrow> names \<in> files_below (\<lambda>p. is_indexable lib f (join [slash] p)) [] (DirNode es)"
    using walk_files(1) [OF ps(1) assms(1)] ps(2) by simp
  also have "\<dots> \<longleftrightarrow> is_indexable lib f (join [slash] names) \<and> \<not> list_ex is_git_component names
      \<and> names \<noteq> [] \<and> real_at (DirNode es) names = Some FileNode"
    by (auto simp: files_below_def)
  also have "\<dots> \<longleftrightarrow> is_indexable lib f (join [slash] names)
      \<and> bind_outcome (collect_names (components (join [slash] names))) (inspect_tree (DirNode es)) = Ok File"
    by (auto simp: components_join [OF assms(2)] collect_names_Normal inspect_tree_File)
  also have "inspect_names (lstat follow (DirNode es)) [] = inspect_tree (DirNode es)"
    by (rule ext) (rule inspect_names_tree; simp)
  then have "bind_outcome (collect_names (components (join [slash] names))) (inspect_tree (DirNode es))
      = inspect_kb_path follow (DirNode es) (join [slash] names)"
    by (simp add: inspect_kb_path_def)
  finally show ?thesis .
qed

definition demo_globs :: globs where
  "demo_globs = \<lparr>glob_valid = (\<lambda>_. True), set_builds = (\<lambda>_. True), glob_matches = (\<lambda>g p. ends_with p ''.md'')\<rparr>"

definition demo_indexing :: indexing_config where
  "demo_indexing = \<lparr>ic_include = [''**/*.md''], ic_exclude = [], ic_exclude_files = []\<rparr>"

definition demo_root :: "(string \<times> node) list" where
  "demo_root = [(''b'', DirNode [(''c.md'', FileNode), (''leak.md'', SymlinkNode ''/etc/passwd'')]),
     (''.git'', DirNode [(''x.md'', FileNode)]), (''a.md'', FileNode)]"

lemma discover_agrees_with_inspect_witness:
  "[''b'', ''c.md''] \<in> set [[''a.md''], [''b'', ''c.md'']]
     \<and> inspect_kb_path (\<lambda>_ _. IsFile) (DirNode demo_root) (join [slash] [''b'', ''c.md'']) = Ok File
     \<and> inspect_kb_path (\<lambda>_ _. IsFile) (DirNode demo_root) (join [slash] [''b'', ''leak.md'']) \<noteq> Ok File"
proof -
  define f where "f = \<lparr>pf_include_set = [''**/*.md''], pf_exclude_set = None, pf_exclude_filenames = {}\<rparr>"
  have wf: "wf_node (DirNode demo_root)" by code_simp
  have flt: "path_filter_from_config demo_globs demo_indexing = Ok f"
    by (simp add: path_filter_from_config_def build_globset_def parse_globs_def demo_globs_def demo_indexing_def f_def)
  have found: "discover_files demo_globs demo_indexing (DirNode demo_root) = Ok [[''a.md''], [''b'', ''c.md'']]"
    by code_simp
  have v: "list_all valid_name [''b'', ''c.md'']" "list_all valid_name [''b'', ''leak.md'']" by code_simp+
  have ix: "is_indexable demo_globs f (join [slash] [''b'', ''leak.md''])" unfolding f_def by code_simp
  show ?thesis
    using discover_agrees_with_inspect [OF wf v(1) flt found]
      discover_agrees_with_inspect [OF wf v(2) flt found] ix by simp
qed

end
