(* ===== verification/Reindex.thy ===== *)
theory Reindex
  imports Status Paths
begin

text \<open>
  The reindex queue and its worker, \<open>src/src/reindex.rs\<close>, with the schema rebuild policy
  \<open>apply_rebuild\<close> of \<open>src/src/schema.rs\<close> it goes through. The queue's critical sections are functions;
  the retry loop of one unit is a terminating function of the runner's results; the worker together
  with every producer is a step relation, one step per critical section or awaited call, so that
  producers may mark work at any point of a run.

  A runner error is the list of its causes, outermost first (\<open>anyhow\<close>'s chain). Durations are in
  seconds.
\<close>

section \<open>The queue\<close>

record queue_state =
  qs_paths :: "string set"
  qs_full :: bool

text \<open>The queue and the permit \<open>Notify\<close> stores for the next \<open>notified()\<close>.\<close>

record reindex_queue =
  rq_state :: queue_state
  rq_permit :: bool

definition queue_new :: reindex_queue where
  "queue_new = \<lparr>rq_state = \<lparr>qs_paths = {}, qs_full = False\<rparr>, rq_permit = False\<rparr>"

definition notify_one :: "reindex_queue \<Rightarrow> reindex_queue" where
  "notify_one q = q\<lparr>rq_permit := True\<rparr>"

text \<open>The two marking operations, each a locked section followed by \<open>notify_one\<close>.\<close>

definition lock_mark_paths :: "string list \<Rightarrow> reindex_queue \<Rightarrow> reindex_queue" where
  "lock_mark_paths paths q = q\<lparr>rq_state := (rq_state q)\<lparr>qs_paths := qs_paths (rq_state q) \<union> set paths\<rparr>\<rparr>"

definition lock_mark_full :: "reindex_queue \<Rightarrow> reindex_queue" where
  "lock_mark_full q = q\<lparr>rq_state := (rq_state q)\<lparr>qs_full := True\<rparr>\<rparr>"

definition mark_paths :: "string list \<Rightarrow> reindex_queue \<Rightarrow> reindex_queue" where
  "mark_paths paths q = notify_one (lock_mark_paths paths q)"

definition mark_full :: "reindex_queue \<Rightarrow> reindex_queue" where
  "mark_full q = notify_one (lock_mark_full q)"

definition mark_schema_changes ::
    "globs \<Rightarrow> indexing_config \<Rightarrow> string list \<Rightarrow> reindex_queue \<Rightarrow> bool \<times> reindex_queue" where
  "mark_schema_changes lib indexing changed q =
     (if \<not> list_ex is_schema_file_path changed then (False, q)
      else
        let walk = schema_walk_from_config lib indexing;
            schema_changed = list_ex (governs lib walk) changed
        in (schema_changed, if schema_changed then mark_full q else q))"

definition drain :: "reindex_queue \<Rightarrow> (string set \<times> bool) \<times> reindex_queue" where
  "drain q =
     ((qs_paths (rq_state q), qs_full (rq_state q)),
      q\<lparr>rq_state := \<lparr>qs_paths = {}, qs_full = False\<rparr>\<rparr>)"

record queue_snapshot =
  qn_pending_paths :: nat
  qn_full_pending :: bool

definition queue_snapshot_of :: "reindex_queue \<Rightarrow> queue_snapshot" where
  "queue_snapshot_of q =
     \<lparr>qn_pending_paths = card (qs_paths (rq_state q)), qn_full_pending = qs_full (rq_state q)\<rparr>"

section \<open>Retry policy\<close>

type_synonym u32 = "32 word"

definition MAX_RETRY_ATTEMPTS :: u32 where
  "MAX_RETRY_ATTEMPTS = 6"

definition RETRY_BASE_BACKOFF :: nat where
  "RETRY_BASE_BACKOFF = 5"

definition RETRY_MAX_BACKOFF :: nat where
  "RETRY_MAX_BACKOFF = 300"

definition saturating_sub :: "u32 \<Rightarrow> u32 \<Rightarrow> u32" where
  "saturating_sub a b = (if a < b then 0 else a - b)"

text \<open>\<open>Duration::saturating_mul\<close> saturates far above the products that occur here.\<close>

definition backoff_for_attempt :: "u32 \<Rightarrow> nat" where
  "backoff_for_attempt attempt =
     (let exponent = min (saturating_sub attempt 1) 10 in
      min (RETRY_BASE_BACKOFF * unat (push_bit (unat exponent) (1 :: u32))) RETRY_MAX_BACKOFF)"

datatype cause = SchemaBuildCause "invalid_schema_file list" string | OtherCause string

fun cause_str :: "cause \<Rightarrow> string" where
  "cause_str (SchemaBuildCause invalid s) = s"
| "cause_str (OtherCause s) = s"

type_synonym run_error = "cause list"

fun schema_build_error :: "run_error \<Rightarrow> invalid_schema_file list option" where
  "schema_build_error [] = None"
| "schema_build_error (SchemaBuildCause invalid s # cs) = Some invalid"
| "schema_build_error (OtherCause s # cs) = schema_build_error cs"

definition is_permanent_failure :: "run_error \<Rightarrow> bool" where
  "is_permanent_failure err \<longleftrightarrow>
     schema_build_error err \<noteq> None \<or> contains (join '': '' (map cause_str err)) ''(strict mode)''"

datatype work_unit = Paths "string list" | FullReconcile

definition unit_touches_schema :: "globs \<Rightarrow> indexing_config \<Rightarrow> work_unit \<Rightarrow> bool" where
  "unit_touches_schema lib indexing u =
     (case u of
        FullReconcile \<Rightarrow> True
      | Paths paths \<Rightarrow>
          list_ex is_schema_file_path paths
          \<and> list_ex (governs lib (schema_walk_from_config lib indexing)) paths)"

definition report_dropped_for_invalid_schema ::
    "(int \<Rightarrow> string) \<Rightarrow> int \<Rightarrow> invalid_schema_file list \<Rightarrow> inner \<Rightarrow> inner" where
  "report_dropped_for_invalid_schema fmt unix invalid status = record_schema_error fmt unix invalid status"

text \<open>How one unit ends.\<close>

datatype run_end = Indexed | DroppedInvalidSchema | DroppedPermanent | GaveUp

text \<open>
  The retry loop. \<open>run i st\<close> is the \<open>i\<close>-th call of the runner on the status it finds: None when it
  succeeds. The result lists the delays slept, counts the calls and gives the status left behind. (The counter starts at 0 and is compared before it is
  increased, so the source's \<open>attempt + 1 > MAX_RETRY_ATTEMPTS\<close> is \<open>\<not> attempt < MAX_RETRY_ATTEMPTS\<close>.)
\<close>

function retry_loop ::
    "(int \<Rightarrow> string) \<Rightarrow> int \<Rightarrow> (nat \<Rightarrow> inner \<Rightarrow> run_error option \<times> inner) \<Rightarrow> u32 \<Rightarrow> inner
     \<Rightarrow> run_end \<times> nat \<times> nat list \<times> inner" where
  "retry_loop fmt unix run attempt st =
     (case run (unat attempt) st of
        (None, st) \<Rightarrow> (Indexed, 1, [], st)
      | (Some e, st) \<Rightarrow>
          (case schema_build_error e of
             Some invalid \<Rightarrow>
               (DroppedInvalidSchema, 1, [], report_dropped_for_invalid_schema fmt unix invalid st)
           | None \<Rightarrow>
               if is_permanent_failure e then (DroppedPermanent, 1, [], st)
               else if attempt < MAX_RETRY_ATTEMPTS
               then (case retry_loop fmt unix run (attempt + 1) st of
                       (ended, runs, sleeps, st) \<Rightarrow>
                         (ended, Suc runs, backoff_for_attempt (attempt + 1) # sleeps, st))
               else (GaveUp, 1, [], st)))"
  by pat_completeness auto
termination
proof (relation "measure (\<lambda>(fmt, unix, run, attempt, st). 6 - unat attempt)")
  fix attempt :: u32
  assume "attempt < MAX_RETRY_ATTEMPTS"
  then have "unat attempt < 6" by (simp add: MAX_RETRY_ATTEMPTS_def word_less_nat_alt)
  then have "unat (attempt + 1) = unat attempt + 1" by (simp add: unat_word_ariths)
  then show "((fmt, unix, run, attempt + 1, st), fmt', unix', run', attempt, st')
      \<in> measure (\<lambda>(fmt, unix, run, attempt, st). 6 - unat attempt)" for fmt unix run st fmt' unix' run' st'
    using \<open>unat attempt < 6\<close> by simp
qed simp

declare retry_loop.simps [simp del]

definition run_with_retry ::
    "(int \<Rightarrow> string) \<Rightarrow> int \<Rightarrow> (nat \<Rightarrow> inner \<Rightarrow> run_error option \<times> inner) \<Rightarrow> inner
     \<Rightarrow> run_end \<times> nat \<times> nat list \<times> inner" where
  "run_with_retry fmt unix run st = retry_loop fmt unix run 0 st"


section \<open>The schema error cell\<close>

text \<open>
  What the rebuild policy needs of the status: a cell that holds the current streak of refused
  rebuilds. The first refusal fixes the streak's start, later ones only replace the file list, a
  success empties the cell.
\<close>

locale error_cell =
  fixes record_err :: "int \<Rightarrow> 'files \<Rightarrow> 's \<Rightarrow> 's"
    and clear_err :: "'s \<Rightarrow> 's"
    and get_err :: "'s \<Rightarrow> 'e option"
    and since :: "'e \<Rightarrow> int"
    and files :: "'e \<Rightarrow> 'files"
  assumes get_clear: "get_err (clear_err s) = None"
    and get_record: "\<exists>e. get_err (record_err t fs s) = Some e \<and> files e = fs
      \<and> since e = (case get_err s of None \<Rightarrow> t | Some e' \<Rightarrow> since e')"
begin

text \<open>One rebuild result at a time: \<open>None\<close> is a success.\<close>

definition result_step :: "'s \<Rightarrow> int \<times> 'files option \<Rightarrow> 's" where
  "result_step s r = (case snd r of None \<Rightarrow> clear_err s | Some fs \<Rightarrow> record_err (fst r) fs s)"

definition streak :: "(int \<times> 'files option) list \<Rightarrow> (int \<times> 'files option) list" where
  "streak rs = rev (takeWhile (\<lambda>r. snd r \<noteq> None) (rev rs))"

lemma streak_snoc: "streak (rs @ [r]) = (if snd r = None then [] else streak rs @ [r])"
  by (simp add: streak_def)

lemma cell_after_results:
  assumes "get_err s = None"
  shows "case get_err (foldl result_step s rs) of
      None \<Rightarrow> streak rs = []
    | Some e \<Rightarrow> streak rs \<noteq> [] \<and> since e = fst (hd (streak rs)) \<and> Some (files e) = snd (last (streak rs))"
proof (induction rs rule: rev_induct)
  case Nil
  then show ?case using assms by (simp add: streak_def)
next
  case (snoc r rs)
  let ?s = "foldl result_step s rs"
  show ?case
  proof (cases "snd r")
    case None
    have "foldl result_step s (rs @ [r]) = result_step ?s r" by simp
    also have "\<dots> = clear_err ?s" using None unfolding result_step_def by simp
    finally have step: "foldl result_step s (rs @ [r]) = clear_err ?s" .
    show ?thesis using None unfolding step by (simp add: streak_snoc get_clear)
  next
    case (Some fs)
    obtain e where e: "get_err (record_err (fst r) fs ?s) = Some e" "files e = fs"
        "since e = (case get_err ?s of None \<Rightarrow> fst r | Some e' \<Rightarrow> since e')"
      using get_record by blast
    have "foldl result_step s (rs @ [r]) = result_step ?s r" by simp
    also have "\<dots> = record_err (fst r) fs ?s" using Some unfolding result_step_def by simp
    finally have step: "foldl result_step s (rs @ [r]) = record_err (fst r) fs ?s" .
    have st: "streak (rs @ [r]) = streak rs @ [r]" using Some by (simp add: streak_snoc)
    show ?thesis
      using e Some snoc unfolding step st by (cases "get_err ?s") auto
  qed
qed

end

interpretation status_cell: error_cell "record_schema_error fmt" clear_schema_error schema_error
    se_since_unix se_files for fmt
  by unfold_locales
    (auto simp: record_schema_error_def clear_schema_error_def schema_error_def Let_def split: option.splits)

section \<open>Applying a schema rebuild\<close>

text \<open>The shared cache and the status; the answer is whether the new cache was applied.\<close>

fun apply_rebuild ::
    "(int \<Rightarrow> string) \<Rightarrow> int \<Rightarrow> invalid_schema_file list + 'cache \<Rightarrow> 'cache \<times> inner
     \<Rightarrow> bool \<times> 'cache \<times> inner" where
  "apply_rebuild fmt unix (Inr schemas) (shared, status) = (True, schemas, clear_schema_error status)"
| "apply_rebuild fmt unix (Inl e) (shared, status) = (False, shared, record_schema_error fmt unix e status)"

text \<open>
  The worker's rebuild step. \<open>None\<close> is a panic of the blocking walk: it is logged, and the unit is
  indexed anyway.
\<close>

definition schema_rebuild_runner ::
    "(int \<Rightarrow> string) \<Rightarrow> int \<Rightarrow> (invalid_schema_file list + 'cache) option \<Rightarrow> 'cache \<times> inner
     \<Rightarrow> bool \<times> 'cache \<times> inner" where
  "schema_rebuild_runner fmt unix built st =
     (case built of Some b \<Rightarrow> apply_rebuild fmt unix b st | None \<Rightarrow> (True, st))"

section \<open>The worker\<close>

datatype worker_pc =
    Sleeping
  | Draining
  | Rebuilding work_unit bool
  | Rebuilt work_unit bool
  | Running work_unit u32
  | BackingOff work_unit u32

text \<open>
  The queue, how many producers are between their locked section and their \<open>notify_one\<close>, the shared
  schema cache and the status, where the worker is, and a ghost: whether a unit was dropped because a
  schema file was invalid and no full reconcile has been run since.
\<close>

record 'cache system =
  sy_queue :: reindex_queue
  sy_notifying :: nat
  sy_shared :: 'cache
  sy_status :: inner
  sy_pc :: worker_pc
  sy_dropped :: bool

definition system_init :: "'cache \<Rightarrow> 'cache system" where
  "system_init cache = \<lparr>sy_queue = queue_new, sy_notifying = 0, sy_shared = cache, sy_status = inner_default,
     sy_pc = Sleeping, sy_dropped = False\<rparr>"

definition after_unit :: "work_unit \<Rightarrow> 'cache system \<Rightarrow> 'cache system" where
  "after_unit u s = s\<lparr>sy_pc := Draining, sy_dropped := (sy_dropped s \<and> u \<noteq> FullReconcile)\<rparr>"

inductive producer_step :: "(int \<Rightarrow> string) \<Rightarrow> 'cache system \<Rightarrow> 'cache system \<Rightarrow> bool" for fmt where
  MarkPaths: "producer_step fmt s
    (s\<lparr>sy_queue := lock_mark_paths paths (sy_queue s), sy_notifying := Suc (sy_notifying s)\<rparr>)"
| MarkFull: "producer_step fmt s
    (s\<lparr>sy_queue := lock_mark_full (sy_queue s), sy_notifying := Suc (sy_notifying s)\<rparr>)"
| Notify: "sy_notifying s = Suc n \<Longrightarrow>
    producer_step fmt s (s\<lparr>sy_queue := notify_one (sy_queue s), sy_notifying := n\<rparr>)"
| RefusedElsewhere: "producer_step fmt s (s\<lparr>sy_status := record_schema_error fmt unix invalid (sy_status s)\<rparr>)"
| StatusElsewhere: "schema_error status' = schema_error (sy_status s) \<Longrightarrow>
    producer_step fmt s (s\<lparr>sy_status := status'\<rparr>)"

inductive worker_step ::
    "(int \<Rightarrow> string) \<Rightarrow> globs \<Rightarrow> 'cache system \<Rightarrow> 'cache system \<Rightarrow> bool" for fmt lib where
  Wake: "sy_pc s = Sleeping \<Longrightarrow> rq_permit (sy_queue s) \<Longrightarrow>
    worker_step fmt lib s (s\<lparr>sy_queue := (sy_queue s)\<lparr>rq_permit := False\<rparr>, sy_pc := Draining\<rparr>)"
| DrainNothing: "sy_pc s = Draining \<Longrightarrow> drain (sy_queue s) = ((paths, full), q) \<Longrightarrow>
    paths = {} \<and> \<not> full \<Longrightarrow> worker_step fmt lib s (s\<lparr>sy_queue := q, sy_pc := Sleeping\<rparr>)"
| DrainUnit: "sy_pc s = Draining \<Longrightarrow> drain (sy_queue s) = ((paths, full), q) \<Longrightarrow>
    \<not> (paths = {} \<and> \<not> full) \<Longrightarrow> set listed = paths \<Longrightarrow> distinct listed \<Longrightarrow>
    u = (if full then FullReconcile else Paths listed) \<Longrightarrow>
    worker_step fmt lib s (s\<lparr>sy_queue := q, sy_pc :=
      (if unit_touches_schema lib indexing u
       then Rebuilding u (schema_error (sy_status s) \<noteq> None) else Running u 0)\<rparr>)"
| Rebuild: "sy_pc s = Rebuilding u was_invalid \<Longrightarrow>
    schema_rebuild_runner fmt unix built (sy_shared s, sy_status s) = (True, shared, status) \<Longrightarrow>
    worker_step fmt lib s (s\<lparr>sy_shared := shared, sy_status := status, sy_pc := Rebuilt u was_invalid\<rparr>)"
| SkipUnit: "sy_pc s = Rebuilding u was_invalid \<Longrightarrow>
    schema_rebuild_runner fmt unix built (sy_shared s, sy_status s) = (False, shared, status) \<Longrightarrow>
    worker_step fmt lib s
      (s\<lparr>sy_shared := shared, sy_status := status, sy_pc := Draining, sy_dropped := True\<rparr>)"
| CheckRecovered: "sy_pc s = Rebuilt u was_invalid \<Longrightarrow>
    recovered = (was_invalid \<and> schema_error (sy_status s) = None \<and> u \<noteq> FullReconcile) \<Longrightarrow>
    worker_step fmt lib s (s\<lparr>sy_queue := (if recovered then mark_full (sy_queue s) else sy_queue s),
      sy_pc := Running u 0\<rparr>)"
| RunOk: "sy_pc s = Running u attempt \<Longrightarrow> worker_step fmt lib s (after_unit u s)"
| RunInvalidSchema: "sy_pc s = Running u attempt \<Longrightarrow> schema_build_error e = Some invalid \<Longrightarrow>
    worker_step fmt lib s
      (s\<lparr>sy_status := report_dropped_for_invalid_schema fmt unix invalid (sy_status s),
         sy_pc := Draining, sy_dropped := True\<rparr>)"
| RunPermanent: "sy_pc s = Running u attempt \<Longrightarrow> schema_build_error e = None \<Longrightarrow>
    is_permanent_failure e \<Longrightarrow> worker_step fmt lib s (after_unit u s)"
| RunGiveUp: "sy_pc s = Running u attempt \<Longrightarrow> schema_build_error e = None \<Longrightarrow>
    \<not> is_permanent_failure e \<Longrightarrow> \<not> attempt < MAX_RETRY_ATTEMPTS \<Longrightarrow>
    worker_step fmt lib s (after_unit u s)"
| RunRetry: "sy_pc s = Running u attempt \<Longrightarrow> schema_build_error e = None \<Longrightarrow>
    \<not> is_permanent_failure e \<Longrightarrow> attempt < MAX_RETRY_ATTEMPTS \<Longrightarrow>
    worker_step fmt lib s (s\<lparr>sy_pc := BackingOff u (attempt + 1)\<rparr>)"
| BackoffOver: "sy_pc s = BackingOff u attempt \<Longrightarrow>
    worker_step fmt lib s (s\<lparr>sy_pc := Running u attempt\<rparr>)"

inductive_cases producer_stepE: "producer_step fmt s s'"
inductive_cases worker_stepE: "worker_step fmt lib s s'"

inductive system_reach :: "(int \<Rightarrow> string) \<Rightarrow> globs \<Rightarrow> 'cache \<Rightarrow> 'cache system \<Rightarrow> bool"
  for fmt lib cache where
  SystemInit: "system_reach fmt lib cache (system_init cache)"
| SystemProducer: "system_reach fmt lib cache s \<Longrightarrow> producer_step fmt s s' \<Longrightarrow> system_reach fmt lib cache s'"
| SystemWorker: "system_reach fmt lib cache s \<Longrightarrow> worker_step fmt lib s s' \<Longrightarrow> system_reach fmt lib cache s'"

lemmas queue_defs = lock_mark_paths_def lock_mark_full_def notify_one_def mark_full_def drain_def queue_new_def

fun unit_of :: "worker_pc \<Rightarrow> work_unit option" where
  "unit_of (Rebuilding u w) = Some u"
| "unit_of (Rebuilt u w) = Some u"
| "unit_of (Running u a) = Some u"
| "unit_of (BackingOff u a) = Some u"
| "unit_of Sleeping = None"
| "unit_of Draining = None"

definition queue_empty :: "reindex_queue \<Rightarrow> bool" where
  "queue_empty q \<longleftrightarrow> qs_paths (rq_state q) = {} \<and> \<not> qs_full (rq_state q)"

definition wake_inv :: "'cache system \<Rightarrow> bool" where
  "wake_inv s \<longleftrightarrow> (sy_pc s = Sleeping \<longrightarrow>
     queue_empty (sy_queue s) \<or> rq_permit (sy_queue s) \<or> 0 < sy_notifying s)"

lemma wake_inv_producer: "producer_step fmt s s' \<Longrightarrow> wake_inv s \<Longrightarrow> wake_inv s'"
  by (erule producer_stepE) (auto simp: wake_inv_def queue_empty_def queue_defs)

lemma wake_inv_worker: "worker_step fmt lib s s' \<Longrightarrow> wake_inv s \<Longrightarrow> wake_inv s'"
  by (erule worker_stepE) (auto simp: wake_inv_def queue_empty_def queue_defs after_unit_def)

lemma wake_inv_reach: "system_reach fmt lib cache s \<Longrightarrow> wake_inv s"
proof (induction rule: system_reach.induct)
  case SystemInit
  then show ?case by (simp add: wake_inv_def system_init_def queue_empty_def queue_new_def)
qed (auto intro: wake_inv_producer wake_inv_worker)

text \<open>What still makes up for the dropped work.\<close>

definition covered :: "'cache system \<Rightarrow> bool" where
  "covered s \<longleftrightarrow> schema_error (sy_status s) \<noteq> None \<or> qs_full (rq_state (sy_queue s))
     \<or> unit_of (sy_pc s) = Some FullReconcile \<or> (\<exists>u. sy_pc s = Rebuilt u True)"

definition recovery_inv :: "'cache system \<Rightarrow> bool" where
  "recovery_inv s \<longleftrightarrow> (sy_dropped s \<longrightarrow> covered s)
     \<and> (\<forall>paths. sy_pc s = Rebuilding (Paths paths) False \<longrightarrow> \<not> sy_dropped s)"

lemma schema_error_record [simp]: "schema_error (record_schema_error fmt unix invalid st) \<noteq> None"
  by (simp add: schema_error_def record_schema_error_def Let_def)

lemma recovery_inv_producer: "producer_step fmt s s' \<Longrightarrow> recovery_inv s \<Longrightarrow> recovery_inv s'"
  by (erule producer_stepE) (auto simp: recovery_inv_def covered_def queue_defs simp del: not_None_eq)

lemma refused_records:
  "schema_rebuild_runner fmt unix built st = (False, shared, status) \<Longrightarrow> schema_error status \<noteq> None"
  by (cases "the built"; cases st)
    (auto simp: schema_rebuild_runner_def schema_error_def record_schema_error_def Let_def split: option.splits)

lemma recovery_inv_worker: "worker_step fmt lib s s' \<Longrightarrow> recovery_inv s \<Longrightarrow> recovery_inv s'"
proof (induction rule: worker_step.induct)
  case (DrainUnit s paths full q listed u indexing)
  then show ?case
    by (cases full) (auto simp: recovery_inv_def covered_def queue_defs unit_touches_schema_def)
next
  case (Rebuild s u was_invalid unix built shared status)
  show ?case
  proof (cases "u = FullReconcile \<or> was_invalid")
    case True
    then show ?thesis by (auto simp: recovery_inv_def covered_def)
  next
    case False
    then obtain ps where "u = Paths ps" by (cases u) auto
    then have "\<not> sy_dropped s" using Rebuild False by (simp add: recovery_inv_def)
    then show ?thesis by (simp add: recovery_inv_def)
  qed
next
  case (SkipUnit s u was_invalid unix built shared status)
  then show ?case using refused_records [OF SkipUnit(2)] by (simp add: recovery_inv_def covered_def)
next
  case (CheckRecovered s u was_invalid recovered)
  then show ?case by (auto simp: recovery_inv_def covered_def queue_defs)
qed (auto simp: recovery_inv_def covered_def queue_defs after_unit_def report_dropped_for_invalid_schema_def
      simp del: not_None_eq)

lemma recovery_inv_reach: "system_reach fmt lib cache s \<Longrightarrow> recovery_inv s"
proof (induction rule: system_reach.induct)
  case SystemInit
  then show ?case by (simp add: recovery_inv_def system_init_def)
qed (auto intro: recovery_inv_producer recovery_inv_worker)


section \<open>Retry bounds\<close>

lemma backoff_table:
  "map backoff_for_attempt [1, 2, 3, 4, 5, 6] = [5, 10, 20, 40, 80, 160]"
  by code_simp

lemma unat_Suc_u32: "unat (attempt :: u32) < 6 \<Longrightarrow> unat (attempt + 1) = unat attempt + 1"
  by (simp add: unat_word_ariths)

definition retry_delays :: "nat list" where
  "retry_delays = [5, 10, 20, 40, 80, 160]"

lemma backoff_nth:
  assumes "unat (attempt :: u32) < 6"
  shows "backoff_for_attempt (attempt + 1) = retry_delays ! unat attempt"
proof -
  have "unat attempt \<in> {0, 1, 2, 3, 4, 5}" using assms by auto
  then have "attempt \<in> {0, 1, 2, 3, 4, 5}" by (auto simp: word_unat_eq_iff)
  moreover have "backoff_for_attempt 1 = 5" "backoff_for_attempt 2 = 10" "backoff_for_attempt 3 = 20"
    "backoff_for_attempt 4 = 40" "backoff_for_attempt 5 = 80" "backoff_for_attempt 6 = 160"
    using backoff_table by simp_all
  ultimately show ?thesis by (auto simp: retry_delays_def)
qed

definition retry_ok :: "nat \<Rightarrow> run_end \<times> nat \<times> nat list \<times> inner \<Rightarrow> bool" where
  "retry_ok k r \<longleftrightarrow> (case r of (ended, runs, sleeps, st) \<Rightarrow>
     runs = Suc (length sleeps) \<and> sleeps = take (length sleeps) (drop k retry_delays)
     \<and> length sleeps + k \<le> 6
     \<and> (ended = GaveUp \<longrightarrow> length sleeps + k = 6)
     \<and> (ended = DroppedInvalidSchema \<longrightarrow> schema_error st \<noteq> None))"

lemma retry_loop_ok: "unat attempt \<le> 6 \<Longrightarrow> retry_ok (unat attempt) (retry_loop fmt unix run attempt st)"
proof (induction fmt unix run attempt st rule: retry_loop.induct)
  case (1 fmt unix run attempt st)
  obtain r st' where r: "run (unat attempt) st = (r, st')" by fastforce
  show ?case
  proof (cases "\<exists>e. r = Some e \<and> schema_build_error e = None \<and> \<not> is_permanent_failure e
      \<and> attempt < MAX_RETRY_ATTEMPTS")
    case True
    then obtain e where e: "r = Some e" "schema_build_error e = None" "\<not> is_permanent_failure e"
        "attempt < MAX_RETRY_ATTEMPTS" by blast
    then have lt: "unat attempt < 6" by (simp add: MAX_RETRY_ATTEMPTS_def word_less_nat_alt)
    obtain ended runs sleeps st'' where rec: "retry_loop fmt unix run (attempt + 1) st' = (ended, runs, sleeps, st'')"
      by (metis prod_cases4)
    have "retry_ok (unat (attempt + 1)) (ended, runs, sleeps, st'')"
      using "1.IH" [OF r [symmetric] e] lt rec by (simp add: unat_Suc_u32)
    moreover have "drop (unat attempt) retry_delays
        = retry_delays ! unat attempt # drop (Suc (unat attempt)) retry_delays"
      using lt by (intro Cons_nth_drop_Suc [symmetric]) (simp add: retry_delays_def)
    ultimately show ?thesis
      using r e lt rec by (subst retry_loop.simps)
        (auto simp: retry_ok_def unat_Suc_u32 backoff_nth)
  next
    case False
    have "unat attempt = 6" if "\<not> attempt < MAX_RETRY_ATTEMPTS"
      using that "1.prems" by (simp add: MAX_RETRY_ATTEMPTS_def word_less_nat_alt)
    then show ?thesis
      using r False "1.prems" by (subst retry_loop.simps)
        (auto simp: retry_ok_def report_dropped_for_invalid_schema_def simp del: not_None_eq split: option.splits)
  qed
qed

lemma unat_saturating_pred: "unat (saturating_sub a 1) = unat a - 1"
proof (cases "a < 1")
  case True
  then have "a = 0" by simp
  then show ?thesis by (simp add: saturating_sub_def)
next
  case False
  then have "a \<noteq> 0" by auto
  then show ?thesis using False by (simp add: saturating_sub_def unat_minus_one)
qed

lemma backoff_closed:
  "backoff_for_attempt a = min (5 * 2 ^ min (unat (saturating_sub a 1)) 10) 300"
proof -
  let ?n = "min (unat (saturating_sub a 1)) 10"
  have "unat (min (saturating_sub a 1) (10 :: u32)) = ?n"
    by (auto simp: min_def word_le_nat_alt)
  moreover have "unat (push_bit ?n (1 :: u32)) = 2 ^ ?n"
  proof -
    have "(2::nat) ^ ?n \<le> 2 ^ 10" by (rule power_increasing) auto
    then have "(2::nat) ^ ?n < 2 ^ 32" by simp
    moreover have "push_bit ?n (1 :: u32) = of_nat (2 ^ ?n)" by (simp add: push_bit_eq_mult)
    ultimately show ?thesis by (simp add: unsigned_of_nat take_bit_nat_eq_self del: of_nat_power)
  qed
  ultimately show ?thesis
    by (simp add: backoff_for_attempt_def Let_def RETRY_BASE_BACKOFF_def RETRY_MAX_BACKOFF_def)
qed

lemma last_Cons2: "last (c # d # L) = last (d # L)" "last [c] = c"
  by simp_all

text \<open>The unbroken run of refusals at the end of a sequence of rebuild results.\<close>

definition refusal_of :: "int \<times> (invalid_schema_file list + 'cache) \<Rightarrow> int \<times> invalid_schema_file list option" where
  "refusal_of r = (fst r, case snd r of Inl e \<Rightarrow> Some e | Inr c \<Rightarrow> None)"

definition refused_streak ::
    "(int \<times> (invalid_schema_file list + 'cache)) list \<Rightarrow> (int \<times> invalid_schema_file list option) list" where
  "refused_streak rs = rev (takeWhile (\<lambda>r. snd r \<noteq> None) (rev (map refusal_of rs)))"

text \<open>A run of the system in which a full reconcile is skipped because a schema file is invalid.\<close>

definition demo_refused :: "unit system" where
  "demo_refused = (system_init ())\<lparr>sy_queue := queue_new,
     sy_status := record_schema_error (\<lambda>_. []) 7 [(''.schema.yaml'', ''bad'')] inner_default,
     sy_pc := Draining, sy_dropped := True\<rparr>"

lemma demo_refused_reach: "system_reach (\<lambda>_. []) demo_globs () demo_refused"
proof -
  let ?r = "system_reach (\<lambda>_. []) demo_globs ()"
  let ?s0 = "system_init ()"
  let ?q1 = "lock_mark_full queue_new"
  have s1: "?r (?s0\<lparr>sy_queue := ?q1, sy_notifying := 1\<rparr>)"
    using SystemProducer [OF SystemInit MarkFull] by (simp add: system_init_def)
  have s2: "?r (?s0\<lparr>sy_queue := notify_one ?q1\<rparr>)"
    using SystemProducer [OF s1 Notify, of 0] by (simp add: system_init_def)
  have s3: "?r (?s0\<lparr>sy_queue := ?q1, sy_pc := Draining\<rparr>)"
    using SystemWorker [OF s2 Wake] by (simp add: system_init_def notify_one_def queue_defs)
  have d: "drain ?q1 = (({}, True), queue_new)" by (simp add: queue_defs)
  have s4: "?r (?s0\<lparr>sy_queue := queue_new, sy_pc := Rebuilding FullReconcile False\<rparr>)"
    using SystemWorker [OF s3 DrainUnit, of "{}" True queue_new "[]" FullReconcile demo_indexing] d
    by (simp add: system_init_def unit_touches_schema_def schema_error_def inner_default_def)
  show ?thesis
    using SystemWorker [OF s4 SkipUnit, of FullReconcile False 7 "Some (Inl [(''.schema.yaml'', ''bad'')])"]
    by (simp add: system_init_def demo_refused_def schema_rebuild_runner_def)
qed

section \<open>Properties\<close>

text \<open>
  C25. No wakeup is lost: in every reachable state where the worker sleeps, no permit is stored and
  no producer is about to notify, the queue is empty. So work marked at any moment of a run, of a
  retry delay or of a drain is picked up without another wakeup.
\<close>

theorem no_lost_wakeup:
  assumes "system_reach fmt lib cache s"
    and "sy_pc s = Sleeping" "\<not> rq_permit (sy_queue s)" "sy_notifying s = 0"
  shows "queue_empty (sy_queue s)"
  using wake_inv_reach [OF assms(1)] assms(2-4) by (simp add: wake_inv_def)

lemma no_lost_wakeup_witness: "queue_empty (sy_queue (demo_refused\<lparr>sy_pc := Sleeping\<rparr>))"
proof (rule no_lost_wakeup)
  show "system_reach (\<lambda>_. []) demo_globs () (demo_refused\<lparr>sy_pc := Sleeping\<rparr>)"
    using SystemWorker [OF demo_refused_reach DrainNothing, of "{}" False queue_new]
    by (simp add: demo_refused_def queue_defs system_init_def)
qed (simp_all add: demo_refused_def queue_new_def system_init_def)

text \<open>
  Coalesced, never dropped: the only steps that take a dirty path or a pending full reconcile
  out of the queue hand it to the unit the worker then holds, which lists that path or is a full
  reconcile.
\<close>

theorem dirty_work_goes_to_a_unit:
  assumes "producer_step fmt s s' \<or> worker_step fmt lib s s'"
  shows "(p \<in> qs_paths (rq_state (sy_queue s)) \<longrightarrow> p \<in> qs_paths (rq_state (sy_queue s'))
            \<or> unit_of (sy_pc s') = Some FullReconcile
            \<or> (\<exists>paths. unit_of (sy_pc s') = Some (Paths paths) \<and> p \<in> set paths))
     \<and> (qs_full (rq_state (sy_queue s)) \<longrightarrow> qs_full (rq_state (sy_queue s'))
            \<or> unit_of (sy_pc s') = Some FullReconcile)"
  using assms
proof
  assume "producer_step fmt s s'"
  then show ?thesis by (elim producer_stepE) (auto simp: queue_defs)
next
  assume "worker_step fmt lib s s'"
  then show ?thesis by (elim worker_stepE) (auto simp: queue_defs after_unit_def)
qed

definition demo_dirty :: "unit system" where
  "demo_dirty = (system_init ())\<lparr>sy_queue := mark_paths [''a.md''] queue_new, sy_pc := Draining\<rparr>"

lemma dirty_work_goes_to_a_unit_witness:
  "\<exists>s'. worker_step (\<lambda>_. []) demo_globs demo_dirty s'
     \<and> ''a.md'' \<in> qs_paths (rq_state (sy_queue demo_dirty))
     \<and> (\<exists>paths. unit_of (sy_pc s') = Some (Paths paths) \<and> ''a.md'' \<in> set paths)"
proof -
  have d: "drain (sy_queue demo_dirty) = (({''a.md''}, False), queue_new\<lparr>rq_permit := True\<rparr>)"
    by (simp add: demo_dirty_def mark_paths_def queue_defs)
  have t: "\<not> unit_touches_schema demo_globs demo_indexing (Paths [''a.md''])" by code_simp
  have pc: "sy_pc demo_dirty = Draining" by (simp add: demo_dirty_def)
  from DrainUnit [OF pc d _ _ _ refl, of "[''a.md'']" "\<lambda>_. []" demo_globs demo_indexing] t
  have w: "worker_step (\<lambda>_. []) demo_globs demo_dirty
      (demo_dirty\<lparr>sy_queue := queue_new\<lparr>rq_permit := True\<rparr>, sy_pc := Running (Paths [''a.md'']) 0\<rparr>)"
    by simp
  have i: "''a.md'' \<in> qs_paths (rq_state (sy_queue demo_dirty))"
    by (simp add: demo_dirty_def mark_paths_def queue_defs)
  show ?thesis
    using dirty_work_goes_to_a_unit [OF disjI2 [OF w], of "''a.md''"] w i by (auto simp: queue_new_def)
qed

text \<open>
  C26. Work dropped because a schema file is invalid is recovered: as long as no full reconcile has
  been run since, the error is still reported, or a full reconcile is queued or in the worker's hands,
  or the worker has just rebuilt the schema and is about to queue one. (Rebuilds that succeed outside
  the worker are not among the producers' steps.)
\<close>

theorem dropped_work_is_recovered:
  assumes "system_reach fmt lib cache s" "sy_dropped s"
  shows "schema_error (sy_status s) \<noteq> None \<or> qs_full (rq_state (sy_queue s))
     \<or> unit_of (sy_pc s) = Some FullReconcile \<or> (\<exists>u. sy_pc s = Rebuilt u True)"
  using recovery_inv_reach [OF assms(1)] assms(2) by (simp add: recovery_inv_def covered_def)

lemma dropped_work_is_recovered_witness: "\<exists>e. schema_error (sy_status demo_refused) = Some e"
proof -
  have "sy_dropped demo_refused" by (simp add: demo_refused_def)
  note covered = dropped_work_is_recovered [OF demo_refused_reach this]
  have "\<not> qs_full (rq_state (sy_queue demo_refused))" "unit_of (sy_pc demo_refused) = None"
    "sy_pc demo_refused = Draining"
    by (simp_all add: demo_refused_def queue_new_def)
  with covered show ?thesis by auto
qed

text \<open>
  C27. The retry loop of one unit always ends, after at most seven calls of the runner: between
  consecutive calls it sleeps 5, 10, 20, 40, 80 and 160 seconds in that order, it gives up only after
  the seventh call, and a unit it drops for an invalid schema leaves the schema error recorded.
\<close>

theorem retry_is_bounded:
  "case run_with_retry fmt unix run st of (ended, runs, sleeps, st') \<Rightarrow>
     runs \<le> 7 \<and> runs = Suc (length sleeps)
     \<and> sleeps = take (length sleeps) [5, 10, 20, 40, 80, 160]
     \<and> (ended = GaveUp \<longrightarrow> runs = 7)
     \<and> (ended = DroppedInvalidSchema \<longrightarrow> schema_error st' \<noteq> None)"
  using retry_loop_ok [of 0 fmt unix run st]
  by (auto simp: run_with_retry_def retry_ok_def retry_delays_def split: prod.splits)

definition demo_transient :: "nat \<Rightarrow> inner \<Rightarrow> run_error option \<times> inner" where
  "demo_transient i st = ((if i < 2 then Some [OtherCause ''connection refused''] else None), st)"

lemma retry_is_bounded_witness:
  "case run_with_retry (\<lambda>_. []) 7 demo_transient inner_default of (ended, runs, sleeps, st') \<Rightarrow> runs \<le> 7 \<and> sleeps = [5, 10]"
proof -
  have "schema_build_error [OtherCause ''connection refused''] = None"
      "\<not> is_permanent_failure [OtherCause ''connection refused'']" by code_simp+
  moreover have "backoff_for_attempt 1 = 5" "backoff_for_attempt 2 = 10" using backoff_table by simp_all
  ultimately have "fst (snd (snd (run_with_retry (\<lambda>_. []) 7 demo_transient inner_default))) = [5, 10]"
    by (simp add: run_with_retry_def retry_loop.simps demo_transient_def MAX_RETRY_ATTEMPTS_def)
  then show ?thesis using retry_is_bounded [of "\<lambda>_. []" 7 demo_transient inner_default] by (auto split: prod.splits)
qed

text \<open>
  A retry delay is between the base and the ceiling and never shrinks with the attempt number,
  for every 32-bit attempt number: the shift never overflows.
\<close>

theorem backoff_bounded_monotone:
  assumes "a \<le> b"
  shows "5 \<le> backoff_for_attempt a \<and> backoff_for_attempt a \<le> backoff_for_attempt b
     \<and> backoff_for_attempt b \<le> 300"
proof -
  have "unat (saturating_sub a 1) \<le> unat (saturating_sub b 1)"
    using assms by (simp add: unat_saturating_pred diff_le_mono word_le_nat_alt)
  then have "min (unat (saturating_sub a 1)) 10 \<le> min (unat (saturating_sub b 1)) 10" by simp
  then have "(2::nat) ^ min (unat (saturating_sub a 1)) 10 \<le> 2 ^ min (unat (saturating_sub b 1)) 10"
    by (rule power_increasing) simp
  moreover have "(1::nat) \<le> 2 ^ min (unat (saturating_sub a 1)) 10" by simp
  ultimately show ?thesis unfolding backoff_closed by linarith
qed

lemma backoff_bounded_monotone_witness:
  "backoff_for_attempt 3 \<le> backoff_for_attempt 4294967295 \<and> backoff_for_attempt 4294967295 \<le> 300"
  using backoff_bounded_monotone [of 3 4294967295] by simp

text \<open>
  The rebuild policy over any sequence of rebuild results: the shared cache is the last one that
  built (the initial one when none did), and the status shows an error exactly while the latest result
  is a refusal, since the first refusal of the current unbroken streak, naming the latest one's files.
\<close>

theorem rebuild_policy_tracks_streak:
  "case foldl (\<lambda>st (unix, built). snd (apply_rebuild fmt unix built st)) (cache, inner_default) rs of
     (shared, status) \<Rightarrow>
       shared = last (cache # concat (map (\<lambda>(unix, built). case built of Inl e \<Rightarrow> [] | Inr c \<Rightarrow> [c]) rs))
       \<and> (case schema_error status of
            None \<Rightarrow> refused_streak rs = []
          | Some e \<Rightarrow> refused_streak rs \<noteq> [] \<and> se_since_unix e = fst (hd (refused_streak rs))
              \<and> Some (se_files e) = snd (last (refused_streak rs)))"
proof -
  have run: "foldl (\<lambda>st (unix, built). snd (apply_rebuild fmt unix built st)) (c, st) rs
      = (last (c # concat (map (\<lambda>(unix, built). case built of Inl e \<Rightarrow> [] | Inr c \<Rightarrow> [c]) rs)),
         foldl (status_cell.result_step fmt) st (map refusal_of rs))" for c st
    by (induction rs arbitrary: c st)
      (auto simp: status_cell.result_step_def refusal_of_def last_Cons2 simp del: last.simps split: sum.splits)
  have "schema_error inner_default = None" by (simp add: schema_error_def inner_default_def)
  from status_cell.cell_after_results [OF this, of "map refusal_of rs" fmt]
  show ?thesis unfolding run refused_streak_def status_cell.streak_def by simp
qed

end
