(* ===== verification/Retrieval.thy ===== *)
theory Retrieval
  imports Headings Json "HOL-Library.Product_Lexorder" "HOL-Library.Sublist"
begin

text \<open>
  Reading a document: \<open>src/src/retrieval.rs\<close> from \<open>LineRange\<close> to \<open>document_view_json\<close>. Line ranges,
  the outline, the resolution of a section by line or by heading path, the climb to ancestors, the
  size caps, and the view a request is answered with. Every indexing and slicing operation of the
  source that can panic is an operation with a \<open>Panic\<close> outcome here.

  Parameters, in the record \<open>doc_env\<close>: the markdown parser, the case folding of \<open>unicase\<close>, the body
  that the frontmatter parser leaves, and the length of a JSON value's encoding.
\<close>

record doc_env =
  de_parser :: "string \<Rightarrow> (md_event \<times> nat) list"
  de_case_fold :: "string \<Rightarrow> string"
  de_body :: "string \<Rightarrow> string"
  de_json_len :: "json \<Rightarrow> nat"

section \<open>Line ranges\<close>

definition paginate :: "'a list \<Rightarrow> nat \<Rightarrow> nat \<Rightarrow> 'a list" where
  "paginate items offset limit =
     (let items = (if 0 < offset then drop (min offset (length items)) items else items)
      in take limit items)"

record line_range =
  lr_start :: nat
  lr_end :: "nat option"

datatype line_range_error =
    ZeroLine
  | Inverted nat nat
  | StartPastEnd nat nat

fun line_range_error_str :: "line_range_error \<Rightarrow> string" where
  "line_range_error_str ZeroLine = ''line numbers are 1-based; start_line and end_line must be 1 or greater''"
| "line_range_error_str (Inverted s e) =
     ''end_line ('' @ dec e @ '') is before start_line ('' @ dec s @ ''); the range is empty''"
| "line_range_error_str (StartPastEnd s t) =
     ''start_line ('' @ dec s @ '') is past the end of the document, which has '' @ dec t @ '' line(s)''"

definition line_range_new ::
    "nat option \<Rightarrow> nat option \<Rightarrow> (line_range_error, line_range option) outcome" where
  "line_range_new start_line end_line =
     (if start_line = None \<and> end_line = None then Ok None
      else if start_line = Some 0 \<or> end_line = Some 0 then Err ZeroLine
      else
        let start = (case start_line of None \<Rightarrow> 1 | Some s \<Rightarrow> s) in
        if (case end_line of Some e \<Rightarrow> e < start | None \<Rightarrow> False) then Err (Inverted start (the end_line))
        else Ok (Some \<lparr>lr_start = start, lr_end = end_line\<rparr>))"

record line_slice =
  ls_content :: string
  ls_start_line :: nat
  ls_end_line :: nat
  ls_total_lines :: nat
  ls_truncated :: bool

definition slice_partial :: "line_slice \<Rightarrow> bool" where
  "slice_partial s \<longleftrightarrow> 1 < ls_start_line s \<or> ls_end_line s < ls_total_lines s"

definition count_lines :: "string \<Rightarrow> nat" where
  "count_lines content = length (split_inclusive content)"

text \<open>Indexing a vector, and slicing one with \<open>[a..b]\<close>: both panic out of range.\<close>

definition at :: "'a list \<Rightarrow> nat \<Rightarrow> ('e, 'a) outcome" where
  "at xs i = (if i < length xs then Ok (xs ! i) else Panic)"

definition slice_list :: "'a list \<Rightarrow> nat \<Rightarrow> nat \<Rightarrow> ('e, 'a list) outcome" where
  "slice_list xs a b = (if a \<le> b \<and> b \<le> length xs then Ok (take (b - a) (drop a xs)) else Panic)"

definition slice_lines :: "string \<Rightarrow> line_range \<Rightarrow> (line_range_error, line_slice) outcome" where
  "slice_lines content lrange =
     (let ls = split_inclusive content; total_lines = length ls in
      if total_lines < lr_start lrange \<and> lr_start lrange \<noteq> 1
      then Err (StartPastEnd (lr_start lrange) total_lines)
      else if lr_start lrange = 0 then Panic
      else
        let end_line = min (case lr_end lrange of None \<Rightarrow> total_lines | Some e \<Rightarrow> e) total_lines in
        bind_outcome (slice_list ls (lr_start lrange - 1) end_line) (\<lambda>served.
        Ok \<lparr>ls_content = concat served, ls_start_line = lr_start lrange, ls_end_line = end_line,
            ls_total_lines = total_lines, ls_truncated = False\<rparr>))"

definition slice_or_whole ::
    "string \<Rightarrow> line_range option \<Rightarrow> (line_range_error, line_slice) outcome" where
  "slice_or_whole content lrange =
     (case lrange of
        Some r \<Rightarrow> slice_lines content r
      | None \<Rightarrow>
          let total_lines = count_lines content in
          Ok \<lparr>ls_content = content, ls_start_line = 1, ls_end_line = total_lines,
              ls_total_lines = total_lines, ls_truncated = False\<rparr>)"

section \<open>Outline\<close>

record outline_entry =
  oe_heading :: string
  oe_heading_path :: "string list"
  oe_level :: nat
  oe_line_start :: nat
  oe_line_end :: nat

definition preamble_entry :: "nat \<Rightarrow> nat \<Rightarrow> outline_entry" where
  "preamble_entry a b =
     \<lparr>oe_heading = [], oe_heading_path = [], oe_level = 0, oe_line_start = a, oe_line_end = b\<rparr>"

definition heading_entry :: "heading_tree \<Rightarrow> nat \<Rightarrow> nat \<Rightarrow> outline_entry" where
  "heading_entry tree offset i =
     (let h = ht_headings tree ! i in
      \<lparr>oe_heading = hd_text h, oe_heading_path = tree_path tree (Some i), oe_level = hd_level h,
       oe_line_start = hd_line h + offset, oe_line_end = hd_subtree_end h + offset\<rparr>)"

definition has_preamble :: "heading_tree \<Rightarrow> string \<Rightarrow> bool" where
  "has_preamble tree body \<longleftrightarrow>
     0 < preamble_end tree \<and> trim (slice body (byte_range (ht_lines tree) 1 (preamble_end tree))) \<noteq> []"

definition outline :: "doc_env \<Rightarrow> string \<Rightarrow> outline_entry list" where
  "outline env content =
     (let body = de_body env content;
          offset = body_line_offset content;
          tree = heading_tree_parse (de_parser env) body
      in (if has_preamble tree body then [preamble_entry (1 + offset) (preamble_end tree + offset)] else [])
         @ map (heading_entry tree offset) [0..<length (ht_headings tree)])"

definition outline_entry_json :: "outline_entry \<Rightarrow> json" where
  "outline_entry_json e =
     JObject [(''heading_path'', jstrings (oe_heading_path e)), (''level'', jnat (oe_level e)),
       (''line_end'', jnat (oe_line_end e)), (''line_start'', jnat (oe_line_start e))]"

section \<open>Finding a section\<close>

datatype section_selector = Line nat | HeadingPath "string list"

record section_candidate =
  sc_heading_path :: "string list"
  sc_line_start :: nat
  sc_line_end :: nat

datatype section_error =
    SectionNotFound "string list" "section_candidate list"
  | Ambiguous "section_candidate list"

definition candidate_str :: "section_candidate \<Rightarrow> string" where
  "candidate_str c = join '' > '' (sc_heading_path c) @ '' (lines '' @ dec (sc_line_start c) @ ''-''
     @ dec (sc_line_end c) @ '')''"

definition same_paths :: "doc_env \<Rightarrow> section_candidate list \<Rightarrow> bool" where
  "same_paths env cs =
     list_all (\<lambda>(a, b). map (normalize_heading_text (de_case_fold env)) (sc_heading_path a)
                      = map (normalize_heading_text (de_case_fold env)) (sc_heading_path b))
       (zip cs (tl cs))"

fun section_error_message :: "doc_env \<Rightarrow> section_error \<Rightarrow> string" where
  "section_error_message env (SectionNotFound hint candidates) =
     (if candidates \<noteq> []
      then ''No section matches the given line/heading_path. Did you mean: ''
        @ join ''; '' (map candidate_str candidates)
        @ ''? Pick one with `line` (see each candidate's line_start), or adjust heading_path to its full path.''
      else if hint = []
      then ''No section matches the given line/heading_path, and this document has no headings. Use `outline` to check.''
      else ''No section matches the given line/heading_path. This document's top-level headings: ''
        @ join '', '' hint @ ''. Use `outline` to see the full outline.'')"
| "section_error_message env (Ambiguous candidates) =
     ''heading_path matches multiple sections: '' @ join ''; '' (map candidate_str candidates) @ ''. ''
     @ (if same_paths env candidates
        then ''These sections all have the same heading_path; use `line` (see each candidate's line_start) to pick one.''
        else ''Use a longer heading_path to disambiguate.'')"

definition candidate_json :: "section_candidate \<Rightarrow> json" where
  "candidate_json c =
     JObject [(''heading_path'', jstrings (sc_heading_path c)), (''line_end'', jnat (sc_line_end c)),
       (''line_start'', jnat (sc_line_start c))]"

fun section_error_data :: "section_error \<Rightarrow> json" where
  "section_error_data (SectionNotFound hint candidates) =
     JObject [(''candidates'', JArray (map candidate_json candidates)), (''hint'', jstrings hint)]"
| "section_error_data (Ambiguous candidates) =
     JObject [(''candidates'', JArray (map candidate_json candidates))]"

definition NOT_FOUND_HINT_CAP :: nat where "NOT_FOUND_HINT_CAP = 5"

definition NOT_FOUND_CANDIDATE_CAP :: nat where "NOT_FOUND_CANDIDATE_CAP = 10"

definition top_level_hint :: "outline_entry list \<Rightarrow> string list" where
  "top_level_hint entries =
     take NOT_FOUND_HINT_CAP (map oe_heading
       (filter (\<lambda>e. oe_level e \<noteq> 0 \<and> length (oe_heading_path e) = 1) entries))"

text \<open>\<open>max_by_key\<close> gives the last of the maximal elements.\<close>

definition last_max :: "('a \<Rightarrow> nat) \<Rightarrow> 'a list \<Rightarrow> 'a option" where
  "last_max key xs = foldl (\<lambda>best x. case best of
       None \<Rightarrow> Some x
     | Some b \<Rightarrow> if key b \<le> key x then Some x else Some b) None xs"

definition find_deepest_containing :: "outline_entry list \<Rightarrow> nat \<Rightarrow> nat option" where
  "find_deepest_containing entries line =
     map_option fst (last_max (\<lambda>(i, e). oe_level e)
       (filter (\<lambda>(i, e). oe_line_start e \<le> line \<and> line \<le> oe_line_end e) (enumerate 0 entries)))"

definition candidates_for :: "outline_entry list \<Rightarrow> nat list \<Rightarrow> section_candidate list" where
  "candidates_for entries indices =
     map (\<lambda>i. \<lparr>sc_heading_path = oe_heading_path (entries ! i), sc_line_start = oe_line_start (entries ! i),
               sc_line_end = oe_line_end (entries ! i)\<rparr>) indices"

text \<open>The greedy scan; the first argument is the rest of the query (\<open>query[qi..]\<close>).\<close>

fun ordered_subsequence_match :: "(string \<Rightarrow> string \<Rightarrow> bool) \<Rightarrow> string list \<Rightarrow> string list \<Rightarrow> bool" where
  "ordered_subsequence_match eq [] path = True"
| "ordered_subsequence_match eq (q # qs) [] = False"
| "ordered_subsequence_match eq (q # qs) (p # ps) =
     (if eq p q then ordered_subsequence_match eq qs ps else ordered_subsequence_match eq (q # qs) ps)"

definition entry_path_norm :: "doc_env \<Rightarrow> outline_entry \<Rightarrow> string list" where
  "entry_path_norm env e = map (normalize_heading_text (de_case_fold env)) (oe_heading_path e)"

definition subsequence_candidates ::
    "doc_env \<Rightarrow> outline_entry list \<Rightarrow> string list \<Rightarrow> section_candidate list" where
  "subsequence_candidates env entries query_norm =
     (if query_norm = [] then []
      else
        let scored = concat (map (\<lambda>(i, e).
              if oe_level e = 0 \<or> length (oe_heading_path e) < length query_norm then []
              else if ordered_subsequence_match contains query_norm (entry_path_norm env e)
              then [(length (entry_path_norm env e) - length query_norm, i)] else [])
              (enumerate 0 entries));
            indices = take NOT_FOUND_CANDIDATE_CAP (map snd (sort scored))
        in candidates_for entries indices)"

definition is_exact :: "string list \<Rightarrow> string list \<Rightarrow> bool" where
  "is_exact path_norm query_norm \<longleftrightarrow> path_norm = query_norm"

definition is_suffix :: "string list \<Rightarrow> string list \<Rightarrow> bool" where
  "is_suffix path_norm query_norm \<longleftrightarrow> length query_norm \<le> length path_norm
     \<and> drop (length path_norm - length query_norm) path_norm = query_norm"

text \<open>One pass over the entries fills the three lists of matches.\<close>

definition classify_step ::
    "doc_env \<Rightarrow> string list \<Rightarrow> nat list \<times> nat list \<times> nat list \<Rightarrow> nat \<times> outline_entry
     \<Rightarrow> nat list \<times> nat list \<times> nat list" where
  "classify_step env query_norm acc ie =
     (case (acc, ie) of ((exact, ends, subsequence), (i, e)) \<Rightarrow>
        if oe_level e = 0 then acc
        else
          let path_norm = entry_path_norm env e in
          if is_exact path_norm query_norm then (exact @ [i], ends, subsequence)
          else if is_suffix path_norm query_norm then (exact, ends @ [i], subsequence)
          else if ordered_subsequence_match (=) query_norm path_norm
          then (exact, ends, subsequence @ [i])
          else acc)"

definition find_by_heading_path ::
    "doc_env \<Rightarrow> outline_entry list \<Rightarrow> string list \<Rightarrow> (section_error, nat) outcome" where
  "find_by_heading_path env entries query =
     (let query_norm = map (normalize_heading_text (de_case_fold env)) query in
      case foldl (classify_step env query_norm) ([], [], []) (enumerate 0 entries) of
        (exact_matches, suffix_matches, subsequence_matches) \<Rightarrow>
          if length exact_matches = 1 then Ok (hd exact_matches)
          else if 1 < length exact_matches then Err (Ambiguous (candidates_for entries exact_matches))
          else if length suffix_matches = 1 then Ok (hd suffix_matches)
          else if 1 < length suffix_matches then Err (Ambiguous (candidates_for entries suffix_matches))
          else if length subsequence_matches = 1 then Ok (hd subsequence_matches)
          else if 1 < length subsequence_matches
          then Err (Ambiguous (candidates_for entries subsequence_matches))
          else Err (SectionNotFound (top_level_hint entries) (subsequence_candidates env entries query_norm)))"

text \<open>The nearest preceding entry whose path is the entry's own without its last element.\<close>

definition find_parent_index :: "outline_entry list \<Rightarrow> nat \<Rightarrow> nat option" where
  "find_parent_index entries idx =
     (let path = oe_heading_path (entries ! idx) in
      if length path \<le> 1 then None
      else find (\<lambda>i. oe_heading_path (entries ! i) = butlast path) (rev [0..<idx]))"

definition descendants :: "outline_entry list \<Rightarrow> nat \<Rightarrow> outline_entry list" where
  "descendants entries idx =
     takeWhile (\<lambda>e. oe_level e \<noteq> 0 \<and> oe_line_start e \<le> oe_line_end (entries ! idx)) (drop (idx + 1) entries)"

fun climb :: "outline_entry list \<Rightarrow> nat \<Rightarrow> nat \<Rightarrow> nat" where
  "climb entries 0 idx = idx"
| "climb entries (Suc levels_up) idx =
     (case find_parent_index entries idx of
        Some parent_idx \<Rightarrow> climb entries levels_up parent_idx
      | None \<Rightarrow> idx)"

definition resolve_section_index ::
    "doc_env \<Rightarrow> outline_entry list \<Rightarrow> section_selector \<Rightarrow> nat \<Rightarrow> (section_error, nat) outcome" where
  "resolve_section_index env entries selector levels_up =
     bind_outcome
       (case selector of
          Line line \<Rightarrow>
            (case find_deepest_containing entries line of
               Some i \<Rightarrow> Ok i
             | None \<Rightarrow> Err (SectionNotFound (top_level_hint entries) []))
        | HeadingPath path \<Rightarrow> find_by_heading_path env entries path)
       (\<lambda>idx. Ok (climb entries levels_up idx))"

section \<open>Requests\<close>

record section_target =
  st_selector :: section_selector
  st_levels_up :: nat

datatype view_request =
    RangeRequest "line_range option"
  | SectionRequest section_target
  | OutlineRequest "section_target option"

definition parse_document_view_request ::
    "doc_env \<Rightarrow> nat option \<Rightarrow> nat option \<Rightarrow> nat option \<Rightarrow> string list option \<Rightarrow> nat option \<Rightarrow> bool
     \<Rightarrow> (string, view_request) outcome" where
  "parse_document_view_request env start_line end_line line heading_path levels_up outline_flag =
     (let has_range = (start_line \<noteq> None \<or> end_line \<noteq> None);
          has_line = (line \<noteq> None);
          has_heading_path = (heading_path \<noteq> None);
          has_section = (has_line \<or> has_heading_path)
      in
      if has_range \<and> (has_section \<or> outline_flag)
      then Err ''start_line/end_line are mutually exclusive with line/heading_path/outline; a whole-document range read and a section or outline lookup cannot both be requested. Provide one or the other.''
      else if has_line \<and> has_heading_path
      then Err ''line and heading_path are mutually exclusive; a section is resolved by line number or by heading path, not both.''
      else if levels_up \<noteq> None \<and> \<not> has_section
      then Err ''levels_up requires line or heading_path; it climbs from a resolved section, so a selector must be given too.''
      else if heading_path = Some []
      then Err ''heading_path was given but is empty; provide at least one heading name, or omit heading_path entirely.''
      else
        case (case heading_path of
                Some hp \<Rightarrow> find (\<lambda>i. normalize_heading_text (de_case_fold env) (hp ! i) = []) [0..<length hp]
              | None \<Rightarrow> None) of
          Some blank_index \<Rightarrow>
            Err (''heading_path['' @ dec blank_index @ ''] is empty or blank; every segment must be a non-blank heading name (whitespace and invisible characters alone are blank).'')
        | None \<Rightarrow>
            if line = Some 0 then Err ''line numbers are 1-based; line must be 1 or greater''
            else
              let target = map_option
                    (\<lambda>selector. \<lparr>st_selector = selector, st_levels_up = (case levels_up of None \<Rightarrow> 0 | Some n \<Rightarrow> n)\<rparr>)
                    (case (line, heading_path) of
                       (Some l, _) \<Rightarrow> Some (Line l)
                     | (None, Some path) \<Rightarrow> Some (HeadingPath path)
                     | (None, None) \<Rightarrow> None)
              in if outline_flag then Ok (OutlineRequest target)
                 else case target of
                   Some t \<Rightarrow> Ok (SectionRequest t)
                 | None \<Rightarrow>
                     bind_outcome (map_err line_range_error_str (line_range_new start_line end_line))
                       (\<lambda>lrange. Ok (RangeRequest lrange)))"

section \<open>Size caps\<close>

record outline_view =
  ov_section :: "outline_entry option"
  ov_entries :: "outline_entry list"
  ov_total_lines :: nat
  ov_total_entries :: nat
  ov_truncated :: bool
  ov_hint :: "string option"
  ov_document_oversized :: bool
  ov_intro :: "outline_entry option"

text \<open>How many of the sizes in order are admitted, from the number and the sum admitted so far.\<close>

fun admit :: "nat \<Rightarrow> nat \<Rightarrow> nat \<Rightarrow> nat list \<Rightarrow> nat" where
  "admit budget kept used [] = kept"
| "admit budget kept used (sz # sizes) =
     (if budget < used + sz \<and> 0 < kept then kept
      else admit budget (kept + 1) (used + sz) sizes)"

definition cap_hint :: "outline_entry list \<Rightarrow> nat list \<Rightarrow> nat \<Rightarrow> string" where
  "cap_hint entries order kept_count =
     (let depth = (\<lambda>i. length (oe_heading_path (entries ! i)));
          kept = take kept_count order;
          omitted = drop kept_count order;
          first_omitted = hd omitted;
          cut_depth = depth first_omitted;
          shallowest_kept = (if kept = [] then 0 else Min (set (map depth kept)));
          siblings_omitted = list_ex (\<lambda>i. depth i = cut_depth) kept;
          nested_omitted = list_ex (\<lambda>i. shallowest_kept < depth i) omitted
      in ''Showing '' @ dec kept_count @ '' of '' @ dec (length entries) @ '' headings, shallowest levels first.''
         @ (if nested_omitted
            then '' To see the headings nested under a listed one, call again with `outline` plus that heading's `heading_path` (or `line`).''
            else [])
         @ (if siblings_omitted
            then '' Some headings at the deepest listed level were left out as well, starting at line ''
              @ dec (oe_line_start (entries ! first_omitted))
              @ '': fetch one directly by `heading_path` or `line`, or read the raw lines from there with `start_line`/`end_line`.''
            else []))"

definition cap_outline ::
    "doc_env \<Rightarrow> outline_entry list \<Rightarrow> outline_entry option \<Rightarrow> nat \<Rightarrow> nat \<Rightarrow> outline_view" where
  "cap_outline env entries scope total_lines section_max_bytes =
     (let order = sort_key (\<lambda>i. (length (oe_heading_path (entries ! i)), i)) [0..<length entries];
          kept_count = admit section_max_bytes 0 0
            (map (\<lambda>i. de_json_len env (outline_entry_json (entries ! i))) order);
          truncated = (kept_count < length entries)
      in \<lparr>ov_section = scope,
          ov_entries = map (\<lambda>i. entries ! i) (sort (take kept_count order)),
          ov_total_lines = total_lines,
          ov_total_entries = length entries,
          ov_truncated = truncated,
          ov_hint = (if truncated then Some (cap_hint entries order kept_count) else None),
          ov_document_oversized = False,
          ov_intro = None\<rparr>)"

definition truncate_to_line_budget :: "string \<Rightarrow> nat \<Rightarrow> nat \<Rightarrow> string \<times> nat \<times> bool" where
  "truncate_to_line_budget content start_line max_bytes =
     (let ls = split_inclusive content;
          kept = admit max_bytes 0 0 (map length ls)
      in (concat (take kept ls), start_line + (kept - 1), kept < length ls))"

fun beyond_heading :: "bool \<Rightarrow> md_event list \<Rightarrow> bool" where
  "beyond_heading in_heading [] = False"
| "beyond_heading in_heading (Start (HeadingTag n) # es) = beyond_heading True es"
| "beyond_heading in_heading (End (HeadingTag n) # es) = beyond_heading False es"
| "beyond_heading in_heading (e # es) = (if in_heading then beyond_heading in_heading es else True)"

definition has_content_beyond_heading :: "doc_env \<Rightarrow> string \<Rightarrow> bool" where
  "has_content_beyond_heading env t = beyond_heading False (map fst (de_parser env t))"

section \<open>Views\<close>

record section_view =
  sv_entry :: outline_entry
  sv_content :: "string option"
  sv_outline_only :: bool
  sv_oversized :: bool
  sv_truncated :: bool
  sv_end_line :: nat
  sv_outline :: "outline_view option"
  sv_intro :: "outline_entry option"
  sv_total_lines :: nat
  sv_partial :: bool

datatype document_view = RangeView line_slice | SectionView section_view | OutlineView outline_view

datatype view_error = RangeError line_range_error | SectionError section_error

definition resolve_range ::
    "doc_env \<Rightarrow> string \<Rightarrow> line_range option \<Rightarrow> nat \<Rightarrow> (view_error, document_view) outcome" where
  "resolve_range env content lrange section_max_bytes =
     bind_outcome (map_err RangeError (slice_or_whole content lrange)) (\<lambda>slice.
     if lrange \<noteq> None \<or> length (ls_content slice) \<le> section_max_bytes then Ok (RangeView slice)
     else
       let entries = outline env content in
       case find (\<lambda>e. 0 < oe_level e) entries of
         None \<Rightarrow>
           (case truncate_to_line_budget (ls_content slice) (ls_start_line slice) section_max_bytes of
              (t, end_line, truncated) \<Rightarrow>
                Ok (RangeView (slice\<lparr>ls_content := t, ls_end_line := end_line, ls_truncated := truncated\<rparr>)))
       | Some first_heading \<Rightarrow>
           let first_heading_line = oe_line_start first_heading;
               view = (cap_outline env entries None (ls_total_lines slice) section_max_bytes)
                        \<lparr>ov_document_oversized := True\<rparr>
           in if 1 < first_heading_line
              then bind_outcome
                     (map_err RangeError (slice_lines content \<lparr>lr_start = 1, lr_end = Some (first_heading_line - 1)\<rparr>))
                     (\<lambda>intro. Ok (OutlineView (view\<lparr>ov_intro :=
                        (if has_content_beyond_heading env (ls_content intro)
                         then Some (preamble_entry 1 (first_heading_line - 1)) else None)\<rparr>)))
              else Ok (OutlineView view))"

definition resolve_section_view ::
    "doc_env \<Rightarrow> string \<Rightarrow> section_target \<Rightarrow> nat \<Rightarrow> (view_error, document_view) outcome" where
  "resolve_section_view env content target section_max_bytes =
     (let entries = outline env content in
      bind_outcome (map_err SectionError
        (resolve_section_index env entries (st_selector target) (st_levels_up target))) (\<lambda>idx.
      bind_outcome (at entries idx) (\<lambda>resolved.
      let total_lines = count_lines content in
      bind_outcome (map_err RangeError
        (slice_lines content \<lparr>lr_start = oe_line_start resolved, lr_end = Some (oe_line_end resolved)\<rparr>)) (\<lambda>slice.
      let partial = (1 < oe_line_start resolved \<or> oe_line_end resolved < total_lines);
          fits = (length (ls_content slice) \<le> section_max_bytes);
          nested = descendants entries idx
      in if fits \<or> nested = []
         then
           (case (if fits then (ls_content slice, ls_end_line slice, False)
                  else truncate_to_line_budget (ls_content slice) (ls_start_line slice) section_max_bytes) of
              (t, end_line, truncated) \<Rightarrow>
                Ok (SectionView
                  \<lparr>sv_entry = resolved, sv_content = Some t, sv_outline_only = False, sv_oversized = (\<not> fits),
                   sv_truncated = truncated, sv_end_line = end_line, sv_outline = None, sv_intro = None,
                   sv_total_lines = total_lines, sv_partial = partial\<rparr>))
         else
           bind_outcome (at nested 0) (\<lambda>first_nested.
           if oe_line_start first_nested = 0 then Panic
           else
             let intro_end = oe_line_start first_nested - 1 in
             bind_outcome (map_err RangeError
               (slice_lines content \<lparr>lr_start = oe_line_start resolved, lr_end = Some intro_end\<rparr>)) (\<lambda>intro_slice.
             Ok (SectionView
               \<lparr>sv_entry = resolved, sv_content = None, sv_outline_only = True, sv_oversized = False,
                sv_truncated = False, sv_end_line = oe_line_end resolved,
                sv_outline = Some (cap_outline env nested (Some resolved) total_lines section_max_bytes),
                sv_intro = (if has_content_beyond_heading env (ls_content intro_slice)
                            then Some (resolved\<lparr>oe_line_end := intro_end\<rparr>) else None),
                sv_total_lines = total_lines, sv_partial = partial\<rparr>)))))))"

definition resolve_document_view ::
    "doc_env \<Rightarrow> string \<Rightarrow> view_request \<Rightarrow> nat \<Rightarrow> (view_error, document_view) outcome" where
  "resolve_document_view env content request section_max_bytes =
     (case request of
        RangeRequest lrange \<Rightarrow> resolve_range env content lrange section_max_bytes
      | OutlineRequest None \<Rightarrow>
          Ok (OutlineView (cap_outline env (outline env content) None (count_lines content) section_max_bytes))
      | OutlineRequest (Some target) \<Rightarrow>
          (let entries = outline env content in
           bind_outcome (map_err SectionError
             (resolve_section_index env entries (st_selector target) (st_levels_up target))) (\<lambda>idx.
           bind_outcome (at entries idx) (\<lambda>e.
           Ok (OutlineView
             (cap_outline env (descendants entries idx) (Some e) (count_lines content) section_max_bytes)))))
      | SectionRequest target \<Rightarrow> resolve_section_view env content target section_max_bytes)"

text \<open>The response fields, in the order they are put.\<close>

definition outline_fields :: "outline_view \<Rightarrow> (string \<times> json) list" where
  "outline_fields v =
     [(''outline'', JArray (map outline_entry_json (ov_entries v)))]
     @ (if ov_truncated v
        then [(''truncated'', JBool True), (''total_entries'', jnat (ov_total_entries v))] else [])
     @ (case ov_hint v of Some h \<Rightarrow> [(''hint'', JString h)] | None \<Rightarrow> [])"

definition document_view_fields :: "document_view \<Rightarrow> (string \<times> json) list" where
  "document_view_fields view =
     (case view of
        RangeView sl \<Rightarrow>
          [(''content'', JString (ls_content sl))]
          @ (if slice_partial sl
             then [(''start_line'', jnat (ls_start_line sl)), (''end_line'', jnat (ls_end_line sl)),
                   (''partial'', JBool True)] else [])
          @ [(''total_lines'', jnat (ls_total_lines sl))]
          @ (if ls_truncated sl then [(''truncated'', JBool True)] else [])
      | OutlineView v \<Rightarrow>
          (case ov_section v of Some s \<Rightarrow> [(''section'', outline_entry_json s)] | None \<Rightarrow> [])
          @ (if ov_document_oversized v then [(''outline_only'', JBool True)] else [])
          @ outline_fields v
          @ (case ov_intro v of
               Some i \<Rightarrow> if ov_document_oversized v then [(''intro'', outline_entry_json i)] else []
             | None \<Rightarrow> [])
          @ [(''total_lines'', jnat (ov_total_lines v))]
      | SectionView s \<Rightarrow>
          [(''section'', outline_entry_json (sv_entry s))]
          @ (if sv_outline_only s then [(''outline_only'', JBool True)] else [])
          @ (case sv_outline s of
               Some v \<Rightarrow>
                 outline_fields v
                 @ (case sv_intro s of Some i \<Rightarrow> [(''intro'', outline_entry_json i)] | None \<Rightarrow> [])
             | None \<Rightarrow>
                 (if sv_oversized s then [(''oversized'', JBool True)] else [])
                 @ [(''content'', case sv_content s of Some t \<Rightarrow> JString t | None \<Rightarrow> JNull)]
                 @ (if sv_truncated s
                    then [(''truncated'', JBool True), (''end_line'', jnat (sv_end_line s))] else []))
          @ [(''total_lines'', jnat (sv_total_lines s))]
          @ (if sv_partial s then [(''partial'', JBool True)] else []))"

definition document_view_json :: "document_view \<Rightarrow> string \<rightharpoonup> json" where
  "document_view_json view = map_of (rev (document_view_fields view))"


section \<open>Slices\<close>

lemma slice_lines_no_panic:
  assumes "1 \<le> lr_start r" "\<And>e. lr_end r = Some e \<Longrightarrow> lr_start r \<le> e + 1"
  shows "slice_lines content r \<noteq> Panic"
  using assms by (auto simp: slice_lines_def Let_def slice_list_def split: option.splits)

lemma line_range_new_ok:
  "line_range_new a b = Ok (Some r) \<Longrightarrow> 1 \<le> lr_start r \<and> (\<forall>e. lr_end r = Some e \<longrightarrow> lr_start r \<le> e)"
  by (auto simp: line_range_new_def Let_def split: if_splits option.splits)

lemma admit_ge: "kept \<le> admit budget kept used sizes"
  by (induction budget kept used sizes rule: admit.induct) (auto simp: Suc_le_eq)

lemma admit_le: "admit budget kept used sizes \<le> kept + length sizes"
  by (induction budget kept used sizes rule: admit.induct) auto

lemma admit_first: "sizes \<noteq> [] \<Longrightarrow> 1 \<le> admit budget 0 0 sizes"
  using admit_ge [of 1 budget] by (cases sizes) auto

text \<open>The admitted sizes fit the budget, unless only one was admitted; the next one does not fit.\<close>

lemma admit_budget:
  assumes "0 < kept" "used \<le> budget \<or> kept = 1"
  shows "let n = admit budget kept used sizes - kept in
     (used + sum_list (take n sizes) \<le> budget \<or> (kept = 1 \<and> n = 0))
     \<and> (n < length sizes \<longrightarrow> budget < used + sum_list (take (Suc n) sizes))"
  using assms
proof (induction budget kept used sizes rule: admit.induct)
  case (2 budget kept used sz sizes)
  show ?case
  proof (cases "budget < used + sz")
    case True
    then show ?thesis using 2 by (auto simp: Let_def)
  next
    case False
    define n where "n = admit budget (kept + 1) (used + sz) sizes - (kept + 1)"
    have a: "admit budget kept used (sz # sizes) - kept = Suc n"
      using False admit_ge [of "kept + 1" budget "used + sz" sizes] by (simp add: n_def)
    have "(used + sz + sum_list (take n sizes) \<le> budget \<or> (kept + 1 = 1 \<and> n = 0))
     \<and> (n < length sizes \<longrightarrow> budget < used + sz + sum_list (take (Suc n) sizes))"
      using "2.IH" False by (auto simp: Let_def n_def)
    then show ?thesis unfolding a Let_def using 2 by (auto simp: add.assoc)
  qed
qed (auto simp: Let_def)

lemma admit_budget_0:
  assumes "sizes \<noteq> []"
  shows "let n = admit budget 0 0 sizes in
     1 \<le> n \<and> n \<le> length sizes \<and> (sum_list (take n sizes) \<le> budget \<or> n = 1)
     \<and> (n < length sizes \<longrightarrow> budget < sum_list (take (Suc n) sizes))"
proof -
  obtain s ss where s: "sizes = s # ss" using assms by (cases sizes) auto
  have g: "1 \<le> admit budget 1 s ss" by (rule admit_ge)
  have e: "admit budget 0 0 sizes = Suc (admit budget 1 s ss - 1)" using g by (simp add: s)
  have l: "admit budget 0 0 sizes \<le> length sizes" using admit_le [of budget 0 0 sizes] by simp
  show ?thesis
    using admit_budget [of 1 s budget ss] l unfolding e Let_def by (auto simp: s)
qed

section \<open>The outline\<close>

lemma tree_path_length: "length (tree_path (heading_tree_parse parser body) (Some i)) \<noteq> 0
    \<or> length (ht_headings (heading_tree_parse parser body)) \<le> i"
  using tree_path_Some [of i parser body] by (cases "i < length (ht_headings (heading_tree_parse parser body))") auto

lemma heading_entry_simps [simp]:
  "oe_heading_path (heading_entry tree offset i) = tree_path tree (Some i)"
  "oe_level (heading_entry tree offset i) = hd_level (ht_headings tree ! i)"
  "oe_line_start (heading_entry tree offset i) = hd_line (ht_headings tree ! i) + offset"
  "oe_line_end (heading_entry tree offset i) = hd_subtree_end (ht_headings tree ! i) + offset"
  by (auto simp: heading_entry_def Let_def)

lemma preamble_entry_simps [simp]:
  "oe_heading_path (preamble_entry a b) = []" "oe_level (preamble_entry a b) = 0"
  "oe_line_start (preamble_entry a b) = a" "oe_line_end (preamble_entry a b) = b"
  by (auto simp: preamble_entry_def)

definition doc_tree :: "doc_env \<Rightarrow> string \<Rightarrow> heading_tree" where
  "doc_tree env content = heading_tree_parse (de_parser env) (de_body env content)"

definition pre_len :: "doc_env \<Rightarrow> string \<Rightarrow> nat" where
  "pre_len env content = (if has_preamble (doc_tree env content) (de_body env content) then 1 else 0)"

lemma outline_length: "length (outline env content) = pre_len env content + length (ht_headings (doc_tree env content))"
  by (simp add: outline_def Let_def pre_len_def doc_tree_def)

lemma outline_heading:
  assumes "pre_len env content \<le> k" "k < length (outline env content)"
  shows "outline env content ! k
    = heading_entry (doc_tree env content) (body_line_offset content) (k - pre_len env content)"
  using assms by (auto simp: outline_def Let_def pre_len_def doc_tree_def nth_append split: if_splits)

lemma outline_preamble:
  assumes "k < pre_len env content"
  shows "outline env content ! k
    = preamble_entry (1 + body_line_offset content) (preamble_end (doc_tree env content) + body_line_offset content)"
  using assms by (auto simp: outline_def Let_def pre_len_def doc_tree_def split: if_splits)

lemma doc_tree_wf: "headings_wf (tree_line_count (doc_tree env content)) (ht_headings (doc_tree env content))"
  unfolding doc_tree_def by (rule heading_tree_parse_wf)

lemma preamble_before:
  assumes "has_preamble (doc_tree env content) (de_body env content)" "i < length (ht_headings (doc_tree env content))"
  shows "preamble_end (doc_tree env content) < hd_line (ht_headings (doc_tree env content) ! i)"
proof (cases "ht_headings (doc_tree env content)")
  case (Cons h hs)
  have "hd_line (ht_headings (doc_tree env content) ! 0) \<le> hd_line (ht_headings (doc_tree env content) ! i)"
    using headings_wf_lines [OF doc_tree_wf, of 0 i env content] assms(2) by (cases i) auto
  moreover have "preamble_end (doc_tree env content) < hd_line (ht_headings (doc_tree env content) ! 0)"
    using assms(1) Cons by (auto simp: preamble_end_def has_preamble_def)
  ultimately show ?thesis by linarith
qed (use assms in simp)

lemma outline_lines:
  assumes "k < length (outline env content)"
  shows "1 \<le> oe_line_start (outline env content ! k)
    \<and> oe_line_start (outline env content ! k) \<le> oe_line_end (outline env content ! k)"
proof (cases "k < pre_len env content")
  case True
  then have "has_preamble (doc_tree env content) (de_body env content)" by (simp add: pre_len_def split: if_splits)
  then show ?thesis by (simp add: outline_preamble [OF True] has_preamble_def)
next
  case False
  then have "k - pre_len env content < length (ht_headings (doc_tree env content))"
    using assms by (simp add: outline_length)
  then show ?thesis
    using headings_wf_ranges [OF doc_tree_wf] headings_wf_basic [OF doc_tree_wf] False assms
    by (fastforce simp: outline_heading)
qed

lemma outline_sorted:
  assumes "j < k" "k < length (outline env content)"
  shows "oe_line_start (outline env content ! j) < oe_line_start (outline env content ! k)"
proof -
  let ?p = "pre_len env content" and ?hs = "ht_headings (doc_tree env content)"
  have k: "?p \<le> k" using assms by (auto simp: pre_len_def split: if_splits)
  then have ki: "k - ?p < length ?hs" using assms(2) by (simp add: outline_length)
  show ?thesis
  proof (cases "j < ?p")
    case True
    then have "has_preamble (doc_tree env content) (de_body env content)" by (simp add: pre_len_def split: if_splits)
    then have "preamble_end (doc_tree env content) < hd_line (?hs ! (k - ?p))" using ki by (rule preamble_before)
    moreover have "0 < preamble_end (doc_tree env content)"
      using \<open>has_preamble _ _\<close> by (simp add: has_preamble_def)
    ultimately show ?thesis by (simp add: outline_preamble [OF True] outline_heading [OF k assms(2)])
  next
    case False
    then have "hd_line (?hs ! (j - ?p)) < hd_line (?hs ! (k - ?p))"
      using headings_wf_lines [OF doc_tree_wf, of "j - ?p" "k - ?p" env content] assms(1) k ki by auto
    then show ?thesis using False assms k by (simp add: outline_heading)
  qed
qed

section \<open>Resolution stays inside the outline\<close>

lemma last_max_in: "last_max key xs = Some x \<Longrightarrow> x \<in> set xs"
proof -
  have "foldl (\<lambda>best x. case best of None \<Rightarrow> Some x | Some b \<Rightarrow> if key b \<le> key x then Some x else Some b) acc xs = Some x
      \<Longrightarrow> x \<in> set xs \<or> acc = Some x" for acc
    by (induction xs arbitrary: acc) (fastforce split: option.splits if_splits)+
  then show "last_max key xs = Some x \<Longrightarrow> x \<in> set xs" unfolding last_max_def by fastforce
qed

lemma find_deepest_less: "find_deepest_containing entries line = Some i \<Longrightarrow> i < length entries"
  by (auto simp: find_deepest_containing_def in_set_enumerate_eq dest!: last_max_in)

definition class_inv :: "doc_env \<Rightarrow> string list \<Rightarrow> (nat \<times> outline_entry) list
    \<Rightarrow> nat list \<times> nat list \<times> nat list \<Rightarrow> bool" where
  "class_inv env q ies acc \<longleftrightarrow> (case acc of (ex, su, sb) \<Rightarrow>
     ex = map fst (filter (\<lambda>(i, e). oe_level e \<noteq> 0 \<and> is_exact (entry_path_norm env e) q) ies)
     \<and> su = map fst (filter (\<lambda>(i, e). oe_level e \<noteq> 0 \<and> \<not> is_exact (entry_path_norm env e) q
          \<and> is_suffix (entry_path_norm env e) q) ies)
     \<and> sb = map fst (filter (\<lambda>(i, e). oe_level e \<noteq> 0 \<and> \<not> is_exact (entry_path_norm env e) q
          \<and> \<not> is_suffix (entry_path_norm env e) q
          \<and> ordered_subsequence_match (=) q (entry_path_norm env e)) ies))"

lemma classify_step_inv:
  "class_inv env q ies acc \<Longrightarrow> class_inv env q (ies @ [ie]) (classify_step env q acc ie)"
  by (cases acc; cases ie) (auto simp: class_inv_def classify_step_def Let_def)

lemma classify_inv: "class_inv env q ies (foldl (classify_step env q) ([], [], []) ies)"
  by (induction ies rule: rev_induct) (simp add: class_inv_def, simp add: classify_step_inv)

lemma hd_singleton: "length xs = 1 \<Longrightarrow> hd xs \<in> set xs"
  by (cases xs) auto

lemma find_in: "find P xs = Some x \<Longrightarrow> x \<in> set xs \<and> P x"
  by (induction xs) (auto split: if_splits)

lemma find_by_heading_path_less: "find_by_heading_path env entries q = Ok i \<Longrightarrow> i < length entries"
proof -
  assume a: "find_by_heading_path env entries q = Ok i"
  let ?q = "map (normalize_heading_text (de_case_fold env)) q"
  obtain ex su sb where f: "foldl (classify_step env ?q) ([], [], []) (enumerate 0 entries) = (ex, su, sb)"
    by (metis prod_cases3)
  have "class_inv env ?q (enumerate 0 entries) (ex, su, sb)" using classify_inv [of env ?q] f by metis
  then have "set ex \<union> set su \<union> set sb \<subseteq> {..<length entries}"
    by (auto simp: class_inv_def in_set_enumerate_eq)
  moreover have "i \<in> set ex \<union> set su \<union> set sb"
    using a hd_singleton [of ex] hd_singleton [of su] hd_singleton [of sb]
    by (auto simp: find_by_heading_path_def Let_def f split: if_splits)
  ultimately show ?thesis by auto
qed

lemma find_parent_less: "find_parent_index entries idx = Some p \<Longrightarrow> p < idx"
  by (auto simp: find_parent_index_def Let_def split: if_splits dest!: find_in)

lemma climb_le: "climb entries n idx \<le> idx"
proof (induction entries n idx rule: climb.induct)
  case (2 entries n idx)
  show ?case
  proof (cases "find_parent_index entries idx")
    case (Some p)
    then show ?thesis using 2 find_parent_less [OF Some] by force
  qed simp
qed simp

lemma resolve_section_index_less:
  "resolve_section_index env entries sel n = Ok idx \<Longrightarrow> idx < length entries"
  using climb_le [of entries n]
  by (auto simp: resolve_section_index_def bind_outcome_Ok_iff split: section_selector.splits option.splits
      dest!: find_deepest_less find_by_heading_path_less intro: le_less_trans)


section \<open>No panic\<close>

lemma find_by_heading_path_no_panic: "find_by_heading_path env entries q \<noteq> Panic"
  by (auto simp: find_by_heading_path_def Let_def split: prod.splits if_splits)

lemma resolve_section_index_no_panic: "resolve_section_index env entries sel n \<noteq> Panic"
  by (auto simp: resolve_section_index_def bind_outcome_Panic_iff find_by_heading_path_no_panic
      split: section_selector.splits option.splits)

lemma resolve_range_no_panic:
  assumes "\<And>r. lrange = Some r \<Longrightarrow> 1 \<le> lr_start r \<and> (\<forall>e. lr_end r = Some e \<longrightarrow> lr_start r \<le> e)"
  shows "resolve_range env content lrange m \<noteq> Panic"
proof -
  have "slice_or_whole content lrange \<noteq> Panic"
  proof (cases lrange)
    case (Some r)
    then show ?thesis
      using assms [OF Some] slice_lines_no_panic [of r content] by (fastforce simp: slice_or_whole_def)
  qed (simp add: slice_or_whole_def Let_def)
  moreover have "slice_lines content \<lparr>lr_start = 1, lr_end = Some (k - 1)\<rparr> \<noteq> Panic" for k
    by (rule slice_lines_no_panic) auto
  ultimately show ?thesis
    by (auto simp: resolve_range_def Let_def bind_outcome_Panic_iff map_err_Panic_iff
        split: option.splits prod.splits if_splits simp del: One_nat_def)
qed

lemma descendants_first:
  assumes "descendants entries idx \<noteq> []"
  shows "idx + 1 < length entries \<and> hd (descendants entries idx) = entries ! (idx + 1)"
proof -
  obtain a as where d: "drop (idx + 1) entries = a # as"
    using assms by (cases "drop (idx + 1) entries") (auto simp: descendants_def)
  then have l: "idx + 1 < length entries" by (metis drop_all list.distinct(1) not_le)
  then have "a = entries ! (idx + 1)" using d hd_drop_conv_nth [of "idx + 1" entries] by simp
  then show ?thesis using l d assms by (auto simp: descendants_def split: if_splits)
qed

lemma at_0: "xs \<noteq> [] \<Longrightarrow> at xs 0 = Ok (hd xs)"
  by (cases xs) (auto simp: at_def)

lemma resolve_section_view_no_panic: "resolve_section_view env content target m \<noteq> Panic"
proof
  assume panic: "resolve_section_view env content target m = Panic"
  let ?es = "outline env content"
  from panic resolve_section_index_no_panic obtain idx where
    idx: "resolve_section_index env ?es (st_selector target) (st_levels_up target) = Ok idx"
    by (auto simp: resolve_section_view_def Let_def bind_outcome_Panic_iff map_err_Panic_iff map_err_Ok_iff)
  have less: "idx < length ?es" by (rule resolve_section_index_less [OF idx])
  define e where "e = ?es ! idx"
  have e: "at ?es idx = Ok e" for e' :: view_error using less by (simp add: at_def e_def)
  have el: "1 \<le> oe_line_start e" "oe_line_start e \<le> oe_line_end e"
    using outline_lines [OF less] by (auto simp: e_def)
  have s1: "slice_lines content \<lparr>lr_start = oe_line_start e, lr_end = Some (oe_line_end e)\<rparr> \<noteq> Panic"
    by (rule slice_lines_no_panic) (use el in auto)
  have nested: "at (descendants ?es idx) 0 = Ok (hd (descendants ?es idx))
      \<and> oe_line_start (hd (descendants ?es idx)) \<noteq> 0
      \<and> slice_lines content \<lparr>lr_start = oe_line_start e,
          lr_end = Some (oe_line_start (hd (descendants ?es idx)) - 1)\<rparr> \<noteq> Panic"
    if "descendants ?es idx \<noteq> []"
  proof -
    note d = descendants_first [OF that]
    have lt: "oe_line_start e < oe_line_start (hd (descendants ?es idx))"
      using outline_sorted [of idx "idx + 1" env content] d by (simp add: e_def)
    have "slice_lines content \<lparr>lr_start = oe_line_start e,
        lr_end = Some (oe_line_start (hd (descendants ?es idx)) - 1)\<rparr> \<noteq> Panic"
      by (rule slice_lines_no_panic) (use el lt in auto)
    then show ?thesis using at_0 [OF that] lt by auto
  qed
  show False
    using panic less el s1 nested
    by (auto simp: resolve_section_view_def Let_def idx at_def e_def [symmetric] bind_outcome_Panic_iff
        map_err_Panic_iff split: if_splits prod.splits)
qed

lemma resolve_view_no_panic:
  assumes "\<And>r. request = RangeRequest (Some r) \<Longrightarrow>
    1 \<le> lr_start r \<and> (\<forall>e. lr_end r = Some e \<longrightarrow> lr_start r \<le> e)"
  shows "resolve_document_view env content request m \<noteq> Panic"
proof (cases request)
  case (RangeRequest lrange)
  then show ?thesis using assms by (simp add: resolve_document_view_def resolve_range_no_panic)
next
  case (SectionRequest target)
  then show ?thesis by (simp add: resolve_document_view_def resolve_section_view_no_panic)
next
  case (OutlineRequest target)
  then show ?thesis
    by (auto simp: resolve_document_view_def Let_def bind_outcome_Panic_iff map_err_Panic_iff map_err_Ok_iff
        resolve_section_index_no_panic at_def split: option.splits dest!: resolve_section_index_less)
qed

section \<open>Climbing the outline\<close>

lemma find_rev_upt_iff:
  "find P (rev [0..<k]) = Some m \<longleftrightarrow> m < k \<and> P m \<and> (\<forall>j. m < j \<and> j < k \<longrightarrow> \<not> P j)"
proof (induction k)
  case (Suc k)
  then show ?case by (auto simp: less_Suc_eq)
qed simp

lemma anc_tree_path:
  fixes parser body
  defines "t \<equiv> heading_tree_parse parser body"
  shows "anc (parent_of (ht_headings t)) c i \<Longrightarrow> i < length (ht_headings t) \<Longrightarrow>
    length (tree_path t (Some c)) + (if c = i then 0 else 1) \<le> length (tree_path t (Some i))"
proof (induction rule: anc.induct)
  case (anc_step i p c)
  have p: "hd_parent (ht_headings t ! i) = Some p" "p < i"
    using anc_step headings_wf_parent [OF heading_tree_parse_wf [of parser body], of i]
    by (auto simp: parent_of_def t_def split: if_splits option.splits)
  have "tree_path t (Some i) = tree_path t (Some p) @ [hd_text (ht_headings t ! i)]"
    using tree_path_Some [of i parser body] anc_step.prems p by (simp add: t_def)
  then show ?case using anc_step p by (auto split: if_splits)
qed simp

lemma find_parent_is_parent:
  fixes env content
  defines "t \<equiv> doc_tree env content" and "p0 \<equiv> pre_len env content"
  assumes "i < length (ht_headings t)"
  shows "find_parent_index (outline env content) (p0 + i) = map_option ((+) p0) (hd_parent (ht_headings t ! i))"
proof -
  let ?es = "outline env content"
  have len: "p0 + i < length ?es" using assms(3) by (simp add: outline_length t_def p0_def)
  have path: "oe_heading_path (?es ! (p0 + j)) = tree_path t (Some j)" if "j \<le> i" for j
    using that len by (simp add: outline_heading p0_def t_def)
  have pi: "tree_path t (Some i) = tree_path t (hd_parent (ht_headings t ! i)) @ [hd_text (ht_headings t ! i)]"
    using tree_path_Some [of i "de_parser env" "de_body env content"] assms(3) by (simp add: t_def doc_tree_def)
  note wfp = headings_wf_parent [OF doc_tree_wf [of env content, folded t_def] assms(3)]
  show ?thesis
  proof (cases "hd_parent (ht_headings t ! i)")
    case None
    then show ?thesis using pi path [of i] by (simp add: find_parent_index_def Let_def)
  next
    case (Some p)
    then have p: "p < i" "hd_level (ht_headings t ! p) < hd_level (ht_headings t ! i)"
      "\<forall>k. p < k \<and> k < i \<longrightarrow> hd_level (ht_headings t ! i) \<le> hd_level (ht_headings t ! k)"
      using wfp by auto
    have nonempty: "tree_path t (Some p) \<noteq> []"
      using tree_path_length [of "de_parser env" "de_body env content" p] p(1) assms(3)
      by (auto simp: t_def doc_tree_def)
    have no: "oe_heading_path (?es ! j) \<noteq> tree_path t (Some p)" if "p0 + p < j" "j < p0 + i" for j
    proof -
      define k where "k = j - p0"
      have k: "p < k" "k < i" "j = p0 + k" using that by (auto simp: k_def)
      have "anc (parent_of (ht_headings t)) p k"
        using anc_levels [OF doc_tree_wf [of env content, folded t_def], of k p] k p assms(3) by fastforce
      then have "length (tree_path t (Some p)) < length (tree_path t (Some k))"
        using anc_tree_path [of "de_parser env" "de_body env content" p k] k assms(3) by (simp add: t_def doc_tree_def)
      then show ?thesis using path [of k] k by auto
    qed
    have "find (\<lambda>j. oe_heading_path (?es ! j) = tree_path t (Some p)) (rev [0..<p0 + i]) = Some (p0 + p)"
      unfolding find_rev_upt_iff using p(1) path [of p] no by auto
    then show ?thesis
      using pi path [of i] Some nonempty by (simp add: find_parent_index_def Let_def)
  qed
qed

lemma climb_path:
  fixes env content
  defines "t \<equiv> doc_tree env content" and "p0 \<equiv> pre_len env content"
  shows "i < length (ht_headings t) \<Longrightarrow>
    \<exists>c. climb (outline env content) n (p0 + i) = p0 + c \<and> anc (parent_of (ht_headings t)) c i
      \<and> tree_path t (Some c) = take (max 1 (length (tree_path t (Some i)) - n)) (tree_path t (Some i))"
proof (induction n arbitrary: i)
  case 0
  then have "length (tree_path t (Some i)) \<noteq> 0"
    using tree_path_length [of "de_parser env" "de_body env content" i] by (simp add: t_def doc_tree_def)
  then show ?case by (intro exI [of _ i]) (auto intro: anc_refl simp: max_def)
next
  case (Suc n)
  note parent = find_parent_is_parent [of i env content, folded t_def p0_def, OF Suc.prems]
  have pi: "tree_path t (Some i) = tree_path t (hd_parent (ht_headings t ! i)) @ [hd_text (ht_headings t ! i)]"
    using tree_path_Some [of i "de_parser env" "de_body env content"] Suc.prems by (simp add: t_def doc_tree_def)
  show ?case
  proof (cases "hd_parent (ht_headings t ! i)")
    case None
    then show ?thesis using parent pi by (intro exI [of _ i]) (auto intro: anc_refl)
  next
    case (Some p)
    have p: "p < i" using headings_wf_parent [OF doc_tree_wf [of env content, folded t_def] Suc.prems] Some by simp
    obtain c where c: "climb (outline env content) n (p0 + p) = p0 + c" "anc (parent_of (ht_headings t)) c p"
        "tree_path t (Some c) = take (max 1 (length (tree_path t (Some p)) - n)) (tree_path t (Some p))"
      using Suc.IH [of p] p Suc.prems by auto
    have "1 \<le> length (tree_path t (Some p))"
      using tree_path_length [of "de_parser env" "de_body env content" p] p Suc.prems
      by (auto simp: t_def doc_tree_def Suc_le_eq)
    then have "tree_path t (Some c) = take (max 1 (length (tree_path t (Some i)) - Suc n)) (tree_path t (Some i))"
      using c(3) pi Some by (simp add: max_def split: if_splits)
    moreover have "parent_of (ht_headings t) i = Some p" using Some Suc.prems by (simp add: parent_of_def)
    ultimately show ?thesis using c parent Some by (intro exI [of _ c]) (auto intro: anc_step)
  qed
qed


section \<open>Tiers\<close>

text \<open>The tier at which a path matches a query: exact, suffix, subsequence, or (3) not at all.\<close>

definition match_tier :: "string list \<Rightarrow> string list \<Rightarrow> nat" where
  "match_tier path_norm query_norm =
     (if is_exact path_norm query_norm then 0
      else if is_suffix path_norm query_norm then 1
      else if ordered_subsequence_match (=) query_norm path_norm then 2
      else 3)"

lemma subsequence_match_subseq: "ordered_subsequence_match (=) q p \<longleftrightarrow> subseq q p"
  by (induction "(=) :: string \<Rightarrow> string \<Rightarrow> bool" q p rule: ordered_subsequence_match.induct) auto

definition tier_indices :: "doc_env \<Rightarrow> outline_entry list \<Rightarrow> string list \<Rightarrow> nat \<Rightarrow> nat list" where
  "tier_indices env entries q t =
     filter (\<lambda>i. oe_level (entries ! i) \<noteq> 0 \<and> match_tier (entry_path_norm env (entries ! i)) q = t)
       [0..<length entries]"

lemma map_fst_filter_enumerate:
  "map fst (filter (\<lambda>(i, e). P e) (enumerate 0 xs)) = filter (\<lambda>i. P (xs ! i)) [0..<length xs]"
proof (induction xs rule: rev_induct)
  case (snoc x xs)
  have "filter (\<lambda>i. P ((xs @ [x]) ! i)) [0..<length xs] = filter (\<lambda>i. P (xs ! i)) [0..<length xs]"
    by (rule filter_cong) (auto simp: nth_append)
  then show ?case using snoc by (simp add: enumerate_append_eq)
qed simp

lemma classify_tiers:
  "foldl (classify_step env q) ([], [], []) (enumerate 0 entries)
     = (tier_indices env entries q 0, tier_indices env entries q 1, tier_indices env entries q 2)"
proof -
  obtain ex su sb where f: "foldl (classify_step env q) ([], [], []) (enumerate 0 entries) = (ex, su, sb)"
    by (metis prod_cases3)
  have "class_inv env q (enumerate 0 entries) (ex, su, sb)"
    using classify_inv [of env q "enumerate 0 entries"] f by simp
  then show ?thesis
    unfolding f class_inv_def tier_indices_def match_tier_def
    by (auto simp: map_fst_filter_enumerate split: if_splits intro!: filter_cong)
qed

lemma tier_singleton:
  "length (tier_indices env entries q t) = 1 \<and> hd (tier_indices env entries q t) = i \<longleftrightarrow>
   (\<forall>j. (j < length entries \<and> oe_level (entries ! j) \<noteq> 0 \<and> match_tier (entry_path_norm env (entries ! j)) q = t)
     \<longleftrightarrow> j = i)"
proof -
  let ?l = "tier_indices env entries q t"
  have d: "distinct ?l" by (simp add: tier_indices_def)
  have "length ?l = 1 \<and> hd ?l = i \<longleftrightarrow> set ?l = {i}"
  proof
    assume "length ?l = 1 \<and> hd ?l = i"
    then show "set ?l = {i}" by (cases ?l) auto
  next
    assume s: "set ?l = {i}"
    then have "length ?l = 1" using distinct_card [OF d] by simp
    then show "length ?l = 1 \<and> hd ?l = i" using s by (cases ?l) auto
  qed
  also have "\<dots> \<longleftrightarrow> (\<forall>j. j \<in> set ?l \<longleftrightarrow> j = i)" by auto
  finally show ?thesis by (simp add: tier_indices_def)
qed

lemma tier_empty:
  "length (tier_indices env entries q t) = 0 \<longleftrightarrow>
   (\<forall>j<length entries. oe_level (entries ! j) \<noteq> 0 \<longrightarrow> match_tier (entry_path_norm env (entries ! j)) q \<noteq> t)"
  unfolding length_0_conv tier_indices_def filter_empty_conv set_upt Ball_def atLeastLessThan_iff by auto

lemma find_by_heading_path_iff:
  fixes env entries query
  defines "tier \<equiv> \<lambda>j. match_tier (entry_path_norm env (entries ! j)) (map (normalize_heading_text (de_case_fold env)) query)"
  shows "find_by_heading_path env entries query = Ok i \<longleftrightarrow>
    i < length entries \<and> oe_level (entries ! i) \<noteq> 0 \<and> tier i < 3
    \<and> (\<forall>j<length entries. j \<noteq> i \<longrightarrow> oe_level (entries ! j) \<noteq> 0 \<longrightarrow> tier i < tier j)"
proof -
  define q where "q = map (normalize_heading_text (de_case_fold env)) query"
  let ?t = "tier_indices env entries q"
  define Q where "Q j \<longleftrightarrow> j < length entries \<and> oe_level (entries ! j) \<noteq> 0" for j
  have t3: "tier j \<le> 3" for j by (simp add: tier_def match_tier_def)
  have one: "length (?t t) = 1 \<and> hd (?t t) = i \<longleftrightarrow> (\<forall>j. Q j \<and> tier j = t \<longleftrightarrow> j = i)" for t
    unfolding tier_singleton Q_def tier_def q_def by blast
  have none: "length (?t t) = 0 \<longleftrightarrow> (\<forall>j. Q j \<longrightarrow> tier j \<noteq> t)" for t
    unfolding tier_empty Q_def tier_def q_def by blast
  have "find_by_heading_path env entries query = Ok i \<longleftrightarrow>
      (length (?t 0) = 1 \<and> hd (?t 0) = i)
      \<or> (length (?t 0) = 0 \<and> length (?t 1) = 1 \<and> hd (?t 1) = i)
      \<or> (length (?t 0) = 0 \<and> length (?t 1) = 0 \<and> length (?t 2) = 1 \<and> hd (?t 2) = i)"
  proof -
    define A B C where "A = ?t 0" and "B = ?t 1" and "C = ?t 2"
    show ?thesis
      unfolding find_by_heading_path_def Let_def q_def [symmetric] classify_tiers
        A_def [symmetric] B_def [symmetric] C_def [symmetric]
      by (cases A; cases "tl A"; cases B; cases "tl B"; cases C; cases "tl C") auto
  qed
  also have "\<dots> \<longleftrightarrow> Q i \<and> tier i < 3 \<and> (\<forall>j. j \<noteq> i \<longrightarrow> Q j \<longrightarrow> tier i < tier j)"
    unfolding one none
  proof -
    have c: "tier j = 0 \<or> tier j = 1 \<or> tier j = 2 \<or> tier j = 3" for j using t3 [of j] by auto
    show "((\<forall>j. (Q j \<and> tier j = 0) = (j = i))
        \<or> (\<forall>j. Q j \<longrightarrow> tier j \<noteq> 0) \<and> (\<forall>j. (Q j \<and> tier j = 1) = (j = i))
        \<or> (\<forall>j. Q j \<longrightarrow> tier j \<noteq> 0) \<and> (\<forall>j. Q j \<longrightarrow> tier j \<noteq> 1) \<and> (\<forall>j. (Q j \<and> tier j = 2) = (j = i)))
      \<longleftrightarrow> Q i \<and> tier i < 3 \<and> (\<forall>j. j \<noteq> i \<longrightarrow> Q j \<longrightarrow> tier i < tier j)" (is "?l \<longleftrightarrow> ?r")
    proof
      assume ?l
      then show ?r using c by (metis One_nat_def less_2_cases_iff less_numeral_extra(1) nat_neq_iff not_less_eq
          numeral_2_eq_2 numeral_3_eq_3 zero_less_Suc lessI less_Suc_eq)
    next
      assume ?r
      then show ?l using c [of i] by (metis nat_neq_iff not_less_zero less_one less_2_cases_iff)
    qed
  qed
  finally show ?thesis by (auto simp: Q_def)
qed


section \<open>Caps keep a prefix\<close>

lemma slice_list_rest: "k \<le> length xs \<Longrightarrow> slice_list xs k (length xs) = Ok (drop k xs)"
  by (simp add: slice_list_def)

lemma truncate_prefix:
  assumes "truncate_to_line_budget content 1 m = (t, end_line, True)"
  shows "\<exists>rest. slice_lines content \<lparr>lr_start = end_line + 1, lr_end = None\<rparr> = Ok rest
      \<and> content = t @ ls_content rest \<and> (length t \<le> m \<or> end_line = 1)"
proof -
  let ?ls = "split_inclusive content"
  define k where "k = admit m 0 0 (map length ?ls)"
  have t: "t = concat (take k ?ls)" "end_line = 1 + (k - 1)" "k < length ?ls"
    using assms by (auto simp: truncate_to_line_budget_def Let_def k_def)
  have ne: "map length ?ls \<noteq> []" using t(3) by auto
  have b: "1 \<le> k" "sum_list (take k (map length ?ls)) \<le> m \<or> k = 1"
    using admit_budget_0 [OF ne, of m] by (auto simp: Let_def k_def [symmetric])
  have len: "length t = sum_list (take k (map length ?ls))"
    by (simp add: t(1) length_concat take_map)
  have "content = t @ concat (drop k ?ls)"
    unfolding t(1) by (metis append_take_drop_id concat_append concat_split_inclusive)
  moreover have "slice_lines content \<lparr>lr_start = end_line + 1, lr_end = None\<rparr>
      = Ok \<lparr>ls_content = concat (drop k ?ls), ls_start_line = end_line + 1, ls_end_line = length ?ls,
            ls_total_lines = length ?ls, ls_truncated = False\<rparr>"
    using t b by (simp add: slice_lines_def Let_def slice_list_rest)
  ultimately show ?thesis using b t(2) len by auto
qed

lemma nths_map_filter: "nths xs K = map ((!) xs) (filter (\<lambda>i. i \<in> K) [0..<length xs])"
proof (induction xs rule: rev_induct)
  case (snoc x xs)
  have "map ((!) (xs @ [x])) (filter (\<lambda>i. i \<in> K) [0..<length xs]) = map ((!) xs) (filter (\<lambda>i. i \<in> K) [0..<length xs])"
    by (rule map_cong) (auto simp: nth_append)
  then show ?case using snoc by (simp add: nths_append nths_singleton)
qed simp

lemma sort_subset_upt:
  assumes "distinct xs" "set xs \<subseteq> {..<n}"
  shows "sort xs = filter (\<lambda>i. i \<in> set xs) [0..<n]"
proof (rule sorted_distinct_set_unique)
  show "set (sort xs) = set (filter (\<lambda>i. i \<in> set xs) [0..<n])" using assms(2) by auto
  show "sorted (filter (\<lambda>i. i \<in> set xs) [0..<n])" by (simp add: sorted_wrt_filter)
qed (use assms(1) in simp_all)

lemma cap_outline_spec:
  fixes env entries
  defines "depth \<equiv> \<lambda>i. length (oe_heading_path (entries ! i))"
    and "cost \<equiv> \<lambda>i. de_json_len env (outline_entry_json (entries ! i))"
  assumes "entries \<noteq> []"
  shows "\<exists>K. K \<subseteq> {..<length entries} \<and> K \<noteq> {}
    \<and> ov_entries (cap_outline env entries scope total_lines m) = nths entries K
    \<and> (\<forall>k\<in>K. \<forall>i<length entries. i \<notin> K \<longrightarrow> (depth k, k) < (depth i, i))
    \<and> ((\<Sum>k\<in>K. cost k) \<le> m \<or> card K = 1)
    \<and> ov_truncated (cap_outline env entries scope total_lines m) = (K \<noteq> {..<length entries})"
proof -
  define key where "key i = (depth i, i)" for i
  have key: "key = (\<lambda>i. (length (oe_heading_path (entries ! i)), i))"
    by (rule ext) (simp add: key_def depth_def)
  define order where "order = sort_key key [0..<length entries]"
  define n where "n = admit m 0 0 (map cost order)"
  have order: "set order = {..<length entries}" "distinct order" "length order = length entries"
      "sorted (map key order)"
    by (auto simp: order_def atLeast0LessThan)
  have "length (map cost order) \<noteq> 0" using order(3) assms(3) by simp
  then have ne: "map cost order \<noteq> []" by force
  have n: "1 \<le> n" "n \<le> length entries" "sum_list (take n (map cost order)) \<le> m \<or> n = 1"
    using admit_budget_0 [OF ne, of m] order(3) by (auto simp: Let_def n_def [symmetric])
  define K where "K = set (take n order)"
  have sub: "K \<subseteq> {..<length entries}" using order(1) set_take_subset [of n order] by (auto simp: K_def)
  have card: "card K = n" using order(2,3) n(2) by (simp add: K_def distinct_card)
  have sum: "sum_list (take n (map cost order)) = (\<Sum>k\<in>K. cost k)"
    using order(2) by (simp add: K_def take_map sum_list_distinct_conv_sum_set)
  have lt: "key k < key i" if kK: "k \<in> K" and il: "i < length entries" and iK: "i \<notin> K" for k i
  proof -
    have "k \<in> set (take n order)" using kK by (simp add: K_def)
    then obtain a where a: "a < n" "a < length order" "order ! a = k"
      by (metis in_set_conv_nth length_take min_less_iff_conj nth_take)
    obtain b where b: "b < length order" "order ! b = i"
      using il order(1) by (metis in_set_conv_nth lessThan_iff)
    have "n \<le> b"
    proof (rule ccontr)
      assume "\<not> n \<le> b"
      then have "take n order ! b = i" "b < length (take n order)" using b by simp_all
      then have "i \<in> K" unfolding K_def by (metis nth_mem)
      then show False using iK by simp
    qed
    then have "key k \<le> key i"
      using sorted_nth_mono [OF order(4), of a b] a b by simp
    moreover have "k \<noteq> i" using kK iK by auto
    ultimately show ?thesis by (auto simp: key_def less_le)
  qed
  have view: "ov_entries (cap_outline env entries scope total_lines m) = map ((!) entries) (sort (take n order))"
    "ov_truncated (cap_outline env entries scope total_lines m) = (n < length entries)"
    unfolding cap_outline_def Let_def order_def n_def depth_def cost_def key
    by simp_all
  have "sort (take n order) = filter (\<lambda>i. i \<in> K) [0..<length entries]"
    using sort_subset_upt [of "take n order" "length entries"] sub order(2) by (simp add: K_def)
  then have "ov_entries (cap_outline env entries scope total_lines m) = nths entries K"
    by (simp add: view nths_map_filter)
  moreover have "n < length entries \<longleftrightarrow> K \<noteq> {..<length entries}"
    using sub card n(2) by (metis card_lessThan card_subset_eq finite_lessThan le_neq_implies_less nat_less_le)
  moreover have "K \<noteq> {}" using card n(1) by auto
  ultimately show ?thesis
    using sub lt sum n(3) card view(2) unfolding key_def by (intro exI [of _ K]) auto
qed

section \<open>Properties\<close>


text \<open>
  C29. A heading path resolves only when it names one section unambiguously: the answer is entry \<open>i\<close>
  exactly when \<open>i\<close> is a heading that matches, and every other heading matches strictly worse (exact
  path before suffix before ordered subsequence before no match). Two equally good matches are never
  silently decided.
\<close>

theorem heading_path_resolves_uniquely:
  "find_by_heading_path env entries query = Ok i \<longleftrightarrow>
     i < length entries \<and> oe_level (entries ! i) \<noteq> 0
     \<and> match_tier (entry_path_norm env (entries ! i)) (map (normalize_heading_text (de_case_fold env)) query) < 3
     \<and> (\<forall>j<length entries. j \<noteq> i \<longrightarrow> oe_level (entries ! j) \<noteq> 0 \<longrightarrow>
          match_tier (entry_path_norm env (entries ! i)) (map (normalize_heading_text (de_case_fold env)) query)
          < match_tier (entry_path_norm env (entries ! j)) (map (normalize_heading_text (de_case_fold env)) query))"
  by (rule find_by_heading_path_iff)

definition demo_env :: doc_env where
  "demo_env = \<lparr>de_parser = demo_parser, de_case_fold = (\<lambda>t. t), de_body = (\<lambda>t. t), de_json_len = (\<lambda>_. 10)\<rparr>"

definition demo_outline :: "outline_entry list" where
  "demo_outline = outline demo_env demo_body"

lemma demo_outline_eval:
  "map (\<lambda>e. (oe_heading_path e, oe_level e, oe_line_start e, oe_line_end e)) demo_outline
     = [([], 0, 1, 1), ([''A''], 1, 2, 5), ([''A'', ''B''], 2, 4, 5), ([''C''], 1, 6, 7)]"
  by code_simp

lemma heading_path_resolves_uniquely_witness:
  "find_by_heading_path demo_env demo_outline [''B''] = Ok 2 \<and> oe_level (demo_outline ! 2) \<noteq> 0"
proof -
  have "find_by_heading_path demo_env demo_outline [''B''] = Ok 2" by code_simp
  then show ?thesis using heading_path_resolves_uniquely [of demo_env demo_outline "[''B'']" 2] by simp
qed

text \<open>
  Climbing \<open>levels_up\<close> levels from an outline entry follows the heading tree although it only
  compares paths: the entry reached has the path cut by that many names (but at least one is kept),
  and its line range contains the range climbed from, also when other sections have equal names.
\<close>

theorem climb_cuts_the_path:
  assumes "idx < length (outline env content)"
  shows "let e = outline env content ! idx; up = outline env content ! climb (outline env content) levels_up idx in
     oe_heading_path up = take (max 1 (length (oe_heading_path e) - levels_up)) (oe_heading_path e)
     \<and> oe_line_start up \<le> oe_line_start e \<and> oe_line_end e \<le> oe_line_end up"
proof (cases "idx < pre_len env content")
  case True
  then have path: "oe_heading_path (outline env content ! idx) = []" by (simp add: outline_preamble)
  then have "climb (outline env content) levels_up idx = idx"
    by (cases levels_up) (simp_all add: find_parent_index_def)
  then show ?thesis by (simp add: path)
next
  case False
  define i where "i = idx - pre_len env content"
  let ?hs = "ht_headings (doc_tree env content)"
  have i: "idx = pre_len env content + i" "i < length ?hs"
    using False assms by (auto simp: i_def outline_length)
  obtain c where c: "climb (outline env content) levels_up idx = pre_len env content + c"
      "anc (parent_of ?hs) c i"
      "tree_path (doc_tree env content) (Some c) = take (max 1 (length (tree_path (doc_tree env content) (Some i))
         - levels_up)) (tree_path (doc_tree env content) (Some i))"
    using climb_path [OF i(2), of levels_up] unfolding i(1) by blast
  note r = anc_range [OF doc_tree_wf c(2) i(2)]
  have ic: "pre_len env content + c < length (outline env content)"
    using r i(2) by (simp add: outline_length)
  show ?thesis
    using c(1,3) r ic assms i(1) by (simp add: Let_def outline_heading)
qed

lemma climb_cuts_the_path_witness:
  "oe_heading_path (demo_outline ! climb demo_outline 1 2) = [''A'']
     \<and> oe_line_end (demo_outline ! 2) \<le> oe_line_end (demo_outline ! climb demo_outline 1 2)"
proof -
  have l: "2 < length demo_outline" using arg_cong [OF demo_outline_eval, of length] by simp
  have p: "oe_heading_path (demo_outline ! 2) = [''A'', ''B'']"
    using arg_cong [OF demo_outline_eval, of "\<lambda>l. fst (l ! 2)"] l by (simp add: nth_map)
  show ?thesis
    using climb_cuts_the_path [OF l [unfolded demo_outline_def], of 1] p
    unfolding demo_outline_def [symmetric] by (simp add: Let_def)
qed

text \<open>
  C30. A whole-document read that is cut at the size limit loses nothing: the text served is a prefix
  of the document that ends at a line boundary, it fits the limit unless it is the first line alone,
  and reading on from the line after the reported \<open>end_line\<close> gives exactly the rest.
\<close>

theorem truncated_read_continues:
  assumes "resolve_document_view env content (RangeRequest None) section_max_bytes = Ok (RangeView s)"
    and "ls_truncated s"
  shows "\<exists>rest. slice_lines content \<lparr>lr_start = ls_end_line s + 1, lr_end = None\<rparr> = Ok rest
           \<and> content = ls_content s @ ls_content rest
           \<and> (length (ls_content s) \<le> section_max_bytes \<or> ls_end_line s = 1)"
proof -
  obtain t end_line tr where t: "truncate_to_line_budget content 1 section_max_bytes = (t, end_line, tr)"
    by (metis prod_cases3)
  have "ls_content s = t \<and> ls_end_line s = end_line \<and> tr"
    using assms t
    by (auto simp: resolve_document_view_def resolve_range_def slice_or_whole_def Let_def bind_outcome_Ok_iff
        split: option.splits if_splits)
  then show ?thesis using truncate_prefix [of content section_max_bytes t end_line] t by simp
qed

definition flat_env :: doc_env where
  "flat_env = demo_env\<lparr>de_parser := (\<lambda>_. [])\<rparr>"

definition flat_doc :: string where
  "flat_doc = ''ab'' @ [newline] @ ''cd'' @ [newline] @ ''ef''"

lemma truncated_read_continues_witness:
  "\<exists>(s :: line_slice) (rest :: line_slice). ls_content s = ''ab'' @ [newline] @ ''cd'' @ [newline] \<and> flat_doc = ls_content s @ ls_content rest"
proof -
  define s where "s = \<lparr>ls_content = ''ab'' @ [newline] @ ''cd'' @ [newline], ls_start_line = 1, ls_end_line = 2,
    ls_total_lines = 3, ls_truncated = True\<rparr>"
  have "resolve_document_view flat_env flat_doc (RangeRequest None) 7 = Ok (RangeView s)"
    unfolding s_def by code_simp
  from truncated_read_continues [OF this] obtain rest :: line_slice where "flat_doc = ls_content s @ ls_content rest"
    by (auto simp: s_def)
  then show ?thesis by (intro exI [of _ s] exI [of _ rest]) (simp add: s_def)
qed

text \<open>
  A capped outline shows the top of the structure: the entries it keeps are a part of the outline
  in document order, at least one; every entry left out is deeper than every kept one, or equally deep
  and later; the kept entries' encodings fit the limit unless only one is kept; and \<open>truncated\<close> says
  whether anything was left out.
\<close>

theorem capped_outline_keeps_shallowest:
  assumes "entries \<noteq> []"
  shows "\<exists>K. K \<subseteq> {..<length entries} \<and> K \<noteq> {}
    \<and> ov_entries (cap_outline env entries scope total_lines section_max_bytes) = nths entries K
    \<and> (\<forall>k\<in>K. \<forall>i<length entries. i \<notin> K \<longrightarrow>
         (length (oe_heading_path (entries ! k)), k) < (length (oe_heading_path (entries ! i)), i))
    \<and> ((\<Sum>k\<in>K. de_json_len env (outline_entry_json (entries ! k))) \<le> section_max_bytes \<or> card K = 1)
    \<and> ov_truncated (cap_outline env entries scope total_lines section_max_bytes) = (K \<noteq> {..<length entries})"
  by (rule cap_outline_spec [OF assms])

lemma capped_outline_keeps_shallowest_witness:
  "\<exists>K. ov_entries (cap_outline demo_env demo_outline None 7 25) = nths demo_outline K \<and> K \<noteq> {}"
proof -
  have "demo_outline \<noteq> []" using arg_cong [OF demo_outline_eval, of length] by auto
  from capped_outline_keeps_shallowest [OF this, of demo_env None 7 25] show ?thesis by blast
qed

end
