(* ===== verification/ToolSchema.thy ===== *)
theory ToolSchema
  imports JsonMap
begin

text \<open>
  The post-processing of tool input schemas, \<open>src/src/tool_schema.rs\<close>: \<open>make_self_contained\<close> inlines
  every \<open>$ref\<close> and replaces boolean subschemas, \<open>compact\<close> drops keywords that constrain nothing.

  Both recurse over what they have just rewritten, and a reference is expanded under a stack of the
  names being expanded. The recursion depth is an explicit fuel, \<open>None\<close> when it runs out; the theorems
  give a depth from which on the result is always the same. \<open>debug_assert!\<close> is absent, as in the
  release build. A schema position is visited through \<open>for_each_subschema\<close>; since the visits of
  different positions are independent, they are made in the order of the entries.
\<close>

section \<open>Schema positions\<close>

definition ROOT_REF :: string where
  "ROOT_REF = ''#''"

definition SINGLE_SUBSCHEMA_KEYS :: "string list" where
  "SINGLE_SUBSCHEMA_KEYS =
     [''items'', ''unevaluatedItems'', ''not'', ''if'', ''then'', ''else'', ''contains'', ''propertyNames'']"

definition SUBSCHEMA_MAP_KEYS :: "string list" where
  "SUBSCHEMA_MAP_KEYS = [''properties'', ''patternProperties'', ''dependentSchemas'']"

definition SUBSCHEMA_ARRAY_KEYS :: "string list" where
  "SUBSCHEMA_ARRAY_KEYS = [''prefixItems'', ''anyOf'', ''oneOf'', ''allOf'']"

definition OBJECT_ONLY_SUBSCHEMA_KEYS :: "string list" where
  "OBJECT_ONLY_SUBSCHEMA_KEYS = [''additionalProperties'', ''unevaluatedProperties'']"

lemmas schema_keys = SINGLE_SUBSCHEMA_KEYS_def SUBSCHEMA_MAP_KEYS_def SUBSCHEMA_ARRAY_KEYS_def
  OBJECT_ONLY_SUBSCHEMA_KEYS_def

text \<open>All results of a partial function over a list, or none.\<close>

fun traverse :: "('a \<Rightarrow> 'b option) \<Rightarrow> 'a list \<Rightarrow> 'b list option" where
  "traverse f [] = Some []"
| "traverse f (x # xs) =
     (case f x of None \<Rightarrow> None
      | Some y \<Rightarrow> (case traverse f xs of None \<Rightarrow> None | Some ys \<Rightarrow> Some (y # ys)))"

definition is_object :: "json \<Rightarrow> bool" where
  "is_object v = (case v of JObject es \<Rightarrow> True | _ \<Rightarrow> False)"

definition visit_keyed :: "(json \<Rightarrow> json option) \<Rightarrow> string \<times> json \<Rightarrow> (string \<times> json) option" where
  "visit_keyed visit e = map_option (Pair (fst e)) (visit (snd e))"

definition visit_entry :: "(json \<Rightarrow> json option) \<Rightarrow> string \<times> json \<Rightarrow> (string \<times> json) option" where
  "visit_entry visit e =
     (case e of (key, v) \<Rightarrow>
        if key \<in> set SINGLE_SUBSCHEMA_KEYS then map_option (Pair key) (visit v)
        else if key \<in> set SUBSCHEMA_MAP_KEYS
        then (case v of
                JObject m \<Rightarrow> map_option (\<lambda>m'. (key, JObject m')) (traverse (visit_keyed visit) m)
              | _ \<Rightarrow> Some (key, v))
        else if key \<in> set SUBSCHEMA_ARRAY_KEYS
        then (case v of
                JArray items \<Rightarrow> map_option (\<lambda>items'. (key, JArray items')) (traverse visit items)
              | _ \<Rightarrow> Some (key, v))
        else if key \<in> set OBJECT_ONLY_SUBSCHEMA_KEYS \<and> is_object v
        then map_option (Pair key) (visit v)
        else Some (key, v))"

definition for_each_subschema :: "(json \<Rightarrow> json option) \<Rightarrow> jobj \<Rightarrow> jobj option" where
  "for_each_subschema visit obj = traverse (visit_entry visit) obj"

section \<open>Inlining references\<close>

definition take_defs :: "jobj \<Rightarrow> jobj \<times> jobj" where
  "take_defs schema =
     foldl (\<lambda>(defs, schema) key.
         ((case map_of schema key of Some (JObject m) \<Rightarrow> obj_extend defs m | _ \<Rightarrow> defs),
          obj_remove key schema))
       ([], schema) [''$defs'', ''definitions'']"

definition ref_target_name :: "string \<Rightarrow> string" where
  "ref_target_name ref_str =
     (let raw = last (split_on CHR ''/'' ref_str) in
      if CHR ''~'' \<in> set raw then str_replace ''~0'' ''~'' (str_replace ''~1'' ''/'' raw) else raw)"

fun process_schema_position :: "(jobj \<Rightarrow> jobj option) \<Rightarrow> json \<Rightarrow> json option" where
  "process_schema_position resolve (JBool True) = Some (JObject [])"
| "process_schema_position resolve (JBool False) = Some (JObject [(''not'', JObject [])])"
| "process_schema_position resolve (JObject obj) = map_option JObject (resolve obj)"
| "process_schema_position resolve v = Some v"

text \<open>The stub that cuts a cycle: the type of the definition, when it states one.\<close>

definition cycle_stub :: "jobj \<Rightarrow> string \<Rightarrow> jobj" where
  "cycle_stub defs name =
     (case map_of defs name of
        Some (JObject d) \<Rightarrow> (case map_of d ''type'' of Some ty \<Rightarrow> [(''type'', ty)] | None \<Rightarrow> [])
      | _ \<Rightarrow> [])"

fun resolve_and_walk :: "nat \<Rightarrow> jobj \<Rightarrow> string list \<Rightarrow> jobj \<Rightarrow> jobj option" where
  "resolve_and_walk 0 defs stack obj = None"
| "resolve_and_walk (Suc fuel) defs stack obj =
     (let walk_keywords = (\<lambda>stack. for_each_subschema
            (process_schema_position (resolve_and_walk fuel defs stack))) in
      case map_of obj ''$ref'' of
        Some (JString ref_str) \<Rightarrow>
          (let siblings = obj_remove ''$ref'' obj; name = ref_target_name ref_str;
               resolved =
                 (if name \<in> set stack then Some (cycle_stub defs name)
                  else case map_of defs name of
                         Some (JObject def_obj) \<Rightarrow> walk_keywords (stack @ [name]) def_obj
                       | _ \<Rightarrow> Some [])
           in case resolved of
                None \<Rightarrow> None
              | Some r \<Rightarrow> walk_keywords stack (obj_extend r siblings))
      | _ \<Rightarrow> walk_keywords stack obj)"

definition make_self_contained :: "nat \<Rightarrow> jobj \<Rightarrow> jobj option" where
  "make_self_contained fuel schema =
     (case take_defs schema of (defs, schema) \<Rightarrow>
        resolve_and_walk fuel (obj_insert ROOT_REF (JObject schema) defs) [ROOT_REF] schema)"

section \<open>Compaction\<close>

definition STANDARD_FORMATS :: "string list" where
  "STANDARD_FORMATS =
     [''date-time'', ''date'', ''time'', ''duration'', ''email'', ''idn-email'', ''hostname'',
      ''idn-hostname'', ''ipv4'', ''ipv6'', ''uri'', ''uri-reference'', ''iri'', ''iri-reference'',
      ''uuid'', ''uri-template'', ''json-pointer'', ''relative-json-pointer'', ''regex'']"

definition is_null_type :: "json \<Rightarrow> bool" where
  "is_null_type v \<longleftrightarrow> v = JString ''null''"

definition is_null_arm :: "json \<Rightarrow> bool" where
  "is_null_arm arm =
     (case arm of
        JObject a \<Rightarrow> length a = 1 \<and> (case map_of a ''type'' of Some ty \<Rightarrow> is_null_type ty | None \<Rightarrow> False)
      | _ \<Rightarrow> False)"

definition drop_null_of_types :: "jobj \<Rightarrow> jobj" where
  "drop_null_of_types prop =
     (case map_of prop ''type'' of
        Some (JArray types) \<Rightarrow>
          (case filter (\<lambda>t. \<not> is_null_type t) types of
             [only] \<Rightarrow> obj_insert ''type'' only prop
           | types \<Rightarrow> obj_insert ''type'' (JArray types) prop)
      | _ \<Rightarrow> prop)"

definition drop_null_of_enum :: "jobj \<Rightarrow> jobj" where
  "drop_null_of_enum prop =
     (case map_of prop ''enum'' of
        Some (JArray values) \<Rightarrow> obj_insert ''enum'' (JArray (filter (\<lambda>v. v \<noteq> JNull) values)) prop
      | _ \<Rightarrow> prop)"

definition drop_null_of_arms :: "jobj \<Rightarrow> string \<Rightarrow> jobj" where
  "drop_null_of_arms prop key =
     (case map_of prop key of
        Some (JArray arms) \<Rightarrow>
          if \<not> (\<exists>arm\<in>set arms. is_null_arm arm) then prop
          else
            (case filter (\<lambda>arm. \<not> is_null_arm arm) arms of
               [arm] \<Rightarrow>
                 (case arm of
                    JObject only \<Rightarrow> obj_extend only (obj_remove key prop)
                  | _ \<Rightarrow> obj_insert key (JArray []) prop)
             | arms \<Rightarrow> obj_insert key (JArray arms) prop)
      | _ \<Rightarrow> prop)"

definition drop_null_arm :: "jobj \<Rightarrow> jobj" where
  "drop_null_arm prop =
     foldl drop_null_of_arms (drop_null_of_enum (drop_null_of_types prop)) [''anyOf'', ''oneOf'']"

definition drop_noise :: "jobj \<Rightarrow> jobj" where
  "drop_noise obj =
     (let obj = (if map_of obj ''default'' = Some JNull then obj_remove ''default'' obj else obj)
      in case map_of obj ''format'' of
           Some (JString fmt) \<Rightarrow>
             if fmt \<in> set STANDARD_FORMATS then obj else obj_remove ''format'' obj
         | _ \<Rightarrow> obj)"

definition required_names :: "jobj \<Rightarrow> string list" where
  "required_names obj =
     (case map_of obj ''required'' of
        Some (JArray names) \<Rightarrow> List.map_filter (\<lambda>n. case n of JString s \<Rightarrow> Some s | _ \<Rightarrow> None) names
      | _ \<Rightarrow> [])"

definition relax_property :: "string list \<Rightarrow> string \<times> json \<Rightarrow> string \<times> json" where
  "relax_property required e =
     (case e of
        (name, JObject prop) \<Rightarrow>
          (name, JObject (if name \<in> set required then prop else drop_null_arm prop))
      | _ \<Rightarrow> e)"

definition relax_properties :: "jobj \<Rightarrow> jobj" where
  "relax_properties obj =
     (case map_of obj ''properties'' of
        Some (JObject props) \<Rightarrow>
          obj_insert ''properties'' (JObject (map (relax_property (required_names obj)) props)) obj
      | _ \<Rightarrow> obj)"

fun compact_position :: "(jobj \<Rightarrow> jobj option) \<Rightarrow> json \<Rightarrow> json option" where
  "compact_position node (JObject sub) = map_option JObject (node sub)"
| "compact_position node v = Some v"

fun compact_node :: "nat \<Rightarrow> jobj \<Rightarrow> jobj option" where
  "compact_node 0 obj = None"
| "compact_node (Suc fuel) obj =
     for_each_subschema (compact_position (compact_node fuel)) (relax_properties (drop_noise obj))"

definition compact :: "nat \<Rightarrow> jobj \<Rightarrow> jobj option" where
  "compact fuel schema = compact_node fuel (obj_remove ''$schema'' schema)"

text \<open>The rewrite of a tool's input schema; the rest of the \<open>Tool\<close> record is not touched.\<close>

definition self_contained :: "nat \<Rightarrow> jobj \<Rightarrow> jobj option" where
  "self_contained fuel schema =
     (case make_self_contained fuel schema of None \<Rightarrow> None | Some s \<Rightarrow> compact fuel s)"


section \<open>What a self-contained schema is\<close>

text \<open>The values in schema positions of one entry and of one object.\<close>

definition entry_subs :: "string \<times> json \<Rightarrow> json list" where
  "entry_subs e =
     (case e of (key, v) \<Rightarrow>
        if key \<in> set SINGLE_SUBSCHEMA_KEYS then [v]
        else if key \<in> set SUBSCHEMA_MAP_KEYS then (case v of JObject m \<Rightarrow> map snd m | _ \<Rightarrow> [])
        else if key \<in> set SUBSCHEMA_ARRAY_KEYS then (case v of JArray items \<Rightarrow> items | _ \<Rightarrow> [])
        else if key \<in> set OBJECT_ONLY_SUBSCHEMA_KEYS \<and> is_object v then [v]
        else [])"

definition subschemas :: "jobj \<Rightarrow> json set" where
  "subschemas obj = (\<Union>e\<in>set obj. set (entry_subs e))"

text \<open>Nesting depth: the measure for recursion into schema positions.\<close>

fun jdepth :: "json \<Rightarrow> nat" where
  "jdepth (JArray vs) = Suc (foldr max (map jdepth vs) 0)"
| "jdepth (JObject es) = Suc (foldr max (map (\<lambda>e. jdepth (snd e)) es) 0)"
| "jdepth v = 0"

lemma foldr_max_le_iff: "foldr max xs 0 \<le> (n :: nat) \<longleftrightarrow> (\<forall>x\<in>set xs. x \<le> n)"
  by (induction xs) auto

lemma jdepth_array: "jdepth (JArray vs) \<le> Suc n \<longleftrightarrow> (\<forall>v\<in>set vs. jdepth v \<le> n)"
  by (simp add: foldr_max_le_iff)

lemma jdepth_object: "jdepth (JObject es) \<le> Suc n \<longleftrightarrow> (\<forall>e\<in>set es. jdepth (snd e) \<le> n)"
  by (simp add: foldr_max_le_iff)

lemma jdepth_array_less: "v \<in> set vs \<Longrightarrow> jdepth v < jdepth (JArray vs)"
  using jdepth_array [of vs "foldr max (map jdepth vs) 0"] by auto

lemma jdepth_object_less: "e \<in> set es \<Longrightarrow> jdepth (snd e) < jdepth (JObject es)"
  using jdepth_object [of es "foldr max (map (\<lambda>e. jdepth (snd e)) es) 0"] by auto

declare jdepth.simps(1,2) [simp del]

lemma entry_subs_depth: "s \<in> set (entry_subs e) \<Longrightarrow> jdepth s \<le> jdepth (snd e)"
  using jdepth_array_less jdepth_object_less
  by (fastforce simp: entry_subs_def split: prod.splits if_splits json.splits)

lemma subschemas_depth: "s \<in> subschemas obj \<Longrightarrow> jdepth s < jdepth (JObject obj)"
  using entry_subs_depth jdepth_object_less by (fastforce simp: subschemas_def)

text \<open>
  No \<open>$ref\<close> and no boolean in any schema position, at any depth; and the input condition that a
  \<open>$ref\<close> in a schema position is a string.
\<close>

function clean_schema :: "json \<Rightarrow> bool" where
  "clean_schema (JBool b) = False"
| "clean_schema (JObject obj) \<longleftrightarrow> ''$ref'' \<notin> fst ` set obj \<and> (\<forall>s\<in>subschemas obj. clean_schema s)"
| "clean_schema JNull = True"
| "clean_schema (JInt i) = True"
| "clean_schema (JFloat x) = True"
| "clean_schema (JString x) = True"
| "clean_schema (JArray vs) = True"
  by pat_completeness auto
termination
  by (relation "measure jdepth") (auto simp: subschemas_depth)

definition is_jstring :: "json \<Rightarrow> bool" where
  "is_jstring v = (case v of JString s \<Rightarrow> True | _ \<Rightarrow> False)"

function string_refs :: "json \<Rightarrow> bool" where
  "string_refs (JObject obj) \<longleftrightarrow> (\<forall>e\<in>set obj. fst e = ''$ref'' \<longrightarrow> is_jstring (snd e))
     \<and> (\<forall>s\<in>subschemas obj. string_refs s)"
| "string_refs JNull = True"
| "string_refs (JBool b) = True"
| "string_refs (JInt i) = True"
| "string_refs (JFloat x) = True"
| "string_refs (JString x) = True"
| "string_refs (JArray vs) = True"
  by pat_completeness auto
termination
  by (relation "measure jdepth") (auto simp: subschemas_depth)

section \<open>Recursion that settles\<close>

text \<open>From some depth on the result is there, always the same, and satisfies \<open>P\<close>.\<close>

definition settles :: "(nat \<Rightarrow> 'a option) \<Rightarrow> ('a \<Rightarrow> bool) \<Rightarrow> bool" where
  "settles F P \<longleftrightarrow> (\<exists>N r. (\<forall>n\<ge>N. F n = Some r) \<and> P r)"

lemma settlesI: "(\<And>n. N \<le> n \<Longrightarrow> F n = Some r) \<Longrightarrow> P r \<Longrightarrow> settles F P"
  by (auto simp: settles_def)

lemma settles_const [simp]: "settles (\<lambda>n. Some r) P \<longleftrightarrow> P r"
  by (auto simp: settles_def)

lemma settles_mono: "settles F P \<Longrightarrow> (\<And>r. P r \<Longrightarrow> Q r) \<Longrightarrow> settles F Q"
  by (auto simp: settles_def)

lemma settles_map: "settles F P \<Longrightarrow> (\<And>r. P r \<Longrightarrow> Q (g r)) \<Longrightarrow> settles (\<lambda>n. map_option g (F n)) Q"
  unfolding settles_def by fastforce

lemma settles_bind:
  assumes "settles F P" "\<And>r. P r \<Longrightarrow> settles (\<lambda>n. G n r) Q"
  shows "settles (\<lambda>n. case F n of None \<Rightarrow> None | Some r \<Rightarrow> G n r) Q"
proof -
  obtain N r where N: "\<And>n. N \<le> n \<Longrightarrow> F n = Some r" and "P r" using assms(1) by (auto simp: settles_def)
  moreover obtain M q where "\<And>n. M \<le> n \<Longrightarrow> G n r = Some q" "Q q"
    using assms(2) [OF \<open>P r\<close>] by (auto simp: settles_def)
  ultimately show ?thesis by (intro settlesI [of "max N M" _ q]) auto
qed

lemma settles_Suc: "settles (\<lambda>n. F (Suc n)) P \<Longrightarrow> settles F P"
proof -
  assume "settles (\<lambda>n. F (Suc n)) P"
  then obtain N r where "\<And>n. N \<le> n \<Longrightarrow> F (Suc n) = Some r" "P r" by (auto simp: settles_def)
  then show ?thesis
    by (intro settlesI [of "Suc N" _ r]) (metis Suc_le_D Suc_le_mono, simp)
qed

lemma settles_traverse:
  "(\<And>x. x \<in> set xs \<Longrightarrow> settles (\<lambda>n. f n x) (P x)) \<Longrightarrow> settles (\<lambda>n. traverse (f n) xs) (list_all2 P xs)"
proof (induction xs)
  case (Cons x xs)
  then have "settles (\<lambda>n. f n x) (P x)" "settles (\<lambda>n. traverse (f n) xs) (list_all2 P xs)" by simp_all
  then show ?case by (auto intro!: settles_bind)
qed simp

lemma list_all2_ball: "list_all2 P xs ys \<Longrightarrow> y \<in> set ys \<Longrightarrow> \<exists>x\<in>set xs. P x y"
  by (metis in_set_conv_nth list_all2_conv_all_nth)

lemma settles_visit_entry:
  assumes "\<And>s. s \<in> set (entry_subs e) \<Longrightarrow> settles (\<lambda>n. visit n s) Q"
  shows "settles (\<lambda>n. visit_entry (visit n) e)
     (\<lambda>e'. fst e' = fst e \<and> (entry_subs e = [] \<longrightarrow> e' = e) \<and> (\<forall>s\<in>set (entry_subs e'). Q s))"
proof -
  obtain key v where e: "e = (key, v)" by (cases e)
  consider (single) "key \<in> set SINGLE_SUBSCHEMA_KEYS"
    | (mapped) m where "key \<notin> set SINGLE_SUBSCHEMA_KEYS" "key \<in> set SUBSCHEMA_MAP_KEYS" "v = JObject m"
    | (array) items where "key \<notin> set SINGLE_SUBSCHEMA_KEYS" "key \<notin> set SUBSCHEMA_MAP_KEYS"
        "key \<in> set SUBSCHEMA_ARRAY_KEYS" "v = JArray items"
    | (object) "key \<notin> set SINGLE_SUBSCHEMA_KEYS" "key \<notin> set SUBSCHEMA_MAP_KEYS"
        "key \<notin> set SUBSCHEMA_ARRAY_KEYS" "key \<in> set OBJECT_ONLY_SUBSCHEMA_KEYS" "is_object v"
    | (none) "key \<notin> set SINGLE_SUBSCHEMA_KEYS"
        "key \<in> set SUBSCHEMA_MAP_KEYS \<longrightarrow> (\<forall>m. v \<noteq> JObject m)"
        "key \<notin> set SUBSCHEMA_MAP_KEYS \<and> key \<in> set SUBSCHEMA_ARRAY_KEYS \<longrightarrow> (\<forall>items. v \<noteq> JArray items)"
        "key \<notin> set SUBSCHEMA_MAP_KEYS \<and> key \<notin> set SUBSCHEMA_ARRAY_KEYS
           \<longrightarrow> \<not> (key \<in> set OBJECT_ONLY_SUBSCHEMA_KEYS \<and> is_object v)"
    by blast
  then show ?thesis
  proof cases
    case single
    then show ?thesis using assms
      by (auto simp: e entry_subs_def visit_entry_def intro!: settles_map)
  next
    case mapped
    have "settles (\<lambda>n. traverse (visit_keyed (visit n)) m) (list_all2 (\<lambda>e e'. fst e' = fst e \<and> Q (snd e')) m)"
      using assms mapped
      by (intro settles_traverse) (auto simp: e entry_subs_def visit_keyed_def intro!: settles_map)
    then show ?thesis using mapped
      by (auto simp: e entry_subs_def visit_entry_def intro!: settles_map dest: list_all2_ball)
  next
    case array
    have "settles (\<lambda>n. traverse (visit n) items) (list_all2 (\<lambda>e e'. Q e') items)"
      using assms array by (intro settles_traverse) (auto simp: e entry_subs_def)
    then show ?thesis using array
      by (auto simp: e entry_subs_def visit_entry_def intro!: settles_map dest: list_all2_ball)
  next
    case object
    then show ?thesis using assms
      by (auto simp: e entry_subs_def visit_entry_def intro!: settles_map)
  next
    case none
    have "entry_subs e = []"
      using none by (cases v) (auto simp: e entry_subs_def is_object_def)
    moreover have "visit_entry (visit n) e = Some e" for n
      using none by (cases v) (auto simp: e visit_entry_def is_object_def)
    ultimately show ?thesis by simp
  qed
qed

definition kept_entries :: "jobj \<Rightarrow> jobj \<Rightarrow> bool" where
  "kept_entries obj obj' \<longleftrightarrow> list_all2 (\<lambda>e e'. fst e' = fst e \<and> (entry_subs e = [] \<longrightarrow> e' = e)) obj obj'"

lemma kept_entries_keys: "kept_entries obj obj' \<Longrightarrow> map fst obj' = map fst obj"
  unfolding kept_entries_def by (induction rule: list_all2_induct) auto

lemma settles_for_each:
  assumes "\<And>s. s \<in> subschemas obj \<Longrightarrow> settles (\<lambda>n. visit n s) Q"
  shows "settles (\<lambda>n. for_each_subschema (visit n) obj)
     (\<lambda>obj'. kept_entries obj obj' \<and> (\<forall>s\<in>subschemas obj'. Q s))"
proof -
  let ?R = "\<lambda>e e'. fst e' = fst e \<and> (entry_subs e = [] \<longrightarrow> e' = e) \<and> (\<forall>s\<in>set (entry_subs e'). Q s)"
  have "settles (\<lambda>n. visit_entry (visit n) e) (?R e)" if "e \<in> set obj" for e
    using that by (intro settles_visit_entry assms) (auto simp: subschemas_def)
  then have "settles (\<lambda>n. traverse (visit_entry (visit n)) obj) (list_all2 ?R obj)"
    by (rule settles_traverse)
  moreover have "kept_entries obj obj' \<and> (\<forall>s\<in>subschemas obj'. Q s)" if r: "list_all2 ?R obj obj'" for obj'
  proof
    show "kept_entries obj obj'"
      unfolding kept_entries_def using r by (rule list_all2_mono) simp
    show "\<forall>s\<in>subschemas obj'. Q s"
      using list_all2_ball [OF r] unfolding subschemas_def by blast
  qed
  ultimately show ?thesis
    unfolding for_each_subschema_def by (rule settles_mono)
qed

section \<open>Inlining terminates and leaves no reference\<close>

lemma clean_position:
  assumes "\<And>obj. v = JObject obj \<Longrightarrow> settles (\<lambda>n. resolve n obj) (\<lambda>r. clean_schema (JObject r))"
  shows "settles (\<lambda>n. process_schema_position (resolve n) v) clean_schema"
proof (cases v)
  case (JBool b)
  then show ?thesis by (cases b) (auto simp: subschemas_def entry_subs_def schema_keys)
next
  case (JObject obj)
  then show ?thesis using assms by (auto intro: settles_map)
qed auto

definition keywords_settle :: "jobj \<Rightarrow> string list \<Rightarrow> jobj \<Rightarrow> bool" where
  "keywords_settle defs stack obj \<longleftrightarrow>
     settles (\<lambda>n. for_each_subschema (process_schema_position (resolve_and_walk n defs stack)) obj)
       (\<lambda>r. map fst r = map fst obj \<and> (\<forall>s\<in>subschemas r. clean_schema s))"

lemma keywords_settleI:
  assumes "\<And>sub. JObject sub \<in> subschemas obj \<Longrightarrow>
     settles (\<lambda>n. resolve_and_walk n defs stack sub) (\<lambda>r. clean_schema (JObject r))"
  shows "keywords_settle defs stack obj"
  unfolding keywords_settle_def
proof (rule settles_mono [OF settles_for_each [where Q = clean_schema]])
  fix s assume "s \<in> subschemas obj"
  then show "settles (\<lambda>n. process_schema_position (resolve_and_walk n defs stack) s) clean_schema"
    using assms by (intro clean_position) auto
qed (use kept_entries_keys in auto)

lemma keywords_clean:
  assumes "''$ref'' \<notin> fst ` set obj" "keywords_settle defs stack obj"
  shows "settles (\<lambda>n. for_each_subschema (process_schema_position (resolve_and_walk n defs stack)) obj)
     (\<lambda>r. clean_schema (JObject r))"
  using assms(2) unfolding keywords_settle_def
proof (rule settles_mono)
  fix r assume "map fst r = map fst obj \<and> (\<forall>s\<in>subschemas r. clean_schema s)"
  then show "clean_schema (JObject r)" using assms(1) by (metis clean_schema.simps(2) set_map)
qed

lemma no_ref_settles:
  assumes "''$ref'' \<notin> fst ` set obj" "keywords_settle defs stack obj"
  shows "settles (\<lambda>n. resolve_and_walk n defs stack obj) (\<lambda>r. clean_schema (JObject r))"
proof (rule settles_Suc)
  have "map_of obj ''$ref'' = None" using assms(1) by (simp add: map_of_eq_None_iff)
  then show "settles (\<lambda>n. resolve_and_walk (Suc n) defs stack obj) (\<lambda>r. clean_schema (JObject r))"
    using keywords_clean [OF assms] by simp
qed

lemma clean_settles:
  "clean_schema (JObject obj) \<Longrightarrow>
     settles (\<lambda>n. resolve_and_walk n defs stack obj) (\<lambda>r. clean_schema (JObject r))"
proof (induction "jdepth (JObject obj)" arbitrary: obj rule: less_induct)
  case less
  show ?case
  proof (rule no_ref_settles)
    show "keywords_settle defs stack obj"
      using less subschemas_depth by (intro keywords_settleI) fastforce
  qed (use less.prems in simp)
qed


lemma subschemas_extend: "subschemas (obj_extend r new) \<subseteq> subschemas r \<union> subschemas new"
  using set_obj_extend [of r new] unfolding subschemas_def by blast

lemma subschemas_remove: "subschemas (obj_remove k obj) \<subseteq> subschemas obj"
  by (auto simp: subschemas_def jobj_simps)

lemma keys_extend: "fst ` set (obj_extend r new) \<subseteq> fst ` set r \<union> fst ` set new"
  using set_obj_extend [of r new] by auto

lemma cycle_stub_subs: "subschemas (cycle_stub defs name) = {}" "''$ref'' \<notin> fst ` set (cycle_stub defs name)"
  by (auto simp: cycle_stub_def subschemas_def entry_subs_def schema_keys split: option.splits json.splits)

text \<open>The definitions a stack leaves open: objects that are no references themselves.\<close>

definition open_defs_ok :: "jobj \<Rightarrow> string list \<Rightarrow> bool" where
  "open_defs_ok defs stack \<longleftrightarrow> (\<forall>name d. name \<notin> set stack \<and> map_of defs name = Some (JObject d)
     \<longrightarrow> ''$ref'' \<notin> fst ` set d \<and> string_refs (JObject d))"

lemma ref_settles:
  assumes "map_of obj ''$ref'' = Some (JString ref_str)"
    and "\<And>d. ref_target_name ref_str \<notin> set stack \<Longrightarrow> map_of defs (ref_target_name ref_str) = Some (JObject d)
       \<Longrightarrow> ''$ref'' \<notin> fst ` set d \<and> keywords_settle defs (stack @ [ref_target_name ref_str]) d"
    and "\<And>sub. JObject sub \<in> subschemas obj \<Longrightarrow>
       settles (\<lambda>n. resolve_and_walk n defs stack sub) (\<lambda>r. clean_schema (JObject r))"
  shows "settles (\<lambda>n. resolve_and_walk n defs stack obj) (\<lambda>r. clean_schema (JObject r))"
proof (rule settles_Suc)
  let ?name = "ref_target_name ref_str"
  let ?walk = "\<lambda>n stack. for_each_subschema (process_schema_position (resolve_and_walk n defs stack))"
  let ?resolved = "\<lambda>n. if ?name \<in> set stack then Some (cycle_stub defs ?name)
      else case map_of defs ?name of
             Some (JObject def_obj) \<Rightarrow> ?walk n (stack @ [?name]) def_obj
           | _ \<Rightarrow> Some []"
  let ?ok = "\<lambda>r. ''$ref'' \<notin> fst ` set r \<and> (\<forall>s\<in>subschemas r. clean_schema s)"
  have "settles ?resolved ?ok"
  proof (cases "\<exists>d. ?name \<notin> set stack \<and> map_of defs ?name = Some (JObject d)")
    case True
    then obtain d where d: "?name \<notin> set stack" "map_of defs ?name = Some (JObject d)" by blast
    then have "settles (\<lambda>n. ?walk n (stack @ [?name]) d) (\<lambda>r. clean_schema (JObject r))"
      using assms(2) by (blast intro: keywords_clean)
    then show ?thesis using d by simp
  next
    case False
    then have "?resolved = (\<lambda>n. Some (if ?name \<in> set stack then cycle_stub defs ?name else []))"
      by (auto split: option.splits json.splits)
    then show ?thesis
      using cycle_stub_subs [of defs ?name] by (cases "?name \<in> set stack") (simp_all add: subschemas_def)
  qed
  then have "settles (\<lambda>n. case ?resolved n of None \<Rightarrow> None
        | Some r \<Rightarrow> ?walk n stack (obj_extend r (obj_remove ''$ref'' obj))) (\<lambda>r. clean_schema (JObject r))"
  proof (rule settles_bind)
    fix r assume r: "?ok r"
    let ?M = "obj_extend r (obj_remove ''$ref'' obj)"
    have "''$ref'' \<notin> fst ` set ?M"
      using r keys_extend [of r "obj_remove ''$ref'' obj"] by (auto simp: jobj_simps)
    moreover have "keywords_settle defs stack ?M"
    proof (rule keywords_settleI)
      fix sub assume "JObject sub \<in> subschemas ?M"
      then have "JObject sub \<in> subschemas r \<or> JObject sub \<in> subschemas obj"
        using subschemas_extend [of r "obj_remove ''$ref'' obj"] subschemas_remove [of "''$ref''" obj] by blast
      then show "settles (\<lambda>n. resolve_and_walk n defs stack sub) (\<lambda>r. clean_schema (JObject r))"
        using r assms(3) clean_settles by blast
    qed
    ultimately show "settles (\<lambda>n. ?walk n stack ?M) (\<lambda>r. clean_schema (JObject r))" by (rule keywords_clean)
  qed
  then show "settles (\<lambda>n. resolve_and_walk (Suc n) defs stack obj) (\<lambda>r. clean_schema (JObject r))"
    unfolding resolve_and_walk.simps(2) assms(1) Let_def by simp
qed

lemma resolve_settles:
  "open_defs_ok defs stack \<Longrightarrow> string_refs (JObject obj) \<Longrightarrow>
     settles (\<lambda>n. resolve_and_walk n defs stack obj) (\<lambda>r. clean_schema (JObject r))"
proof (induction "card (fst ` set defs - set stack)" arbitrary: stack obj rule: less_induct)
  case less
  note outer = less.hyps and defs_ok = less.prems(1)
  show ?case
    using less.prems(2)
  proof (induction "jdepth (JObject obj)" arbitrary: obj rule: less_induct)
    case (less obj)
    have subs: "settles (\<lambda>n. resolve_and_walk n defs stack sub) (\<lambda>r. clean_schema (JObject r))"
      if "JObject sub \<in> subschemas obj" for sub
    proof (rule less.hyps [OF subschemas_depth [OF that]])
      show "string_refs (JObject sub)"
        using less.prems that unfolding string_refs.simps(1) [of obj] by blast
    qed
    show ?case
    proof (cases "map_of obj ''$ref''")
      case None
      then have "''$ref'' \<notin> fst ` set obj" by (simp only: map_of_eq_None_iff not_False_eq_True)
      then show ?thesis using keywords_settleI [OF subs] by (rule no_ref_settles)
    next
      case (Some v)
      then have "(''$ref'', v) \<in> set obj" by (rule map_of_SomeD)
      then have "is_jstring v" using less.prems unfolding string_refs.simps(1) [of obj] by fastforce
      then obtain s where v: "v = JString s" by (auto simp: is_jstring_def split: json.splits)
      show ?thesis
      proof (rule ref_settles [OF Some [unfolded v] _ subs])
        fix d assume new: "ref_target_name s \<notin> set stack"
          and d: "map_of defs (ref_target_name s) = Some (JObject d)"
        have fewer: "card (fst ` set defs - set (stack @ [ref_target_name s])) < card (fst ` set defs - set stack)"
        proof (rule psubset_card_mono)
          have "ref_target_name s \<in> fst ` set defs"
            using d by (metis domI dom_map_of_conv_image_fst)
          then show "fst ` set defs - set (stack @ [ref_target_name s]) \<subset> fst ` set defs - set stack"
            using new by auto
        qed simp
        have ok: "open_defs_ok defs (stack @ [ref_target_name s])"
          using defs_ok unfolding open_defs_ok_def set_append by blast
        have top_ok: "''$ref'' \<notin> fst ` set d" and d_ok: "string_refs (JObject d)"
          using defs_ok new d unfolding open_defs_ok_def by blast+
        have "keywords_settle defs (stack @ [ref_target_name s]) d"
        proof (rule keywords_settleI)
          fix sub assume "JObject sub \<in> subschemas d"
          then have "string_refs (JObject sub)" using d_ok unfolding string_refs.simps(1) [of d] by blast
          then show "settles (\<lambda>n. resolve_and_walk n defs (stack @ [ref_target_name s]) sub)
              (\<lambda>r. clean_schema (JObject r))" by (rule outer [OF fewer ok])
        qed
        with top_ok show "''$ref'' \<notin> fst ` set d \<and> keywords_settle defs (stack @ [ref_target_name s]) d" ..
      qed assumption+
    qed
  qed
qed


section \<open>Compaction terminates and stays clean\<close>

text \<open>What compaction keeps of every entry of an object: a depth bound and cleanliness.\<close>

definition entry_ok :: "nat \<Rightarrow> string \<times> json \<Rightarrow> bool" where
  "entry_ok d e \<longleftrightarrow> fst e \<noteq> ''$ref'' \<and> (\<forall>s\<in>set (entry_subs e). clean_schema s) \<and> jdepth (snd e) \<le> d"

definition obj_ok :: "nat \<Rightarrow> jobj \<Rightarrow> bool" where
  "obj_ok d obj \<longleftrightarrow> (\<forall>e\<in>set obj. entry_ok d e)"

lemma obj_ok_iff: "obj_ok d obj \<longleftrightarrow> clean_schema (JObject obj) \<and> jdepth (JObject obj) \<le> Suc d"
proof -
  have "''$ref'' \<notin> fst ` set obj \<longleftrightarrow> (\<forall>e\<in>set obj. fst e \<noteq> ''$ref'')" by force
  then show ?thesis unfolding obj_ok_def entry_ok_def jdepth_object clean_schema.simps(2) subschemas_def by blast
qed

lemma obj_ok_insert: "obj_ok d obj \<Longrightarrow> entry_ok d (k, v) \<Longrightarrow> obj_ok d (obj_insert k v obj)"
  using set_obj_insert [of k v obj] unfolding obj_ok_def by blast

lemma obj_ok_remove: "obj_ok d obj \<Longrightarrow> obj_ok d (obj_remove k obj)"
  by (simp add: obj_ok_def jobj_simps)

lemma obj_ok_extend: "obj_ok d obj \<Longrightarrow> obj_ok d new \<Longrightarrow> obj_ok d (obj_extend obj new)"
  using set_obj_extend [of obj new] unfolding obj_ok_def by blast

lemma obj_ok_get: "obj_ok d obj \<Longrightarrow> map_of obj k = Some v \<Longrightarrow> entry_ok d (k, v)"
  unfolding obj_ok_def by (blast dest: map_of_SomeD)

lemma entry_ok_mono: "entry_ok c e \<Longrightarrow> c \<le> d \<Longrightarrow> entry_ok d e"
  by (auto simp: entry_ok_def)

lemma entry_subs_array:
  "set (entry_subs (k, JArray vs)) = (if k \<in> set SINGLE_SUBSCHEMA_KEYS then {JArray vs}
     else if k \<notin> set SUBSCHEMA_MAP_KEYS \<and> k \<in> set SUBSCHEMA_ARRAY_KEYS then set vs else {})"
  by (simp add: entry_subs_def is_object_def)

lemma entry_ok_array_subset:
  assumes "entry_ok d (k, JArray vs)" "set ws \<subseteq> set vs" shows "entry_ok d (k, JArray ws)"
proof -
  obtain n where d: "d = Suc n" using assms(1) by (cases d) (auto simp: entry_ok_def jdepth.simps)
  show ?thesis
    using assms unfolding entry_ok_def d by (auto simp: entry_subs_array jdepth_array split: if_splits)
qed

lemma drop_null_of_types_ok: "obj_ok d prop \<Longrightarrow> obj_ok d (drop_null_of_types prop)"
proof (cases "\<exists>types. map_of prop ''type'' = Some (JArray types)")
  case True
  assume ok: "obj_ok d prop"
  from True obtain types where t: "map_of prop ''type'' = Some (JArray types)" by blast
  let ?kept = "filter (\<lambda>t. \<not> is_null_type t) types"
  have arr: "entry_ok d (''type'', JArray types)" using ok t by (rule obj_ok_get)
  have "entry_ok d (''type'', v)" if "v \<in> set types" for v
    using arr that jdepth_array_less [of v types] by (simp add: entry_ok_def entry_subs_def schema_keys)
  moreover have "entry_ok d (''type'', JArray ?kept)" using arr by (rule entry_ok_array_subset) auto
  moreover have "drop_null_of_types prop = obj_insert ''type'' (JArray ?kept) prop
      \<or> (\<exists>v\<in>set types. drop_null_of_types prop = obj_insert ''type'' v prop)"
  proof (cases "\<exists>v. ?kept = [v]")
    case True
    then obtain v where v: "?kept = [v]" by blast
    then have "v \<in> set types" by (metis filter_is_subset list.set_intros(1) subsetD)
    then show ?thesis by (auto simp: drop_null_of_types_def t v)
  next
    case False
    then show ?thesis by (auto simp: drop_null_of_types_def t split: list.splits)
  qed
  ultimately show ?thesis using obj_ok_insert [OF ok] by metis
qed (auto simp: drop_null_of_types_def split: option.splits json.splits)

lemma drop_null_of_enum_ok: "obj_ok d prop \<Longrightarrow> obj_ok d (drop_null_of_enum prop)"
  using obj_ok_insert [of d _ "''enum''"] entry_ok_array_subset [OF obj_ok_get [of d _ "''enum''"]]
  by (auto simp: drop_null_of_enum_def split: option.splits json.splits)


lemma drop_null_of_arms_ok:
  assumes ok: "obj_ok d prop" and key: "key \<in> {''anyOf'', ''oneOf''}"
  shows "obj_ok d (drop_null_of_arms prop key)"
proof (cases "\<exists>arms. map_of prop key = Some (JArray arms)")
  case True
  then obtain arms where a: "map_of prop key = Some (JArray arms)" by blast
  let ?kept = "filter (\<lambda>arm. \<not> is_null_arm arm) arms"
  have arr: "entry_ok d (key, JArray arms)" using ok a by (rule obj_ok_get)
  consider "drop_null_of_arms prop key = prop"
    | only where "?kept = [JObject only]" "drop_null_of_arms prop key = obj_extend only (obj_remove key prop)"
    | "drop_null_of_arms prop key = obj_insert key (JArray []) prop"
    | "drop_null_of_arms prop key = obj_insert key (JArray ?kept) prop"
  proof (cases "\<exists>arm\<in>set arms. is_null_arm arm")
    case null: True
    show ?thesis
    proof (cases "\<exists>arm. ?kept = [arm]")
      case True
      then obtain arm where k: "?kept = [arm]" by blast
      show ?thesis
      proof (cases "\<exists>only. arm = JObject only")
        case True
        then show ?thesis using that(2) null k by (auto simp: drop_null_of_arms_def a)
      next
        case False
        then have "drop_null_of_arms prop key = obj_insert key (JArray []) prop"
          using null k by (cases arm) (simp_all add: drop_null_of_arms_def a)
        then show ?thesis by (rule that(3))
      qed
    next
      case False
      then have "drop_null_of_arms prop key = obj_insert key (JArray ?kept) prop"
        using null by (auto simp: drop_null_of_arms_def a split: list.splits)
      then show ?thesis by (rule that(4))
    qed
  next
    case False
    then show ?thesis using that(1) by (simp add: drop_null_of_arms_def a)
  qed
  then show ?thesis
  proof cases
    case (2 only)
    then have arm: "JObject only \<in> set arms" by (metis filter_is_subset list.set_intros(1) subsetD)
    then have "clean_schema (JObject only)" "jdepth (JObject only) < jdepth (JArray arms)"
      using arr key jdepth_array_less by (auto simp: entry_ok_def entry_subs_array schema_keys simp del: clean_schema.simps)
    moreover have "jdepth (JArray arms) \<le> d" using arr by (simp add: entry_ok_def)
    ultimately have "obj_ok d only" by (simp add: obj_ok_iff del: clean_schema.simps)
    then show ?thesis using obj_ok_extend obj_ok_remove ok 2(2) by metis
  next
    case 3
    then show ?thesis using obj_ok_insert [OF ok entry_ok_array_subset [OF arr, of "[]"]] by simp
  next
    case 4
    then show ?thesis using obj_ok_insert [OF ok entry_ok_array_subset [OF arr, of ?kept]] by simp
  qed (use ok in simp)
qed (use ok in \<open>auto simp: drop_null_of_arms_def split: option.splits json.splits\<close>)

lemma drop_null_arm_ok: "obj_ok d prop \<Longrightarrow> obj_ok d (drop_null_arm prop)"
  unfolding drop_null_arm_def foldl.simps
  by (intro drop_null_of_arms_ok drop_null_of_enum_ok drop_null_of_types_ok) auto

lemma drop_noise_ok: "obj_ok d obj \<Longrightarrow> obj_ok d (drop_noise obj)"
  by (auto simp: drop_noise_def Let_def obj_ok_remove split: option.splits json.splits)

lemma drop_null_arm_position:
  assumes "clean_schema (JObject prop)"
  shows "clean_schema (JObject (drop_null_arm prop))
    \<and> jdepth (JObject (drop_null_arm prop)) \<le> jdepth (JObject prop)"
proof -
  obtain d where d: "jdepth (JObject prop) = Suc d" by (simp add: jdepth.simps)
  then have "obj_ok d prop" using assms by (simp only: obj_ok_iff order.refl simp_thms)
  then have "obj_ok d (drop_null_arm prop)" by (rule drop_null_arm_ok)
  then show ?thesis by (simp only: obj_ok_iff d order.refl simp_thms)
qed

lemma relax_property_position:
  assumes "clean_schema (snd e)"
  shows "clean_schema (snd (relax_property required e)) \<and> jdepth (snd (relax_property required e)) \<le> jdepth (snd e)"
  using assms drop_null_arm_position
  by (cases e; cases "snd e") (auto simp: relax_property_def simp del: clean_schema.simps(2))

lemma relax_properties_ok:
  assumes ok: "obj_ok d obj"
  shows "obj_ok d (relax_properties obj)"
proof (cases "\<exists>props. map_of obj ''properties'' = Some (JObject props)")
  case True
  then obtain props where p: "map_of obj ''properties'' = Some (JObject props)" by blast
  then have e: "entry_ok d (''properties'', JObject props)" using obj_ok_get [OF ok] by blast
  obtain n where d: "d = Suc n" using e by (cases d) (auto simp: entry_ok_def jdepth.simps)
  let ?relax = "relax_property (required_names obj)"
  have props: "\<forall>e\<in>set props. clean_schema (snd e) \<and> jdepth (snd e) \<le> n"
    using e unfolding entry_ok_def d by (auto simp: entry_subs_def schema_keys jdepth_object)
  have "clean_schema (snd (?relax e)) \<and> jdepth (snd (?relax e)) \<le> n" if "e \<in> set props" for e
    using that props relax_property_position [of e "required_names obj"] by force
  then have "entry_ok d (''properties'', JObject (map ?relax props))"
    unfolding entry_ok_def d by (auto simp: entry_subs_def schema_keys jdepth_object)
  then show ?thesis using obj_ok_insert [OF ok] p by (simp add: relax_properties_def)
qed (use ok in \<open>auto simp: relax_properties_def split: option.splits json.splits\<close>)

lemma compact_settles:
  "clean_schema (JObject obj) \<Longrightarrow> settles (\<lambda>n. compact_node n obj) (\<lambda>r. clean_schema (JObject r))"
proof (induction "jdepth (JObject obj)" arbitrary: obj rule: less_induct)
  case less
  let ?obj = "relax_properties (drop_noise obj)"
  obtain d where d: "jdepth (JObject obj) = Suc d" by (simp add: jdepth.simps)
  then have "obj_ok d obj" using less.prems by (simp only: obj_ok_iff order.refl simp_thms)
  then have "obj_ok d ?obj" by (intro relax_properties_ok drop_noise_ok)
  then have new: "clean_schema (JObject ?obj)" "jdepth (JObject ?obj) \<le> jdepth (JObject obj)"
    by (simp_all only: obj_ok_iff d order.refl)
  have sub: "settles (\<lambda>n. compact_position (compact_node n) s) clean_schema" if s: "s \<in> subschemas ?obj" for s
  proof (cases "\<exists>sub. s = JObject sub")
    case True
    then obtain sub where sub: "s = JObject sub" by blast
    have "jdepth (JObject sub) < jdepth (JObject obj)" using subschemas_depth [OF s] new(2) sub by simp
    moreover have "clean_schema (JObject sub)" using new(1) s sub unfolding clean_schema.simps(2) [of ?obj] by blast
    ultimately have "settles (\<lambda>n. compact_node n sub) (\<lambda>r. clean_schema (JObject r))" by (rule less.hyps)
    then show ?thesis unfolding sub compact_position.simps by (rule settles_map) assumption
  next
    case False
    moreover have "clean_schema s" using new(1) s unfolding clean_schema.simps(2) [of ?obj] by blast
    ultimately show ?thesis by (cases s) auto
  qed
  have "settles (\<lambda>n. for_each_subschema (compact_position (compact_node n)) ?obj)
      (\<lambda>r. clean_schema (JObject r))"
  proof (rule settles_mono [OF settles_for_each [OF sub]])
    fix r assume r: "kept_entries ?obj r \<and> (\<forall>s\<in>subschemas r. clean_schema s)"
    then have "fst ` set r = fst ` set ?obj" using kept_entries_keys [of ?obj r] by (metis set_map)
    then show "clean_schema (JObject r)" using r new(1) unfolding clean_schema.simps(2) by simp
  qed
  then have "settles (\<lambda>n. compact_node (Suc n) obj) (\<lambda>r. clean_schema (JObject r))" by simp
  then show ?case by (rule settles_Suc)
qed


lemma compact_clean:
  assumes "clean_schema (JObject schema)"
  shows "settles (\<lambda>n. compact n schema) (\<lambda>r. clean_schema (JObject r))"
proof -
  obtain d where d: "jdepth (JObject schema) = Suc d" by (simp add: jdepth.simps)
  then have "obj_ok d schema" using assms by (simp only: obj_ok_iff order.refl simp_thms)
  then have "clean_schema (JObject (obj_remove ''$schema'' schema))"
    using obj_ok_remove [of d schema "''$schema''"] by (simp only: obj_ok_iff)
  then show ?thesis unfolding compact_def by (rule compact_settles)
qed

section \<open>Definitions that are references themselves\<close>

text \<open>
  The condition of the theorem below is needed. The target of a reference is walked with
  \<open>walk_keywords\<close>, which does not look at a \<open>$ref\<close> of the target itself: a definition that only
  refers to another one is left as a reference.
\<close>

definition alias_schema :: jobj where
  "alias_schema =
     [(''$defs'', JObject [(''A'', JObject [(''$ref'', JString ''#/$defs/B'')]),
                           (''B'', JObject [(''type'', JString ''string'')])]),
      (''properties'', JObject [(''x'', JObject [(''$ref'', JString ''#/$defs/A'')])])]"

lemma alias_reference_left:
  "make_self_contained 9 alias_schema =
     Some [(''properties'', JObject [(''x'', JObject [(''$ref'', JString ''#/$defs/B'')])])]"
  by code_simp

text \<open>And when such an alias closes a cycle, the recursion never ends.\<close>

definition alias_ref :: jobj where
  "alias_ref = [(''$ref'', JString ''#/$defs/B'')]"

definition alias_body :: "jobj \<Rightarrow> jobj" where
  "alias_body ref = [(''properties'', JObject [(''y'', JObject ref)])]"

definition alias_cycle_defs :: jobj where
  "alias_cycle_defs =
     [(''A'', JObject alias_ref), (''B'', JObject (alias_body [(''$ref'', JString ''#/$defs/A'')]))]"

lemma for_each_alias_body:
  "for_each_subschema visit (alias_body ref) =
     map_option (\<lambda>v. [(''properties'', JObject [(''y'', v)])]) (visit (JObject ref))"
  by (cases "visit (JObject ref)")
    (simp_all add: alias_body_def for_each_subschema_def visit_entry_def visit_keyed_def schema_keys)

lemma alias_inner:
  "resolve_and_walk (Suc n) alias_cycle_defs [''#'', ''B''] [(''$ref'', JString ''#/$defs/A'')] = Some alias_ref"
proof -
  have "ref_target_name ''#/$defs/A'' = ''A''" by code_simp
  moreover have "map_of alias_cycle_defs ''A'' = Some (JObject alias_ref)" by (simp add: alias_cycle_defs_def)
  moreover have "for_each_subschema visit alias_ref = Some alias_ref" for visit
    by (simp add: for_each_subschema_def alias_ref_def visit_entry_def schema_keys)
  ultimately show ?thesis by (simp add: obj_remove_def Let_def)
qed

lemma alias_cycle_never_returns: "resolve_and_walk n alias_cycle_defs [''#''] alias_ref = None"
proof (induction n)
  case (Suc n)
  have name: "ref_target_name ''#/$defs/B'' = ''B''" by code_simp
  have B: "map_of alias_cycle_defs ''B'' = Some (JObject (alias_body [(''$ref'', JString ''#/$defs/A'')]))"
    by (simp add: alias_cycle_defs_def)
  have get: "map_of alias_ref ''$ref'' = Some (JString ''#/$defs/B'')" "obj_remove ''$ref'' alias_ref = []"
    by (simp_all add: alias_ref_def obj_remove_def)
  show ?case
  proof (cases n)
    case 0
    then show ?thesis by (simp add: get name B for_each_alias_body)
  next
    case (Suc m)
    then have "for_each_subschema (process_schema_position (resolve_and_walk n alias_cycle_defs ([''#''] @ [''B''])))
        (alias_body [(''$ref'', JString ''#/$defs/A'')]) = Some (alias_body alias_ref)"
      using alias_inner [of m] unfolding for_each_alias_body
      by (simp add: alias_body_def del: resolve_and_walk.simps)
    moreover have "for_each_subschema (process_schema_position (resolve_and_walk n alias_cycle_defs [''#'']))
        (alias_body alias_ref) = None"
      by (simp add: for_each_alias_body Suc.IH)
    ultimately show ?thesis by (simp add: get name B)
  qed
qed simp

section \<open>Properties\<close>

lemma make_self_contained_settles:
  assumes defs: "take_defs schema = (defs, root)" and root: "string_refs (JObject root)"
    and ok: "\<And>name d. map_of defs name = Some (JObject d) \<Longrightarrow> ''$ref'' \<notin> fst ` set d \<and> string_refs (JObject d)"
  shows "settles (\<lambda>n. make_self_contained n schema) (\<lambda>r. clean_schema (JObject r))"
proof -
  have "open_defs_ok (obj_insert ROOT_REF (JObject root) defs) [ROOT_REF]"
    using ok unfolding open_defs_ok_def by (simp add: jobj_simps del: string_refs.simps)
  from resolve_settles [OF this root] show ?thesis by (simp add: make_self_contained_def defs)
qed

text \<open>
  C31. Every tool schema becomes self-contained: when the references of the schema are strings and no
  definition is itself a reference, the rewrite terminates for recursive types too, and in the result
  no schema position, at any depth, holds a \<open>$ref\<close> or a boolean, also after compaction.
\<close>

theorem self_contained_terminates_clean:
  assumes "take_defs schema = (defs, root)" "string_refs (JObject root)"
    and "\<And>name d. map_of defs name = Some (JObject d) \<Longrightarrow> ''$ref'' \<notin> fst ` set d \<and> string_refs (JObject d)"
  shows "\<exists>depth result. (\<forall>n\<ge>depth. self_contained n schema = Some result) \<and> clean_schema (JObject result)"
proof -
  have "settles (\<lambda>n. self_contained n schema) (\<lambda>r. clean_schema (JObject r))"
    unfolding self_contained_def
  proof (rule settles_bind)
    show "settles (\<lambda>n. make_self_contained n schema) (\<lambda>r. clean_schema (JObject r))"
      by (rule make_self_contained_settles [OF assms(1,2)]) (erule assms(3))
  qed (rule compact_clean)
  then show ?thesis by (simp only: settles_def)
qed

definition demo_schema :: jobj where
  "demo_schema =
     [(''$defs'', JObject [(''Field'', JObject
         [(''properties'', JObject [(''default'', JBool True),
            (''fields'', JObject [(''additionalProperties'', JObject [(''$ref'', JString ''#/$defs/Field'')])])]),
          (''type'', JString ''object'')])]),
      (''properties'', JObject [(''field'', JObject [(''$ref'', JString ''#/$defs/Field'')])])]"

lemma self_contained_terminates_clean_witness:
  "(\<exists>depth result. self_contained depth demo_schema = Some result \<and> clean_schema (JObject result))
   \<and> self_contained 9 demo_schema = Some
     [(''properties'', JObject [(''field'', JObject
         [(''properties'', JObject [(''default'', JObject []),
            (''fields'', JObject [(''additionalProperties'', JObject [(''type'', JString ''object'')])])]),
          (''type'', JString ''object'')])])]"
proof
  let ?field = "[(''properties'', JObject [(''default'', JBool True),
      (''fields'', JObject [(''additionalProperties'', JObject [(''$ref'', JString ''#/$defs/Field'')])])]),
    (''type'', JString ''object'')]"
  let ?root = "[(''properties'', JObject [(''field'', JObject [(''$ref'', JString ''#/$defs/Field'')])])]"
  have d: "take_defs demo_schema = ([(''Field'', JObject ?field)], ?root)" by code_simp
  have root: "string_refs (JObject ?root)" by code_simp
  have field: "string_refs (JObject ?field)" "''$ref'' \<notin> fst ` set ?field" by code_simp+
  have "\<exists>depth result. (\<forall>n\<ge>depth. self_contained n demo_schema = Some result) \<and> clean_schema (JObject result)"
  proof (rule self_contained_terminates_clean [OF d root])
    fix name fld assume "map_of [(''Field'', JObject ?field)] name = Some (JObject fld)"
    then have "fld = ?field" by (simp split: if_splits)
    then show "''$ref'' \<notin> fst ` set fld \<and> string_refs (JObject fld)" using field by blast
  qed
  then show "\<exists>depth result. self_contained depth demo_schema = Some result \<and> clean_schema (JObject result)"
    by blast
  show "self_contained 9 demo_schema = Some
     [(''properties'', JObject [(''field'', JObject
         [(''properties'', JObject [(''default'', JObject []),
            (''fields'', JObject [(''additionalProperties'', JObject [(''type'', JString ''object'')])])]),
          (''type'', JString ''object'')])])]"
    by code_simp
qed

end
