(* ===== verification/Dotpath.thy ===== *)
theory Dotpath
  imports JsonMap
begin

text \<open>
  Dot-path access to parsed frontmatter: \<open>get_by_dotpath\<close> and \<open>set_by_dotpath\<close> of \<open>src/src/schema.rs\<close>
  and \<open>remove_by_dotpath\<close> of \<open>src/src/write.rs\<close>. A frontmatter \<open>HashMap\<close> is kept as the ordered object
  with the same entries, so that equality of maps is equality of values.

  The locale \<open>field_store\<close> states the laws that the frontmatter edits and the schema defaults rely on.
\<close>

fun get_segments :: "string list \<Rightarrow> jobj \<Rightarrow> json option" where
  "get_segments [] m = None"
| "get_segments [s] m = map_of m s"
| "get_segments (s # t # ss) m =
     (case map_of m s of Some (JObject m') \<Rightarrow> get_segments (t # ss) m' | _ \<Rightarrow> None)"

fun set_segments :: "string list \<Rightarrow> json \<Rightarrow> jobj \<Rightarrow> jobj" where
  "set_segments [] v m = m"
| "set_segments [s] v m = obj_insert s v m"
| "set_segments (s # t # ss) v m =
     (case map_of m s of
        None \<Rightarrow> obj_insert s (JObject (set_segments (t # ss) v [])) m
      | Some (JObject m') \<Rightarrow> obj_insert s (JObject (set_segments (t # ss) v m')) m
      | Some _ \<Rightarrow> m)"

fun remove_segments :: "string list \<Rightarrow> jobj \<Rightarrow> jobj \<times> bool" where
  "remove_segments [] m = (m, False)"
| "remove_segments [s] m = (obj_remove s m, map_of m s \<noteq> None)"
| "remove_segments (s # t # ss) m =
     (case map_of m s of
        Some (JObject m') \<Rightarrow>
          (let below = remove_segments (t # ss) m'
           in (obj_insert s (JObject (fst below)) m, snd below))
      | _ \<Rightarrow> (m, False))"

definition get_by_dotpath :: "jobj \<Rightarrow> string \<Rightarrow> json option" where
  "get_by_dotpath m path = get_segments (split_on CHR ''.'' path) m"

definition set_by_dotpath :: "jobj \<Rightarrow> string \<Rightarrow> json \<Rightarrow> jobj" where
  "set_by_dotpath m path v = set_segments (split_on CHR ''.'' path) v m"

definition remove_by_dotpath :: "jobj \<Rightarrow> string \<Rightarrow> jobj \<times> bool" where
  "remove_by_dotpath m path = remove_segments (split_on CHR ''.'' path) m"

section \<open>The laws of a field store\<close>

text \<open>
  Whether every object on the way to a path exists or can be created; and paths of which neither is
  a prefix of the other.
\<close>

fun settable_segments :: "string list \<Rightarrow> jobj \<Rightarrow> bool" where
  "settable_segments [] m = False"
| "settable_segments [s] m = True"
| "settable_segments (s # t # ss) m =
     (case map_of m s of
        None \<Rightarrow> True
      | Some (JObject m') \<Rightarrow> settable_segments (t # ss) m'
      | Some _ \<Rightarrow> False)"

definition settable :: "jobj \<Rightarrow> string \<Rightarrow> bool" where
  "settable m path = settable_segments (split_on CHR ''.'' path) m"

fun apart_segments :: "string list \<Rightarrow> string list \<Rightarrow> bool" where
  "apart_segments (s # ss) (t # ts) \<longleftrightarrow> s \<noteq> t \<or> apart_segments ss ts"
| "apart_segments _ _ = False"

definition apart :: "string \<Rightarrow> string \<Rightarrow> bool" where
  "apart p q = apart_segments (split_on CHR ''.'' p) (split_on CHR ''.'' q)"

lemma get_set_empty: "ss \<noteq> [] \<Longrightarrow> get_segments ss (set_segments ss v []) = Some v"
  by (induction ss rule: induct_list012) (simp_all add: jobj_simps)

lemma get_set: "settable_segments ss m \<Longrightarrow> get_segments ss (set_segments ss v m) = Some v"
proof (induction ss m rule: settable_segments.induct)
  case (3 s t ss m)
  then show ?case by (auto simp: jobj_simps get_set_empty split: option.splits json.splits)
qed (simp_all add: jobj_simps)

lemma get_insert_other: "s \<noteq> t \<Longrightarrow> get_segments (t # ts) (obj_insert s w m) = get_segments (t # ts) m"
  by (cases ts) (simp_all add: jobj_simps)

lemma get_insert_object:
  "get_segments (s # ts) (obj_insert s (JObject w) m) =
     (if ts = [] then Some (JObject w) else get_segments ts w)"
  by (cases ts) (simp_all add: jobj_simps)

lemma get_empty [simp]: "get_segments ss [] = None"
  by (induction ss rule: induct_list012) simp_all

lemma set_refused: "\<not> settable_segments ss m \<Longrightarrow> get_segments ss (set_segments ss v m) = get_segments ss m"
proof (induction ss m rule: settable_segments.induct)
  case (3 s t ss m)
  then show ?case by (auto simp: jobj_simps split: option.splits json.splits)
qed simp_all

lemma get_set_apart:
  "apart_segments ss ts \<Longrightarrow> get_segments ts (set_segments ss v m) = get_segments ts m"
proof (induction ss v m arbitrary: ts rule: set_segments.induct)
  case (2 s v m)
  then obtain t ts' where "ts = t # ts'" "s \<noteq> t" by (cases ts) auto
  then show ?case by (simp add: get_insert_other)
next
  case (3 s t ss v m)
  then obtain u us where ts: "ts = u # us" by (cases ts) auto
  show ?case
  proof (cases "s = u")
    case True
    then have ap: "apart_segments (t # ss) us" using 3 ts by simp
    then obtain w ws where us: "us = w # ws" by (cases us) auto
    show ?thesis
      using 3 ap True by (auto simp: ts us jobj_simps get_empty split: option.splits json.splits)
  next
    case False
    then show ?thesis by (auto simp: ts get_insert_other split: option.splits json.splits)
  qed
qed simp


lemma get_remove_segments: "get_segments ss (fst (remove_segments ss m)) = None"
proof (induction ss m rule: remove_segments.induct)
  case (3 s t ss m)
  then show ?case by (auto simp: jobj_simps simp: Let_def split: option.splits json.splits)
qed (simp_all add: jobj_simps)

lemma removed_segments: "snd (remove_segments ss m) \<longleftrightarrow> get_segments ss m \<noteq> None"
proof (induction ss m rule: remove_segments.induct)
  case (3 s t ss m)
  then show ?case by (auto simp: Let_def split: option.splits json.splits)
qed simp_all

lemma get_remove_apart:
  "apart_segments ss ts \<Longrightarrow> get_segments ts (fst (remove_segments ss m)) = get_segments ts m"
proof (induction ss m arbitrary: ts rule: remove_segments.induct)
  case (2 s m)
  then obtain t ts' where "ts = t # ts'" "s \<noteq> t" by (cases ts) auto
  then show ?case by (cases ts') (simp_all add: jobj_simps)
next
  case (3 s t ss m)
  then obtain u us where ts: "ts = u # us" by (cases ts) auto
  show ?case
  proof (cases "s = u")
    case True
    then have ap: "apart_segments (t # ss) us" using 3 ts by simp
    then obtain w ws where us: "us = w # ws" by (cases us) auto
    show ?thesis
      using 3 ap True by (auto simp: ts us jobj_simps simp: Let_def split: option.splits json.splits)
  next
    case False
    then show ?thesis by (auto simp: ts get_insert_other simp: Let_def split: option.splits json.splits)
  qed
qed simp

text \<open>The interface: single-field updates, removals and lookups.\<close>

locale field_store =
  fixes get :: "'m \<Rightarrow> 'p \<Rightarrow> 'v option"
    and put :: "'m \<Rightarrow> 'p \<Rightarrow> 'v \<Rightarrow> 'm"
    and del :: "'m \<Rightarrow> 'p \<Rightarrow> 'm \<times> bool"
    and can_put :: "'m \<Rightarrow> 'p \<Rightarrow> bool"
    and independent :: "'p \<Rightarrow> 'p \<Rightarrow> bool"
  assumes get_put: "can_put m p \<Longrightarrow> get (put m p v) p = Some v"
    and put_refused: "\<not> can_put m p \<Longrightarrow> get (put m p v) p = get m p"
    and get_put_other: "independent p q \<Longrightarrow> get (put m p v) q = get m q"
    and get_del: "get (fst (del m p)) p = None"
    and del_found: "snd (del m p) \<longleftrightarrow> get m p \<noteq> None"
    and get_del_other: "independent p q \<Longrightarrow> get (fst (del m p)) q = get m q"
begin

text \<open>A sequence of updates leaves the fields that are independent of all of them.\<close>

lemma get_foldl_put_other:
  assumes "\<forall>e\<in>set pvs. independent (fst e) q"
  shows "get (foldl (\<lambda>m (p, v). put m p v) m pvs) q = get m q"
  using assms
proof (induction pvs arbitrary: m)
  case (Cons e pvs)
  obtain p v where e: "e = (p, v)" by (cases e)
  then have "get (put m p v) q = get m q" using Cons.prems by (simp add: get_put_other)
  then show ?case using Cons by (simp add: e)
qed simp

text \<open>Filling in what is missing: present fields keep their value, missing ones get the default.\<close>

definition fill :: "'m \<Rightarrow> 'p \<Rightarrow> 'v \<Rightarrow> 'm" where
  "fill m p v = (if get m p = None then put m p v else m)"

lemma get_fill: "get m p = Some v \<Longrightarrow> get (fill m p d) p = Some v"
  by (simp add: fill_def)

lemma get_fill_missing: "get m p = None \<Longrightarrow> can_put m p \<Longrightarrow> get (fill m p d) p = Some d"
  by (simp add: fill_def get_put)

lemma get_fill_other: "independent p q \<Longrightarrow> get (fill m p d) q = get m q"
  by (simp add: fill_def get_put_other)

end

interpretation dotpath: field_store get_by_dotpath set_by_dotpath remove_by_dotpath settable apart
  by unfold_locales
    (simp_all add: get_by_dotpath_def set_by_dotpath_def remove_by_dotpath_def settable_def apart_def
      get_set set_refused get_set_apart get_remove_segments removed_segments get_remove_apart)

end
