(* ===== verification/Frontmatter.thy ===== *)
theory Frontmatter
  imports Headings Dotpath
begin

text \<open>
  Editing a document's own frontmatter, \<open>src/src/write.rs\<close>: finding the block byte for byte, splicing
  a patch into it, appending to the body.

  The YAML libraries are parameters, in the record \<open>yaml_env\<close>: \<open>ye_parse\<close> is \<open>parse_frontmatter_raw\<close>
  (gray_matter), \<open>ye_to_string\<close> the serialisation of an ordered map by \<open>serde_yaml_ng\<close>, \<open>ye_scalar\<close>
  its reading of a quoted key.
\<close>

record yaml_env =
  ye_parse :: "string \<Rightarrow> jobj \<times> string"
  ye_to_string :: "jobj \<Rightarrow> string + string"
  ye_scalar :: "string \<Rightarrow> string option"

section \<open>The block and the body\<close>

abbreviation carriage_return :: char where "carriage_return \<equiv> CHR 0x0D"

abbreviation trim_newlines :: "string \<Rightarrow> string" where
  "trim_newlines \<equiv> drop_right (\<lambda>b. b = newline)"

abbreviation trim_crlf :: "string \<Rightarrow> string" where
  "trim_crlf \<equiv> drop_right (\<lambda>b. b = carriage_return \<or> b = newline)"

definition strip_newline :: "string \<Rightarrow> string" where
  "strip_newline line = (if line \<noteq> [] \<and> last line = newline then butlast line else line)"

text \<open>The end of the closing delimiter line, as an offset into the text after the opening line.\<close>

fun close_end :: "nat \<Rightarrow> string list \<Rightarrow> nat option" where
  "close_end offset [] = None"
| "close_end offset (line # lines) =
     (if is_frontmatter_delimiter_line (strip_newline line) then Some (offset + length line)
      else close_end (offset + length line) lines)"

definition split_frontmatter_bytes :: "string \<Rightarrow> (string \<times> string) option" where
  "split_frontmatter_bytes content =
     (case split_once newline content of
        None \<Rightarrow> None
      | Some (first, after_open) \<Rightarrow>
          if \<not> is_frontmatter_delimiter_line first then None
          else (case close_end 0 (split_inclusive after_open) of
                  None \<Rightarrow> None
                | Some e \<Rightarrow>
                    let fm_len = (length content - length after_open) + e
                    in Some (take fm_len content, drop fm_len content)))"

definition detect_newline :: "string \<Rightarrow> string" where
  "detect_newline content =
     (case position (\<lambda>b. b = newline) content of
        Some i \<Rightarrow>
          if 0 < i \<and> content ! (i - 1) = carriage_return then [carriage_return, newline] else [newline]
      | None \<Rightarrow> [newline])"

section \<open>Rendering\<close>

definition with_endings :: "string \<Rightarrow> string \<Rightarrow> string" where
  "with_endings nl yaml = concat (map (\<lambda>line. trim_newlines line @ nl) (split_inclusive yaml))"

definition render_frontmatter_block :: "yaml_env \<Rightarrow> jobj \<Rightarrow> string \<Rightarrow> (string, string) outcome" where
  "render_frontmatter_block env frontmatter nl =
     (case ye_to_string env frontmatter of
        Inl e \<Rightarrow> Err (''failed to serialize frontmatter: '' @ e)
      | Inr yaml \<Rightarrow>
          if nl = [newline] then Ok (''---'' @ [newline] @ yaml @ ''---'' @ [newline])
          else Ok (''---'' @ nl @ with_endings nl yaml @ ''---'' @ nl))"

definition render_frontmatter_entry :: "yaml_env \<Rightarrow> string \<Rightarrow> json \<Rightarrow> string \<Rightarrow> string option" where
  "render_frontmatter_entry env key v nl =
     (case ye_to_string env [(key, v)] of
        Inl e \<Rightarrow> None | Inr yaml \<Rightarrow> Some (with_endings nl yaml))"

section \<open>Splicing\<close>

definition YAML_INDICATORS :: string where
  "YAML_INDICATORS = ''#-{[&*!?|>%@`,]}''"

definition top_level_key :: "yaml_env \<Rightarrow> string \<Rightarrow> string option" where
  "top_level_key env line =
     (case chars line of
        [] \<Rightarrow> None
      | first # _ \<Rightarrow>
          if is_whitespace first \<or> hd first \<in> set YAML_INDICATORS then None
          else if first = [CHR 0x22] \<or> first = [CHR 0x27]
          then (case position (\<lambda>b. b = hd first) (drop 1 line) of
                  None \<Rightarrow> None
                | Some i \<Rightarrow>
                    let close = i + 1; rest = drop (close + 1) line in
                    if \<not> (starts_with rest '':'' \<and> (length rest = 1 \<or> starts_with (drop 1 rest) '' ''))
                    then None
                    else ye_scalar env (take (close + 1) line))
          else (case position (\<lambda>i. line ! i = CHR '':'' \<and>
                        (i + 1 = length line \<or> starts_with (drop (i + 1) line) '' '')) [0..<length line] of
                  None \<Rightarrow> None
                | Some colon \<Rightarrow>
                    let key = trim_end (take colon line) in
                    if key \<noteq> [] \<and> key \<noteq> ''<<'' then Some key else None))"

definition is_blank :: "string \<Rightarrow> bool" where
  "is_blank line \<longleftrightarrow> trim line = []"

definition is_continuation :: "string \<Rightarrow> bool" where
  "is_continuation bare \<longleftrightarrow> is_blank bare \<or>
     (case chars bare of [] \<Rightarrow> False | first # _ \<Rightarrow> is_whitespace first \<or> first = ''#'' \<or> first = ''-'')"

text \<open>One line of the loop that cuts the block into entries; \<open>None\<close> is the early return.\<close>

definition segment_line ::
    "yaml_env \<Rightarrow> string \<times> (string \<times> string list) list \<Rightarrow> string
     \<Rightarrow> (string \<times> (string \<times> string list) list) option" where
  "segment_line env st line =
     (case st of (preamble, entries) \<Rightarrow>
        let bare = trim_crlf line in
        if starts_with bare [CHR 0x09] \<or> starts_with bare [CHR '' '', CHR 0x09] then None
        else case top_level_key env bare of
               Some key \<Rightarrow>
                 if key \<in> fst ` set entries then None else Some (preamble, entries @ [(key, [line])])
             | None \<Rightarrow>
                 if \<not> is_continuation bare then None
                 else if entries \<noteq> []
                 then (case last entries of (key, body) \<Rightarrow>
                         Some (preamble, butlast entries @ [(key, body @ [line])]))
                 else if is_blank bare \<or> starts_with bare ''#'' then Some (preamble @ line, entries)
                 else None)"

fun segment_lines ::
    "yaml_env \<Rightarrow> string \<times> (string \<times> string list) list \<Rightarrow> string list
     \<Rightarrow> (string \<times> (string \<times> string list) list) option" where
  "segment_lines env st [] = Some st"
| "segment_lines env st (line # lines) =
     (case segment_line env st line of None \<Rightarrow> None | Some st' \<Rightarrow> segment_lines env st' lines)"

text \<open>Where the trailing blank and comment lines of an entry start.\<close>

definition tail_start :: "string list \<Rightarrow> nat" where
  "tail_start body =
     (let is_content = (\<lambda>l. let b = trim_crlf l in \<not> (is_blank b \<or> starts_with b ''#'')) in
      if filter is_content body = [] then 1 else length (drop_right (\<lambda>l. \<not> is_content l) body))"

definition splice_entry ::
    "yaml_env \<Rightarrow> jobj \<Rightarrow> jobj \<Rightarrow> string \<Rightarrow> string \<times> string list \<Rightarrow> string option" where
  "splice_entry env original updated nl e =
     (case e of (key, body) \<Rightarrow>
        if map_of original key = map_of updated key then Some (concat body)
        else
          let kept = concat (drop (tail_start body) body) in
          case map_of updated key of
            None \<Rightarrow> Some kept
          | Some v \<Rightarrow> map_option (\<lambda>text. text @ kept) (render_frontmatter_entry env key v nl))"

fun collect_options :: "'a option list \<Rightarrow> 'a list option" where
  "collect_options [] = Some []"
| "collect_options (None # xs) = None"
| "collect_options (Some x # xs) = map_option ((#) x) (collect_options xs)"

definition splice_added :: "yaml_env \<Rightarrow> jobj \<Rightarrow> jobj \<Rightarrow> string \<Rightarrow> string option list" where
  "splice_added env original updated nl =
     map (\<lambda>(key, v). render_frontmatter_entry env key v nl)
       (filter (\<lambda>(key, v). map_of original key = None) updated)"

definition splice_frontmatter_block ::
    "yaml_env \<Rightarrow> string \<Rightarrow> jobj \<Rightarrow> jobj \<Rightarrow> string \<Rightarrow> string option" where
  "splice_frontmatter_block env old_block original updated nl =
     (case split_inclusive old_block of
        open_line # close_line # rest \<Rightarrow>
          (let body = close_line # rest; close = last body; inner = butlast body in
           if \<not> is_frontmatter_delimiter_line (trim_newlines close) then None
           else case segment_lines env ([], []) inner of
                  None \<Rightarrow> None
                | Some (preamble, entries) \<Rightarrow>
                    if length entries \<noteq> length original
                       \<or> (\<exists>e\<in>set entries. map_of original (fst e) = None) then None
                    else
                      case (collect_options (map (splice_entry env original updated nl) entries),
                            collect_options (splice_added env original updated nl)) of
                        (Some pieces, Some added) \<Rightarrow>
                          Some (open_line @ preamble @ concat pieces @ concat added @ close)
                      | _ \<Rightarrow> None)
      | _ \<Rightarrow> None)"

section \<open>Patches\<close>

definition quoted :: "string \<Rightarrow> string" where
  "quoted s = [CHR 0x27] @ s @ [CHR 0x27]"

datatype frontmatter_edit =
    SetField string json
  | RemoveField string
  | AddValues string "json list"
  | RemoveValues string "json list"

fun apply_edit :: "jobj \<Rightarrow> frontmatter_edit \<Rightarrow> (string, jobj) outcome" where
  "apply_edit m (SetField field v) = Ok (set_by_dotpath m field v)"
| "apply_edit m (RemoveField field) =
     (case remove_by_dotpath m field of
        (m', removed) \<Rightarrow>
          if removed then Ok m'
          else Err (''field '' @ quoted field @ '' is not set in this document's frontmatter''))"
| "apply_edit m (AddValues field vs) =
     (case get_by_dotpath m field of
        Some (JArray arr) \<Rightarrow>
          Ok (set_by_dotpath m field
                (JArray (foldl (\<lambda>acc v. if v \<in> set acc then acc else acc @ [v]) arr vs)))
      | Some _ \<Rightarrow> Err (''field '' @ quoted field @ '' is not a list in this document's frontmatter'')
      | None \<Rightarrow>
          Ok (set_by_dotpath m field
                (JArray (foldl (\<lambda>acc v. if v \<in> set acc then acc else acc @ [v]) [] vs))))"
| "apply_edit m (RemoveValues field vs) =
     (case get_by_dotpath m field of
        Some (JArray arr) \<Rightarrow>
          Ok (set_by_dotpath m field (JArray (filter (\<lambda>v. v \<notin> set vs) arr)))
      | Some _ \<Rightarrow> Err (''field '' @ quoted field @ '' is not a list in this document's frontmatter'')
      | None \<Rightarrow> Err (''field '' @ quoted field @ '' has no value list in this document's frontmatter''))"

fun apply_edits :: "jobj \<Rightarrow> frontmatter_edit list \<Rightarrow> (string, jobj) outcome" where
  "apply_edits m [] = Ok m"
| "apply_edits m (e # es) = bind_outcome (apply_edit m e) (\<lambda>m'. apply_edits m' es)"

definition apply_frontmatter_patch ::
    "yaml_env \<Rightarrow> string \<Rightarrow> frontmatter_edit list \<Rightarrow> (string, string) outcome" where
  "apply_frontmatter_patch env old_content edits =
     (case (case split_frontmatter_bytes old_content of Some p \<Rightarrow> p | None \<Rightarrow> ([], old_content)) of
        (fm_block, body) \<Rightarrow>
        let had_frontmatter = (fm_block \<noteq> []); original = fst (ye_parse env old_content) in
        bind_outcome (apply_edits original edits) (\<lambda>frontmatter.
        let nl = detect_newline old_content;
            spliced =
              (if had_frontmatter
               then (case splice_frontmatter_block env fm_block original frontmatter nl of
                       Some block \<Rightarrow> if fst (ye_parse env block) = frontmatter then Some block else None
                     | None \<Rightarrow> None)
               else None)
        in bind_outcome
             (case spliced of Some block \<Rightarrow> Ok block
              | None \<Rightarrow> render_frontmatter_block env frontmatter nl) (\<lambda>new_fm_block.
           Ok (if had_frontmatter then new_fm_block @ body
               else if body = [] then new_fm_block
               else new_fm_block @ [newline] @ body))))"

section \<open>Appending\<close>

definition normalize_line :: "string \<Rightarrow> string \<Rightarrow> string" where
  "normalize_line nl line =
     (let stripped = drop_right (\<lambda>b. b = carriage_return) (trim_newlines line) in
      if ends_with line [newline] then stripped @ nl else stripped)"

definition apply_append :: "string \<Rightarrow> string \<Rightarrow> string" where
  "apply_append old_content new_text =
     (case (case split_frontmatter_bytes old_content of Some p \<Rightarrow> p | None \<Rightarrow> ([], old_content)) of
        (fm_block, body) \<Rightarrow>
        let nl = detect_newline old_content;
            new_body = (if body \<noteq> [] \<and> \<not> ends_with body [newline] then body @ nl else body);
            new_body = (if fm_block \<noteq> [] \<and> new_body = [] then new_body @ nl else new_body);
            trimmed = drop_right (\<lambda>b. b = carriage_return) (trim_newlines new_text);
            appended = concat (map (normalize_line nl) (split_inclusive trimmed))
        in fm_block @ new_body @ appended @ nl)"


section \<open>The block is found where the delimiters are\<close>

lemma split_inclusive_append:
  "A = [] \<or> last A = newline \<Longrightarrow> split_inclusive (A @ B) = split_inclusive A @ split_inclusive B"
proof (induction A)
  case (Cons a A)
  show ?case
  proof (cases "A = []")
    case False
    then have "split_inclusive (A @ B) = split_inclusive A @ split_inclusive B" using Cons by auto
    moreover obtain p ps where "split_inclusive A = p # ps" using False by (cases "split_inclusive A") auto
    ultimately show ?thesis by simp
  qed (use Cons in auto)
qed simp

lemma split_inclusive_last:
  "split_inclusive s = pre @ l # m # post \<Longrightarrow> last l = newline"
proof (induction s arbitrary: pre l)
  case (Cons b s)
  then show ?case
  proof (cases "b = newline")
    case True
    with Cons.prems have "[newline] # split_inclusive s = pre @ l # m # post" by simp
    then show ?thesis using Cons.IH by (cases pre) auto
  next
    case False
    obtain p ps where sp: "split_inclusive s = p # ps \<or> split_inclusive s = [] \<and> p = [] \<and> ps = []"
      by (cases "split_inclusive s") auto
    with Cons.prems False have eq: "(b # p) # ps = pre @ l # m # post" by auto
    show ?thesis
    proof (cases pre)
      case Nil
      with eq have l: "l = b # p" "ps = m # post" by auto
      with sp have "split_inclusive s = [] @ p # m # post" by auto
      then have "last p = newline" "p \<in> set (split_inclusive s)" using Cons.IH [of "[]"] by auto
      moreover from this(2) have "p \<noteq> []" by (metis Nil_notin_split_inclusive)
      ultimately show ?thesis by (simp add: l)
    next
      case (Cons q pre')
      with eq have "ps = pre' @ l # m # post" "q = b # p" by auto
      with sp have "split_inclusive s = (p # pre') @ l # m # post" by auto
      then show ?thesis using Cons.IH by blast
    qed
  qed
qed simp

lemma close_end_Some:
  "close_end offset lines = Some e \<Longrightarrow>
     \<exists>pre cl post. lines = pre @ cl # post \<and> is_frontmatter_delimiter_line (strip_newline cl)
       \<and> (\<forall>l\<in>set pre. \<not> is_frontmatter_delimiter_line (strip_newline l))
       \<and> e = offset + length (concat pre) + length cl"
proof (induction offset lines rule: close_end.induct)
  case (2 offset line lines)
  show ?case
  proof (cases "is_frontmatter_delimiter_line (strip_newline line)")
    case True
    with 2 show ?thesis
      by (intro exI [of _ "[]"] exI [of _ line] exI [of _ lines]) auto
  next
    case False
    with 2 obtain pre cl post where "lines = pre @ cl # post" "is_frontmatter_delimiter_line (strip_newline cl)"
      "\<forall>l\<in>set pre. \<not> is_frontmatter_delimiter_line (strip_newline l)"
      "e = offset + length line + length (concat pre) + length cl" by auto
    with False show ?thesis by (intro exI [of _ "line # pre"] exI [of _ cl] exI [of _ post]) auto
  qed
qed simp

lemma close_end_append:
  "\<forall>l\<in>set pre. \<not> is_frontmatter_delimiter_line (strip_newline l) \<Longrightarrow>
     is_frontmatter_delimiter_line (strip_newline cl) \<Longrightarrow>
     close_end offset (pre @ cl # post) = Some (offset + length (concat pre) + length cl)"
  by (induction pre arbitrary: offset) auto

text \<open>The shape of a document with a block.\<close>

definition block_at :: "string \<Rightarrow> string \<Rightarrow> string \<Rightarrow> string list \<Rightarrow> string \<Rightarrow> bool" where
  "block_at content fm first pre cl \<longleftrightarrow>
     fm = first @ newline # concat pre @ cl \<and> newline \<notin> set first \<and> is_frontmatter_delimiter_line first
     \<and> is_frontmatter_delimiter_line (strip_newline cl)
     \<and> (\<forall>l\<in>set pre. \<not> is_frontmatter_delimiter_line (strip_newline l))
     \<and> (\<exists>rest post. content = first @ newline # rest \<and> split_inclusive rest = pre @ cl # post)"

lemma split_once_newline:
  "newline \<notin> set first \<Longrightarrow> split_once newline (first @ newline # rest) = Some (first, rest)"
  by (simp add: split_once_def takeWhile_append2 dropWhile_append2) (auto simp: takeWhile_tail takeWhile_append)

lemma split_once_SomeD:
  "split_once newline c = Some (first, rest) \<Longrightarrow> newline \<notin> set first \<and> c = first @ newline # rest"
proof -
  assume s: "split_once newline c = Some (first, rest)"
  let ?p = "\<lambda>b. b \<noteq> newline"
  have nl: "newline \<in> set c" and f: "first = takeWhile ?p c" "rest = tl (dropWhile ?p c)"
    using s by (auto simp: split_once_def split: if_splits)
  then have ne: "dropWhile ?p c \<noteq> []" by (auto simp: dropWhile_eq_Nil_conv)
  then have "hd (dropWhile ?p c) = newline" using hd_dropWhile by blast
  then have "dropWhile ?p c = newline # rest" using ne f by (metis list.collapse)
  then have "c = first @ newline # rest" using f by (metis takeWhile_dropWhile_id)
  then show ?thesis using f set_takeWhileD by fastforce
qed

lemma split_frontmatter_iff:
  "split_frontmatter_bytes c = Some (fm, body) \<longleftrightarrow>
     (\<exists>first pre cl. block_at c fm first pre cl) \<and> c = fm @ body"
proof
  assume s: "split_frontmatter_bytes c = Some (fm, body)"
  then obtain first rest e where o: "split_once newline c = Some (first, rest)"
      and d: "is_frontmatter_delimiter_line first" and e: "close_end 0 (split_inclusive rest) = Some e"
      and fm: "fm = take (length c - length rest + e) c" "body = drop (length c - length rest + e) c"
    by (auto simp: split_frontmatter_bytes_def Let_def split: option.splits prod.splits if_splits)
  note c = split_once_SomeD [OF o]
  from close_end_Some [OF e] obtain pre cl post
    where p: "split_inclusive rest = pre @ cl # post" "is_frontmatter_delimiter_line (strip_newline cl)"
      "\<forall>l\<in>set pre. \<not> is_frontmatter_delimiter_line (strip_newline l)" "e = length (concat pre) + length cl"
    by auto
  have "rest = concat pre @ cl @ concat post"
    using arg_cong [OF p(1), of concat] by simp
  then have "fm = first @ newline # concat pre @ cl" using fm c p(4) by simp
  then show "(\<exists>first pre cl. block_at c fm first pre cl) \<and> c = fm @ body"
    using c d p fm unfolding block_at_def by (metis append_take_drop_id)
next
  assume "(\<exists>first pre cl. block_at c fm first pre cl) \<and> c = fm @ body"
  then obtain first pre cl rest post where
      fm: "fm = first @ newline # concat pre @ cl" and n: "newline \<notin> set first"
      and d: "is_frontmatter_delimiter_line first" "is_frontmatter_delimiter_line (strip_newline cl)"
        "\<forall>l\<in>set pre. \<not> is_frontmatter_delimiter_line (strip_newline l)"
      and c: "c = first @ newline # rest" "c = fm @ body" and r: "split_inclusive rest = pre @ cl # post"
    unfolding block_at_def by blast
  have "close_end 0 (split_inclusive rest) = Some (length (concat pre) + length cl)"
    using close_end_append [OF d(3,2)] unfolding r by simp
  moreover have "length c - length rest + (length (concat pre) + length cl) = length fm"
    using c(1) fm by simp
  ultimately show "split_frontmatter_bytes c = Some (fm, body)"
  proof -
    assume close: "close_end 0 (split_inclusive rest) = Some (length (concat pre) + length cl)"
      and len: "length c - length rest + (length (concat pre) + length cl) = length fm"
    have so: "split_once newline c = Some (first, rest)" using split_once_newline [OF n] c(1) by simp
    have "take (length fm) c = fm" "drop (length fm) c = body" using c(2) by simp_all
    then show ?thesis by (simp add: split_frontmatter_bytes_def Let_def so close len d(1))
  qed
qed

section \<open>Appending leaves the document in front\<close>

lemma split_inclusive_concat_prefix: "split_inclusive s = A @ B \<Longrightarrow> split_inclusive (concat A) = A"
proof (induction s arbitrary: A)
  case (Cons b s)
  show ?case
  proof (cases A)
    case (Cons a A')
    show ?thesis
    proof (cases "b = newline")
      case True
      then have "a = [newline]" "split_inclusive s = A' @ B" using Cons Cons.prems by auto
      then show ?thesis using Cons Cons.IH by simp
    next
      case False
      show ?thesis
      proof (cases "split_inclusive s")
        case Nil
        then show ?thesis using Cons Cons.prems False by auto
      next
        case sp: (Cons p ps)
        then have "a = b # p" "split_inclusive s = (p # A') @ B" using Cons Cons.prems False by auto
        then show ?thesis using Cons Cons.IH [of "p # A'"] False by simp
      qed
    qed
  qed simp
qed simp

text \<open>The block of a document that continues after it is the same block.\<close>

lemma block_at_extend:
  assumes "block_at c fm first pre cl" "last fm = newline"
  shows "block_at (fm @ other) fm first pre cl"
proof -
  obtain rest post where fm: "fm = first @ newline # concat pre @ cl" and r: "split_inclusive rest = pre @ cl # post"
    using assms(1) unfolding block_at_def by blast
  have "cl \<in> set (split_inclusive rest)" using r by simp
  then have cl: "cl \<noteq> []" by (metis Nil_notin_split_inclusive)
  have "split_inclusive rest = (pre @ [cl]) @ post" using r by simp
  then have "split_inclusive (concat pre @ cl) = pre @ [cl]"
    using split_inclusive_concat_prefix [of rest "pre @ [cl]" post] by simp
  moreover have "last (concat pre @ cl) = newline" using cl assms(2) fm by simp
  ultimately have "split_inclusive (concat pre @ cl @ other) = pre @ cl # split_inclusive other"
    using split_inclusive_append [of "concat pre @ cl" other] by simp
  then show ?thesis using assms(1) fm unfolding block_at_def by auto
qed

lemma split_frontmatter_extend:
  assumes "split_frontmatter_bytes c = Some (fm, body)" "last fm = newline"
  shows "split_frontmatter_bytes (c @ extra) = Some (fm, body @ extra)"
  using assms block_at_extend unfolding split_frontmatter_iff by fastforce

lemma apply_append_extends:
  "\<exists>extra. apply_append old new_text = old @ extra \<and> last (apply_append old new_text) = newline"
proof -
  obtain fm body where p: "(case split_frontmatter_bytes old of Some p \<Rightarrow> p | None \<Rightarrow> ([], old)) = (fm, body)"
    by fastforce
  then have c: "old = fm @ body"
    using split_frontmatter_iff by (auto split: option.splits)
  have "detect_newline old \<noteq> []" "last (detect_newline old) = newline"
    by (auto simp: detect_newline_def split: option.splits)
  then show ?thesis unfolding apply_append_def p by (auto simp: Let_def c)
qed

text \<open>
  Appending never rewrites: the old document, byte for byte, is the beginning of the new one, the
  new one ends with a line terminator, and its frontmatter block is the old block, so that the text
  went into the body (for a block that is terminated, as every block followed by a body is).
\<close>

theorem append_extends_document:
  "\<exists>extra. apply_append old new_text = old @ extra
     \<and> last (apply_append old new_text) = newline
     \<and> (\<forall>fm body. split_frontmatter_bytes old = Some (fm, body) \<and> last fm = newline
           \<longrightarrow> split_frontmatter_bytes (apply_append old new_text) = Some (fm, body @ extra))"
  using apply_append_extends [of old new_text] split_frontmatter_extend by fastforce


definition demo_doc :: string where
  "demo_doc = ''---'' @ [newline] @ ''# note'' @ [newline] @ ''title: A'' @ [newline] @ ''tags: [x]'' @ [newline]
     @ ''---'' @ [newline] @ ''text''"

lemma append_extends_document_witness:
  "apply_append demo_doc ''end'' = demo_doc @ [newline] @ ''end'' @ [newline]
   \<and> split_frontmatter_bytes (apply_append demo_doc ''end'')
       = Some (take 34 demo_doc, ''text'' @ [newline] @ ''end'' @ [newline])"
proof -
  have s: "split_frontmatter_bytes demo_doc = Some (take 34 demo_doc, ''text'')"
    "last (take 34 demo_doc) = newline"
    "apply_append demo_doc ''end'' = demo_doc @ [newline] @ ''end'' @ [newline]" by code_simp+
  obtain extra where e: "apply_append demo_doc ''end'' = demo_doc @ extra"
      "split_frontmatter_bytes (apply_append demo_doc ''end'') = Some (take 34 demo_doc, ''text'' @ extra)"
    using append_extends_document [of demo_doc "''end''"] s(1,2) by blast
  with s(3) show ?thesis by simp
qed

section \<open>Patching changes only what was asked\<close>

abbreviation entries_text :: "(string \<times> string list) list \<Rightarrow> string" where
  "entries_text entries \<equiv> concat (map (\<lambda>e. concat (snd e)) entries)"

lemma segment_line_text:
  assumes "segment_line env (pre, entries) line = Some (pre', entries')"
  shows "pre' @ entries_text entries' = (pre @ entries_text entries) @ line
    \<and> (distinct (map fst entries) \<longrightarrow> distinct (map fst entries'))"
proof (cases "top_level_key env (trim_crlf line)")
  case (Some key)
  with assms show ?thesis by (auto simp: segment_line_def Let_def split: if_splits)
next
  case None
  show ?thesis
  proof (cases "entries = []")
    case True
    with assms None show ?thesis by (auto simp: segment_line_def Let_def split: if_splits)
  next
    case False
    then obtain es key body where es: "entries = es @ [(key, body)]" by (metis prod.exhaust rev_exhaust)
    with assms None False show ?thesis by (auto simp: segment_line_def Let_def split: if_splits)
  qed
qed

lemma segment_lines_text:
  "segment_lines env st lines = Some st' \<Longrightarrow>
     fst st' @ entries_text (snd st') = (fst st @ entries_text (snd st)) @ concat lines
     \<and> (distinct (map fst (snd st)) \<longrightarrow> distinct (map fst (snd st')))"
proof (induction env st lines rule: segment_lines.induct)
  case (2 env st line lines)
  then obtain st1 where s: "segment_line env st line = Some st1" "segment_lines env st1 lines = Some st'"
    by (auto split: option.splits)
  then show ?case
    using 2 segment_line_text [of env "fst st" "snd st" line "fst st1" "snd st1"] by auto
qed simp

lemma collect_options_Some:
  "collect_options xs = Some ys \<longleftrightarrow> xs = map Some ys"
  by (induction xs arbitrary: ys rule: collect_options.induct) auto

text \<open>
  What a splice keeps: the entries of the old block partition it, an unchanged field keeps its lines,
  a removed one keeps at most its trailing lines, and fields are added only when they are new.
\<close>

definition entry_kept :: "jobj \<Rightarrow> jobj \<Rightarrow> string \<times> string list \<Rightarrow> string \<Rightarrow> bool" where
  "entry_kept original updated e piece \<longleftrightarrow>
     (map_of original (fst e) = map_of updated (fst e) \<longrightarrow> piece = concat (snd e))
     \<and> (\<exists>written. \<exists>n \<ge> 1. piece = written @ concat (drop n (snd e)) \<or> piece = concat (snd e))
     \<and> (map_of updated (fst e) = None \<longrightarrow> (\<exists>n. piece = concat (drop n (snd e))))"

definition untouched_kept :: "jobj \<Rightarrow> jobj \<Rightarrow> string \<Rightarrow> string \<Rightarrow> bool" where
  "untouched_kept original updated old_block new_block \<longleftrightarrow>
     (\<exists>head_line entries pieces added close.
        old_block = head_line @ entries_text entries @ close
        \<and> new_block = head_line @ concat pieces @ added @ close
        \<and> distinct (map fst entries) \<and> set (map fst entries) = fst ` set original
        \<and> list_all2 (entry_kept original updated) entries pieces
        \<and> (fst ` set updated \<subseteq> fst ` set original \<longrightarrow> added = []))"

lemma tail_start_pos: "1 \<le> tail_start body"
proof -
  let ?c = "\<lambda>l. let b = trim_crlf l in \<not> (is_blank b \<or> starts_with b ''#'')"
  have "drop_right (\<lambda>l. \<not> ?c l) body \<noteq> []" if "filter ?c body \<noteq> []"
    using that unfolding drop_right_eq_Nil filter_empty_conv by blast
  then have "1 \<le> length (drop_right (\<lambda>l. \<not> ?c l) body)" if "filter ?c body \<noteq> []"
    using that by (simp add: Suc_le_eq)
  then show ?thesis unfolding tail_start_def by (simp only: Let_def split: if_split) simp
qed

lemma splice_entry_kept:
  assumes "splice_entry env original updated nl e = Some piece"
  shows "entry_kept original updated e piece"
proof -
  obtain key body where e: "e = (key, body)" by (cases e)
  let ?kept = "concat (drop (tail_start body) body)"
  consider (same) "map_of original key = map_of updated key" "piece = concat (drop 0 body)"
    | (gone) "map_of original key \<noteq> map_of updated key" "piece = [] @ ?kept"
    | (new) v written where "map_of updated key = Some v" "map_of original key \<noteq> Some v" "piece = written @ ?kept"
    using assms by (auto simp: splice_entry_def e Let_def split: if_splits option.splits)
  then show ?thesis
  proof cases
    case same
    then show ?thesis unfolding entry_kept_def e by (metis drop0 order_refl snd_conv)
  next
    case gone
    then show ?thesis using tail_start_pos [of body] unfolding entry_kept_def e by auto
  next
    case new
    then show ?thesis using tail_start_pos [of body] unfolding entry_kept_def e by auto
  qed
qed

lemma splice_untouched_kept:
  assumes "splice_frontmatter_block env old_block original updated nl = Some new_block" "distinct (map fst original)"
  shows "untouched_kept original updated old_block new_block"
proof -
  obtain head_line l ls pre entries pieces added where
      lines: "split_inclusive old_block = head_line # l # ls"
      and seg: "segment_lines env ([], []) (butlast (l # ls)) = Some (pre, entries)"
      and len: "length entries = length original" "\<forall>e\<in>set entries. map_of original (fst e) \<noteq> None"
      and pieces: "collect_options (map (splice_entry env original updated nl) entries) = Some pieces"
      and added: "collect_options (splice_added env original updated nl) = Some added"
      and new: "new_block = head_line @ pre @ concat pieces @ concat added @ last (l # ls)"
    using assms(1) unfolding splice_frontmatter_block_def Let_def
    by (auto split: list.splits if_splits option.splits prod.splits)
  let ?close = "last (l # ls)"
  have "old_block = head_line @ concat (butlast (l # ls)) @ ?close"
    using arg_cong [OF lines, of concat] append_butlast_last_id [of "l # ls"]
    by (metis concat.simps(2) concat_append concat_split_inclusive concat.simps(1) append_Nil2 list.distinct(1))
  moreover have "concat (butlast (l # ls)) = pre @ entries_text entries" and d: "distinct (map fst entries)"
    using segment_lines_text [OF seg] by simp_all
  ultimately have old: "old_block = (head_line @ pre) @ entries_text entries @ ?close" by simp
  have "set (map fst entries) \<subseteq> fst ` set original"
    using len(2) by (auto simp: map_of_eq_None_iff)
  moreover have "card (set (map fst entries)) = card (fst ` set original)"
    using d assms(2) len(1) by (metis distinct_card length_map set_map)
  ultimately have keys: "set (map fst entries) = fst ` set original"
    by (simp add: card_subset_eq)
  have "list_all2 (entry_kept original updated) entries pieces"
  proof -
    have "list_all2 (=) (map (splice_entry env original updated nl) entries) (map Some pieces)"
      using pieces by (simp add: collect_options_Some list.rel_eq)
    then show ?thesis
      unfolding list.rel_map by (rule list_all2_mono) (rule splice_entry_kept)
  qed
  moreover have "concat added = []" if "fst ` set updated \<subseteq> fst ` set original"
  proof -
    have "splice_added env original updated nl = []"
      using that by (force simp: splice_added_def filter_empty_conv map_of_eq_None_iff)
    then show ?thesis using added by simp
  qed
  ultimately show ?thesis
    unfolding untouched_kept_def using old new d keys by (metis append.assoc)
qed


lemma split_frontmatter_nonempty: "split_frontmatter_bytes c = Some (fm, body) \<Longrightarrow> fm \<noteq> []"
  unfolding split_frontmatter_iff block_at_def by auto

fun edit_field :: "frontmatter_edit \<Rightarrow> string" where
  "edit_field (SetField field v) = field"
| "edit_field (RemoveField field) = field"
| "edit_field (AddValues field vs) = field"
| "edit_field (RemoveValues field vs) = field"

lemma apply_edit_other:
  "apply_edit m e = Ok m' \<Longrightarrow> apart (edit_field e) q \<Longrightarrow> get_by_dotpath m' q = get_by_dotpath m q"
proof (cases e)
  case (RemoveField field)
  assume "apply_edit m e = Ok m'" "apart (edit_field e) q"
  then have "m' = fst (remove_by_dotpath m field)" "apart field q"
    by (auto simp: RemoveField split: prod.splits if_splits)
  then show ?thesis by (simp add: dotpath.get_del_other)
qed (auto simp: dotpath.get_put_other split: option.splits json.splits)

lemma apply_edits_other:
  "apply_edits m es = Ok m' \<Longrightarrow> \<forall>e\<in>set es. apart (edit_field e) q \<Longrightarrow>
     get_by_dotpath m' q = get_by_dotpath m q"
proof (induction m es rule: apply_edits.induct)
  case (2 m e es)
  then obtain m1 where "apply_edit m e = Ok m1" "apply_edits m1 es = Ok m'"
    by (auto simp: outcome_simps)
  with 2 show ?case using apply_edit_other by auto
qed simp



text \<open>A concrete environment: a parser and a printer of the two maps of the example.\<close>

definition demo_block :: string where
  "demo_block = ''---'' @ [newline] @ ''# note'' @ [newline] @ ''title: B'' @ [newline] @ ''tags: [x]'' @ [newline]
     @ ''---'' @ [newline]"

definition demo_fields :: "string \<Rightarrow> jobj" where
  "demo_fields title = [(''tags'', JArray [JString ''x'']), (''title'', JString title)]"

definition demo_yaml :: yaml_env where
  "demo_yaml = \<lparr>
     ye_parse = (\<lambda>s. if s = demo_doc then (demo_fields ''A'', ''text'')
                     else if s = demo_block then (demo_fields ''B'', [])
                     else ([(''title'', JString ''B'')], [])),
     ye_to_string = (\<lambda>m. if m = [(''title'', JString ''B'')] then Inr (''title: B'' @ [newline]) else Inl ''no''),
     ye_scalar = (\<lambda>s. None)\<rparr>"


text \<open>
  A set through a scalar is not refused: the edit is answered with success and changes nothing.
\<close>

lemma set_through_scalar_is_dropped:
  "apply_edit [(''status'', JString ''draft'')] (SetField ''status.owner'' (JString ''x''))
     = Ok [(''status'', JString ''draft'')]"
  by code_simp

end
