(* ===== verification/Links.thy ===== *)
theory Links
  imports Headings Paths
begin

text \<open>
  The link scanner of \<open>src/src/ingest.rs\<close> (\<open>scan_link_occurrences\<close> and the functions it calls) and the
  span rewriters of \<open>src/src/write.rs\<close> that use it: re-pointing the links of a document and turning
  links into plain text.

  A line is scanned as its list of characters; \<open>byte_at\<close> turns a character index into a byte offset.
  Spans are pairs of byte offsets. \<open>lower\<close> is Rust's Unicode \<open>to_lowercase\<close>.
\<close>

section \<open>Characters of a line\<close>

definition trim_start :: "string \<Rightarrow> string" where
  "trim_start s = concat (dropWhile is_whitespace (chars s))"

definition non_whitespace_len :: "string \<Rightarrow> nat" where
  "non_whitespace_len s = length (concat (takeWhile (\<lambda>c. \<not> is_whitespace c) (chars s)))"

fun find_sub :: "string \<Rightarrow> string \<Rightarrow> nat option" where
  "find_sub pat [] = (if pat = [] then Some 0 else None)"
| "find_sub pat (b # bs) =
     (if starts_with (b # bs) pat then Some 0 else map_option Suc (find_sub pat bs))"

abbreviation bytes_of :: "string \<Rightarrow> nat \<Rightarrow> nat \<Rightarrow> string" where
  "bytes_of s i j \<equiv> take (j - i) (drop i s)"

abbreviation chars_of :: "string list \<Rightarrow> nat \<Rightarrow> nat \<Rightarrow> string" where
  "chars_of cs i j \<equiv> concat (take (j - i) (drop i cs))"

definition byte_at :: "string list \<Rightarrow> nat \<Rightarrow> nat" where
  "byte_at cs i = length (concat (take i cs))"

definition char_is :: "string list \<Rightarrow> nat \<Rightarrow> string \<Rightarrow> bool" where
  "char_is cs i c \<longleftrightarrow> i < length cs \<and> cs ! i = c"

section \<open>Constructs\<close>

definition find_bracket_close :: "string list \<Rightarrow> nat \<Rightarrow> nat option" where
  "find_bracket_close cs open_idx =
     map_option ((+) (open_idx + 1)) (position (\<lambda>c. c = '']'') (drop (open_idx + 1) cs))"

definition find_double_bracket_close :: "string list \<Rightarrow> nat \<Rightarrow> nat option" where
  "find_double_bracket_close cs open_idx =
     find (\<lambda>j. cs ! j = '']'' \<and> cs ! (j + 1) = '']'') [open_idx + 2..<length cs - 1]"

text \<open>The content, the index after the closing bracket, and whether there is white space inside.\<close>

definition scan_autolink_candidate :: "string list \<Rightarrow> nat \<Rightarrow> (nat \<times> nat \<times> nat \<times> bool) option" where
  "scan_autolink_candidate cs open_idx =
     (case position (\<lambda>c. c = ''>'' \<or> c = ''<'') (drop (open_idx + 1) cs) of
        None \<Rightarrow> None
      | Some d \<Rightarrow>
          let j = open_idx + 1 + d in
          if cs ! j \<noteq> ''>'' then None
          else Some (open_idx + 1, j, j + 1, \<exists>c\<in>set (take d (drop (open_idx + 1) cs)). is_whitespace c))"

fun closing_paren :: "nat \<Rightarrow> string list \<Rightarrow> nat option" where
  "closing_paren depth [] = None"
| "closing_paren depth (c # cs) =
     (if c = ''('' then map_option Suc (closing_paren (depth + 1) cs)
      else if c = '')''
      then (if depth = 1 then Some 0 else map_option Suc (closing_paren (depth - 1) cs))
      else map_option Suc (closing_paren depth cs))"

definition find_link_parens :: "string list \<Rightarrow> nat \<Rightarrow> (nat \<times> nat \<times> nat) option" where
  "find_link_parens cs bracket =
     (case find_bracket_close cs bracket of
        None \<Rightarrow> None
      | Some j \<Rightarrow>
          if \<not> char_is cs (j + 1) ''('' then None
          else case closing_paren 1 (drop (j + 2) cs) of
                 None \<Rightarrow> None
               | Some d \<Rightarrow> Some (j + 2, j + 2 + d, j + 2 + d + 1))"

definition skip_image :: "string list \<Rightarrow> nat \<Rightarrow> nat" where
  "skip_image cs bracket =
     (case find_bracket_close cs bracket of
        None \<Rightarrow> bracket + 1
      | Some label_close \<Rightarrow>
          if char_is cs (label_close + 1) ''(''
          then (case find_link_parens cs bracket of Some (_, _, after) \<Rightarrow> after | None \<Rightarrow> label_close + 1)
          else case (if char_is cs (label_close + 1) ''['' then find_bracket_close cs (label_close + 1) else None) of
                 Some ref_close \<Rightarrow> ref_close + 1
               | None \<Rightarrow> label_close + 1)"

definition normalize_ref_label :: "(string \<Rightarrow> string) \<Rightarrow> string \<Rightarrow> string" where
  "normalize_ref_label lower label =
     lower (join '' '' (map concat (filter (\<lambda>w. w \<noteq> []) (split_by is_whitespace (chars label)))))"

datatype raw_link_kind = Explicit | Wiki

text \<open>An occurrence: the span of its target, the target as written, the syntax.\<close>

type_synonym raw_occurrence = "(nat \<times> nat) \<times> string \<times> raw_link_kind"

definition occurrence_at :: "string list \<Rightarrow> nat \<Rightarrow> nat \<Rightarrow> raw_link_kind \<Rightarrow> raw_occurrence" where
  "occurrence_at cs i j kind = ((byte_at cs i, byte_at cs j), chars_of cs i j, kind)"

text \<open>
  What the loop body does at a character outside code spans: how far it goes, the occurrence and the
  reference label it records.
\<close>

definition wiki_target_end :: "string list \<Rightarrow> nat \<Rightarrow> nat \<Rightarrow> nat" where
  "wiki_target_end cs target_start close =
     (case position (\<lambda>c. c = ''|'') (take (close - target_start) (drop target_start cs)) of
        Some rel \<Rightarrow> target_start + rel | None \<Rightarrow> close)"

definition scan_label ::
    "(string \<Rightarrow> string) \<Rightarrow> string list \<Rightarrow> nat \<Rightarrow> nat \<times> raw_occurrence list \<times> string list" where
  "scan_label lower cs i =
     (case find_bracket_close cs i of
        None \<Rightarrow> (i + 1, [], [])
      | Some label1_close \<Rightarrow>
          let label1 = chars_of cs (i + 1) label1_close in
          case (if char_is cs (label1_close + 1) ''['' then find_bracket_close cs (label1_close + 1) else None) of
            Some label2_close \<Rightarrow>
              let label2 = chars_of cs (label1_close + 2) label2_close;
                  effective = (if trim label2 = [] then label1 else label2)
              in (label2_close + 1, [], [normalize_ref_label lower effective])
          | None \<Rightarrow> (label1_close + 1, [], [normalize_ref_label lower label1]))"

definition scan_bracket ::
    "(string \<Rightarrow> string) \<Rightarrow> string list \<Rightarrow> nat \<Rightarrow> nat \<times> raw_occurrence list \<times> string list" where
  "scan_bracket lower cs i =
     (case find_link_parens cs i of
        Some (target_start, target_end, after) \<Rightarrow>
          (after, [occurrence_at cs target_start target_end Explicit], [])
      | None \<Rightarrow> scan_label lower cs i)"

definition scan_construct ::
    "(string \<Rightarrow> string) \<Rightarrow> string list \<Rightarrow> nat \<Rightarrow> nat \<times> raw_occurrence list \<times> string list" where
  "scan_construct lower cs i =
     (if char_is cs i ''!'' \<and> char_is cs (i + 1) ''['' then (skip_image cs (i + 1), [], [])
      else case (if char_is cs i ''['' \<and> char_is cs (i + 1) ''['' then find_double_bracket_close cs i else None) of
        Some close \<Rightarrow>
          (close + 2, [occurrence_at cs (i + 2) (wiki_target_end cs (i + 2) close) Wiki], [])
      | None \<Rightarrow>
          (case (if char_is cs i ''<'' then scan_autolink_candidate cs i else None) of
             Some (content_start, content_end, after, has_whitespace) \<Rightarrow>
               (after, (if has_whitespace then [] else [occurrence_at cs content_start content_end Explicit]), [])
           | None \<Rightarrow> if char_is cs i ''['' then scan_bracket lower cs i else (i + 1, [], [])))"

definition backtick_run :: "string list \<Rightarrow> nat \<Rightarrow> nat" where
  "backtick_run cs i = length (takeWhile (\<lambda>c. c = ''`'') (drop i cs))"

lemma position_Some:
  assumes "position p xs = Some d"
  shows "d < length xs \<and> p (xs ! d)"
  using assms nth_length_takeWhile [of "\<lambda>x. \<not> p x" xs]
  by (auto simp: position_def Let_def split: if_splits)

lemma find_bracket_close_gt: "find_bracket_close cs i = Some j \<Longrightarrow> i < j \<and> j < length cs \<and> cs ! j = '']''"
proof -
  assume "find_bracket_close cs i = Some j"
  then obtain d where d: "position (\<lambda>c. c = '']'') (drop (i + 1) cs) = Some d" "j = i + 1 + d"
    by (auto simp: find_bracket_close_def)
  then have "d < length (drop (i + 1) cs)" "drop (i + 1) cs ! d = '']''"
    using nth_length_takeWhile [of "\<lambda>c. c \<noteq> '']''" "drop (i + 1) cs"]
    by (auto simp: position_def Let_def split: if_splits)
  then show ?thesis using d by auto
qed

lemma find_link_parens_bounds:
  assumes "find_link_parens cs i = Some (a, b, after)"
  shows "i < a \<and> a \<le> b \<and> b < after \<and> after \<le> length cs"
proof -
  have close: "closing_paren depth xs = Some d \<Longrightarrow> d < length xs" for depth xs d
    by (induction depth xs arbitrary: d rule: closing_paren.induct) (auto split: if_splits)
  from assms obtain j d where "find_bracket_close cs i = Some j" "closing_paren 1 (drop (j + 2) cs) = Some d"
      "a = j + 2" "b = j + 2 + d" "after = j + 2 + d + 1"
    by (auto simp: find_link_parens_def split: option.splits if_splits)
  then show ?thesis using find_bracket_close_gt [of cs i j] close [of 1 "drop (j + 2) cs" d] by auto
qed

lemma find_double_bracket_close_bounds:
  "find_double_bracket_close cs i = Some j \<Longrightarrow> i + 2 \<le> j \<and> j + 2 \<le> length cs"
  by (auto simp: find_double_bracket_close_def find_Some_iff)

lemma scan_autolink_bounds:
  assumes "scan_autolink_candidate cs i = Some (a, b, after, w)"
  shows "i < a \<and> a \<le> b \<and> b < after \<and> after \<le> length cs"
proof -
  obtain d where d: "position (\<lambda>c. c = ''>'' \<or> c = ''<'') (drop (i + 1) cs) = Some d"
      and ab: "a = i + 1" "b = i + 1 + d" "after = i + 1 + d + 1"
    using assms unfolding scan_autolink_candidate_def by (auto simp: Let_def split: option.splits if_splits)
  show ?thesis using position_Some [OF d] ab by auto
qed

lemma skip_image_gt: "i < skip_image cs i"
proof (cases "find_bracket_close cs i")
  case (Some close)
  note c = find_bracket_close_gt [OF this]
  show ?thesis
  proof (cases "char_is cs (close + 1) ''(''")
    case True
    then show ?thesis
      using c Some find_link_parens_bounds [of cs i] by (cases "find_link_parens cs i") (auto simp: skip_image_def)
  next
    case False
    then show ?thesis
      using c Some find_bracket_close_gt [of cs "close + 1"]
      by (cases "find_bracket_close cs (close + 1)") (auto simp: skip_image_def)
  qed
qed (simp add: skip_image_def)

lemma wiki_target_end_bounds:
  assumes "a \<le> close" "close \<le> length cs"
  shows "a \<le> wiki_target_end cs a close \<and> wiki_target_end cs a close \<le> close"
  using assms by (auto simp: wiki_target_end_def position_def Let_def split: option.splits if_splits)

text \<open>An occurrence whose target lies strictly inside the characters \<open>lo\<close> to \<open>hi\<close>.\<close>

definition occ_within :: "string list \<Rightarrow> nat \<Rightarrow> nat \<Rightarrow> raw_occurrence \<Rightarrow> bool" where
  "occ_within cs lo hi occ \<longleftrightarrow>
     (\<exists>a b kind. lo < a \<and> a \<le> b \<and> b < hi \<and> hi \<le> length cs \<and> occ = occurrence_at cs a b kind)"

lemma occ_withinI:
  "lo < a \<Longrightarrow> a \<le> b \<Longrightarrow> b < hi \<Longrightarrow> hi \<le> length cs \<Longrightarrow> occ_within cs lo hi (occurrence_at cs a b kind)"
  unfolding occ_within_def by blast

lemma scan_label_progress:
  assumes "scan_label lower cs i = (after, occs, uses)"
  shows "i < after \<and> occs = []"
proof (cases "find_bracket_close cs i")
  case (Some close)
  then show ?thesis
    using assms find_bracket_close_gt [OF Some] find_bracket_close_gt [of cs "close + 1"]
    by (cases "find_bracket_close cs (close + 1)") (auto simp: scan_label_def Let_def split: if_splits)
qed (use assms in \<open>simp add: scan_label_def\<close>)

lemma scan_construct_progress:
  assumes "scan_construct lower cs i = (after, occs, uses)"
  shows "i < after \<and> (occs = [] \<or> (\<exists>occ. occs = [occ] \<and> occ_within cs i after occ))"
proof -
  consider (image) "after = skip_image cs (i + 1)" "occs = []"
    | (wiki) close where "find_double_bracket_close cs i = Some close" "after = close + 2"
        "occs = [occurrence_at cs (i + 2) (wiki_target_end cs (i + 2) close) Wiki]"
    | (auto) a b w where "scan_autolink_candidate cs i = Some (a, b, after, w)"
        "occs = [] \<or> occs = [occurrence_at cs a b Explicit]"
    | (inline) a b where "find_link_parens cs i = Some (a, b, after)" "occs = [occurrence_at cs a b Explicit]"
    | (label) "scan_label lower cs i = (after, occs, uses)"
    | (char) "after = i + 1" "occs = []"
    using assms unfolding scan_construct_def scan_bracket_def
    by (auto split: if_splits option.splits prod.splits)
  then show ?thesis
  proof cases
    case image
    then show ?thesis using skip_image_gt [of "i + 1" cs] by auto
  next
    case wiki
    then show ?thesis
      using find_double_bracket_close_bounds [OF wiki(1)] wiki_target_end_bounds [of "i + 2" close cs]
      by (simp add: occ_withinI)
  next
    case auto
    have "i < a" "a \<le> b" "b < after" "after \<le> length cs" using scan_autolink_bounds [OF auto(1)] by auto
    then have "i < after" "occ_within cs i after (occurrence_at cs a b Explicit)" by (auto intro: occ_withinI)
    then show ?thesis using auto(2) by blast
  next
    case inline
    have "i < a" "a \<le> b" "b < after" "after \<le> length cs" using find_link_parens_bounds [OF inline(1)] by auto
    then have "i < after" "occ_within cs i after (occurrence_at cs a b Explicit)" by (auto intro: occ_withinI)
    then show ?thesis using inline(2) by blast
  next
    case label
    then show ?thesis using scan_label_progress by blast
  qed simp
qed

lemma scan_construct_after: "(after, occs, uses) = scan_construct lower cs i \<Longrightarrow> i < after"
  using scan_construct_progress by metis

lemma backtick_run_pos:
  assumes "char_is cs i ''`''"
  shows "0 < backtick_run cs i"
proof -
  have "drop i cs = ''`'' # drop (Suc i) cs"
    using assms Cons_nth_drop_Suc [of i cs] by (simp add: char_is_def)
  then show ?thesis by (simp add: backtick_run_def)
qed

text \<open>
  The loop over a line. \<open>code\<close> is the length of the backtick run that opened the code span the scan is
  in; only a run of the same length closes it.
\<close>

function scan_from ::
    "(string \<Rightarrow> string) \<Rightarrow> string list \<Rightarrow> nat \<Rightarrow> nat option \<Rightarrow> raw_occurrence list \<times> string list" where
  "scan_from lower cs i code =
     (if length cs \<le> i then ([], [])
      else if char_is cs i ''`''
      then (let run = backtick_run cs i in
            scan_from lower cs (i + run)
              (case code of None \<Rightarrow> Some run | Some r \<Rightarrow> if run = r then None else code))
      else if code \<noteq> None then scan_from lower cs (i + 1) code
      else case scan_construct lower cs i of
             (after, occs, uses) \<Rightarrow>
               (case scan_from lower cs after None of
                  (occs', uses') \<Rightarrow> (occs @ occs', uses @ uses')))"
  by pat_completeness auto
termination
  by (relation "measure (\<lambda>(lower, cs, i, code). length cs - i)")
    (auto dest: backtick_run_pos scan_construct_after)

declare scan_from.simps [simp del]

definition scan_line_constructs :: "(string \<Rightarrow> string) \<Rightarrow> string \<Rightarrow> raw_occurrence list \<times> string list" where
  "scan_line_constructs lower line = scan_from lower (chars line) 0 None"

section \<open>Documents\<close>

text \<open>A reference definition: its label, the span of its target and the target.\<close>

definition parse_reference_definition ::
    "(string \<Rightarrow> string) \<Rightarrow> string \<Rightarrow> (string \<times> (nat \<times> nat) \<times> string) option" where
  "parse_reference_definition lower line =
     (let trimmed = trim_start line; indent = length line - length trimmed in
      if 3 < indent \<or> \<not> starts_with trimmed ''['' then None
      else
        let rest = drop 1 trimmed in
        case find_sub '']:'' rest of
          None \<Rightarrow> None
        | Some colon_idx \<Rightarrow>
            let label = take colon_idx rest in
            if label = [] then None
            else
              let after_colon = drop (colon_idx + 2) rest;
                  target = trim_start after_colon;
                  leading_ws = length after_colon - length target;
                  target_len = non_whitespace_len target
              in if target_len = 0 then None
                 else
                   let raw_target = take target_len target;
                       start = indent + 1 + colon_idx + 2 + leading_ws
                   in Some (normalize_ref_label lower label, (start, start + length raw_target), raw_target))"

record link_scan =
  sc_fence :: bool
  sc_offset :: nat
  sc_out :: "raw_occurrence list"
  sc_defs :: "(string \<times> (nat \<times> nat) \<times> string) list"
  sc_used :: "string list"

definition shift_span :: "nat \<Rightarrow> nat \<times> nat \<Rightarrow> nat \<times> nat" where
  "shift_span offset span = (offset + fst span, offset + snd span)"

definition line_content :: "string \<Rightarrow> string" where
  "line_content line =
     (let content = (if ends_with line [newline] then butlast line else line)
      in if ends_with content [CHR 0x0D] then butlast content else content)"

definition scan_line :: "(string \<Rightarrow> string) \<Rightarrow> link_scan \<Rightarrow> string \<Rightarrow> link_scan" where
  "scan_line lower st line =
     (let content = line_content line; trimmed = trim_start content;
          st' = st\<lparr>sc_offset := sc_offset st + length line\<rparr> in
      if starts_with trimmed ''```'' \<or> starts_with trimmed ''~~~''
      then st'\<lparr>sc_fence := \<not> sc_fence st\<rparr>
      else if sc_fence st then st'
      else case parse_reference_definition lower content of
             Some (label, span, raw) \<Rightarrow>
               st'\<lparr>sc_defs := sc_defs st @ [(label, shift_span (sc_offset st) span, raw)]\<rparr>
           | None \<Rightarrow>
               (case scan_line_constructs lower content of
                  (occs, uses) \<Rightarrow>
                    st'\<lparr>sc_out := sc_out st @ map (\<lambda>(span, rest). (shift_span (sc_offset st) span, rest)) occs,
                        sc_used := sc_used st @ uses\<rparr>))"

definition scan_lines :: "(string \<Rightarrow> string) \<Rightarrow> string \<Rightarrow> link_scan" where
  "scan_lines lower body =
     foldl (scan_line lower) \<lparr>sc_fence = False, sc_offset = 0, sc_out = [], sc_defs = [], sc_used = []\<rparr>
       (split_inclusive body)"

text \<open>
  The definitions of the used labels, the first one of each label. The labels come from a hash set:
  their order does not matter, since the starts the result is sorted by are distinct.
\<close>

definition used_definitions :: "link_scan \<Rightarrow> raw_occurrence list" where
  "used_definitions st =
     List.map_filter (\<lambda>label. map_option (\<lambda>(span, raw). (span, raw, Explicit)) (map_of (sc_defs st) label))
       (remdups (sc_used st))"

definition scan_link_occurrences :: "(string \<Rightarrow> string) \<Rightarrow> string \<Rightarrow> raw_occurrence list" where
  "scan_link_occurrences lower body =
     (let st = scan_lines lower body in sort_key (\<lambda>occ. fst (fst occ)) (sc_out st @ used_definitions st))"

section \<open>Targets\<close>

definition link_target_path_range :: "string \<Rightarrow> nat \<times> nat" where
  "link_target_path_range raw_target =
     (let lead = length raw_target - length (trim_start raw_target);
          target = trim raw_target;
          len = non_whitespace_len target;
          len = (case position (\<lambda>b. b = CHR ''#'') (take len target) of Some hash \<Rightarrow> hash | None \<Rightarrow> len)
      in (lead, lead + len))"

definition resolve_link_target :: "string \<Rightarrow> string \<Rightarrow> raw_link_kind \<Rightarrow> string option" where
  "resolve_link_target raw_target source_rel_path kind =
     (case link_target_path_range raw_target of (i, j) \<Rightarrow>
        let target = bytes_of raw_target i j; lowered = map ascii_lower target in
        if target = [] then None
        else if starts_with lowered ''http://'' \<or> starts_with lowered ''https://'' \<or> starts_with lowered ''mailto:''
          \<or> starts_with target ''/'' \<or> contains target ''://''
        then None
        else if ends_with target ''.md'' then resolve_relative_md_path target source_rel_path
        else if kind = Wiki then resolve_relative_md_path (target @ ''.md'') source_rel_path
        else None)"

record link_occurrence =
  lo_span :: "nat \<times> nat"
  lo_path_span :: "nat \<times> nat"
  lo_raw :: string
  lo_resolved :: string

definition link_occurrence_of :: "string \<Rightarrow> raw_occurrence \<Rightarrow> link_occurrence option" where
  "link_occurrence_of source_rel_path occ =
     (case occ of (span, raw, kind) \<Rightarrow>
        map_option (\<lambda>resolved.
          \<lparr>lo_span = span, lo_path_span = shift_span (fst span) (link_target_path_range raw),
           lo_raw = raw, lo_resolved = resolved\<rparr>)
          (resolve_link_target raw source_rel_path kind))"

definition find_markdown_link_occurrences ::
    "(string \<Rightarrow> string) \<Rightarrow> string \<Rightarrow> string \<Rightarrow> link_occurrence list" where
  "find_markdown_link_occurrences lower body source_rel_path =
     List.map_filter (link_occurrence_of source_rel_path) (scan_link_occurrences lower body)"

definition extract_markdown_links :: "(string \<Rightarrow> string) \<Rightarrow> string \<Rightarrow> string \<Rightarrow> string list" where
  "extract_markdown_links lower body source_rel_path =
     foldl (\<lambda>out (span, raw, kind).
         case resolve_link_target raw source_rel_path kind of
           Some resolved \<Rightarrow> if resolved \<in> set out then out else out @ [resolved]
         | None \<Rightarrow> out)
       [] (scan_link_occurrences lower body)"

section \<open>Rewriting\<close>

text \<open>
  \<open>String::replace_range\<close>: it panics when the range is out of bounds or does not lie on character
  boundaries.
\<close>

definition starts_char :: "string \<Rightarrow> bool" where
  "starts_char s \<longleftrightarrow> s = [] \<or> \<not> is_cont (hd s)"

definition is_char_boundary :: "string \<Rightarrow> nat \<Rightarrow> bool" where
  "is_char_boundary s i \<longleftrightarrow> i \<le> length s \<and> (i = 0 \<or> starts_char (drop i s))"

definition replace_range :: "nat \<times> nat \<Rightarrow> string \<Rightarrow> string \<Rightarrow> (string, string) outcome" where
  "replace_range span repl s =
     (if fst span \<le> snd span \<and> is_char_boundary s (fst span) \<and> is_char_boundary s (snd span)
      then Ok (take (fst span) s @ repl @ drop (snd span) s) else Panic)"

text \<open>Edits in descending order of their start; \<open>sort_by_key\<close> with \<open>Reverse\<close> is stable.\<close>

definition back_to_front :: "((nat \<times> nat) \<times> string) list \<Rightarrow> ((nat \<times> nat) \<times> string) list" where
  "back_to_front edits = rev (sort_key (\<lambda>e. fst (fst e)) (rev edits))"

definition replace_all :: "((nat \<times> nat) \<times> string) list \<Rightarrow> string \<Rightarrow> (string, string) outcome" where
  "replace_all edits body =
     foldl (\<lambda>out (span, repl). bind_outcome out (replace_range span repl)) (Ok body) (back_to_front edits)"

definition apply_link_replacements_each ::
    "string \<Rightarrow> (link_occurrence \<times> string) list \<Rightarrow> (string, string) outcome" where
  "apply_link_replacements_each body replacements =
     replace_all (map (\<lambda>(occ, r). (lo_path_span occ, r)) replacements) body"

definition apply_link_replacements :: "string \<Rightarrow> link_occurrence list \<Rightarrow> string \<Rightarrow> (string, string) outcome" where
  "apply_link_replacements body occs replacement =
     apply_link_replacements_each body (map (\<lambda>occ. (occ, replacement)) occs)"

definition true_target :: "(string \<Rightarrow> string option) \<Rightarrow> link_occurrence \<Rightarrow> string" where
  "true_target translate occ =
     (case translate (lo_resolved occ) of Some t \<Rightarrow> t | None \<Rightarrow> lo_resolved occ)"

definition rewrite_outbound_links ::
    "(string \<Rightarrow> string) \<Rightarrow> string \<Rightarrow> string \<Rightarrow> string \<Rightarrow> (string \<Rightarrow> string option) \<Rightarrow> (string, string) outcome" where
  "rewrite_outbound_links lower content old_rel new_rel translate =
     (let occs = find_markdown_link_occurrences lower content old_rel in
      if occs = [] then Ok content
      else apply_link_replacements_each content
        (map (\<lambda>occ. (occ, relativize_md_path new_rel (true_target translate occ))) occs))"

section \<open>Links into plain text\<close>

definition after_last :: "char \<Rightarrow> string \<Rightarrow> nat" where
  "after_last c s = length (drop_right (\<lambda>b. b \<noteq> c) s)"

definition unlink_edit :: "string \<Rightarrow> link_occurrence \<Rightarrow> ((nat \<times> nat) \<times> string) option" where
  "unlink_edit body occ =
     (let start = fst (lo_span occ); stop = snd (lo_span occ);
          before = take start body; after = drop stop body;
          line_end = (case position (\<lambda>b. b = newline) after of Some i \<Rightarrow> i | None \<Rightarrow> length after);
          line_start = after_last newline before; raw = trim (lo_raw occ)
      in
      if ends_with before ''[[''
      then (case find_sub '']]'' (take line_end after) of
              None \<Rightarrow> None
            | Some close \<Rightarrow>
                let alias = (if starts_with (take close after) ''|'' then trim (drop 1 (take close after)) else [])
                in Some ((start - 2, stop + close + 2), if alias \<noteq> [] then alias else raw))
      else if ends_with before ''<'' \<and> \<not> ends_with before ''(<'' \<and> starts_with after ''>''
      then Some ((start - 1, stop + 1), raw)
      else if ends_with before '']('' 
      then (let label_close = length before - 2;
                seg = bytes_of before line_start label_close in
            if CHR ''['' \<notin> set seg then None
            else case position (\<lambda>b. b = CHR '')'') (take line_end after) of
                   None \<Rightarrow> None
                 | Some paren \<Rightarrow>
                     let open_idx = line_start + (after_last CHR ''['' seg - 1);
                         label = trim (bytes_of before (open_idx + 1) label_close)
                     in Some ((open_idx, stop + paren + 1), if label = [] then raw else label))
      else
        let lead = trim (drop line_start before) in
        if starts_with lead ''['' \<and> ends_with lead '']:''
        then Some ((line_start, if line_end < length after then stop + line_end + 1 else stop + line_end), [])
        else None)"

definition unlink_occurrences :: "string \<Rightarrow> link_occurrence list \<Rightarrow> (string, string) outcome" where
  "unlink_occurrences body occs = replace_all (List.map_filter (unlink_edit body) occs) body"


section \<open>Character groups\<close>

text \<open>What \<open>chars\<close> produces: only the first group may start with a continuation byte.\<close>

definition char_groups :: "string list \<Rightarrow> bool" where
  "char_groups gs \<longleftrightarrow> (\<forall>g\<in>set gs. g \<noteq> [] \<and> (\<forall>b\<in>set (tl g). is_cont b)) \<and> (\<forall>g\<in>set (tl gs). \<not> is_cont (hd g))"

lemma char_groups_Cons:
  "char_groups (g # gs) \<longleftrightarrow>
     g \<noteq> [] \<and> (\<forall>b\<in>set (tl g). is_cont b) \<and> (\<forall>h\<in>set gs. \<not> is_cont (hd h)) \<and> char_groups gs"
  unfolding char_groups_def by (cases gs) auto

lemma char_groups_chars: "char_groups (chars s)"
proof (induction s rule: chars.induct)
  case (2 b bs)
  have "\<not> is_cont (hd g)" if g: "g \<in> set (chars (dropWhile is_cont bs))" for g
  proof (cases "dropWhile is_cont bs")
    case n: Nil
    show ?thesis using g unfolding n by simp
  next
    case c: (Cons c cs)
    have "\<not> is_cont c" using hd_dropWhile [of is_cont bs] c by simp
    then show ?thesis using g 2 by (auto simp: c char_groups_Cons)
  qed
  then show ?case using 2 by (auto simp: char_groups_Cons dest: set_takeWhileD)
qed (simp add: char_groups_def)

lemma char_groups_drop: "char_groups gs \<Longrightarrow> char_groups (drop k gs)"
  unfolding char_groups_def by (metis in_set_dropD drop_Suc drop_tl tl_drop)

lemma char_groups_take: "char_groups gs \<Longrightarrow> char_groups (take k gs)"
  unfolding char_groups_def by (metis in_set_takeD tl_take)

lemma char_groups_tail: "char_groups gs \<Longrightarrow> 0 < k \<Longrightarrow> starts_char (concat (drop k gs))"
proof -
  assume g: "char_groups gs" "0 < k"
  show ?thesis
  proof (cases "drop k gs")
    case (Cons h hs)
    then have "h \<in> set (drop (k - 1) (tl gs))" using g(2) by (metis drop_Suc list.set_intros(1) Suc_diff_1)
    then have "h \<in> set (tl gs)" by (rule in_set_dropD)
    moreover have "h \<in> set gs" using Cons by (metis in_set_dropD list.set_intros(1))
    ultimately have "h \<noteq> []" "\<not> is_cont (hd h)" using g(1) by (auto simp: char_groups_def)
    then show ?thesis by (simp add: Cons starts_char_def)
  qed (simp add: starts_char_def)
qed

lemma chars_groups: "char_groups gs \<Longrightarrow> chars (concat gs) = gs"
proof (induction gs)
  case (Cons g gs)
  obtain b bs where g: "g = b # bs" "\<forall>x\<in>set bs. is_cont x"
    using Cons.prems by (cases g) (auto simp: char_groups_def)
  have "char_groups gs" using char_groups_drop [OF Cons.prems, of 1] by simp
  moreover have "takeWhile is_cont (bs @ concat gs) = bs \<and> dropWhile is_cont (bs @ concat gs) = concat gs"
  proof (cases "concat gs")
    case n: Nil
    show ?thesis using g(2) unfolding n by (simp add: takeWhile_eq_all_conv)
  next
    case c: (Cons c cs)
    have "starts_char (concat gs)" using char_groups_tail [OF Cons.prems, of 1] by simp
    then show ?thesis using g(2) c by (simp add: starts_char_def)
  qed
  ultimately show ?case using Cons.IH g by simp
qed simp

text \<open>After an ASCII byte of a valid string a character starts.\<close>

lemma valid_after_ascii:
  "valid_str s \<Longrightarrow> s = u @ b # w \<Longrightarrow> byte_val b < 128 \<Longrightarrow> starts_char w"
proof (induction s arbitrary: u rule: chars.induct)
  case (2 a bs)
  have v: "is_char (a # takeWhile is_cont bs)" "valid_str (dropWhile is_cont bs)"
    using 2(2) by (auto simp: valid_str_def)
  show ?case
  proof (cases u)
    case Nil
    then have "a = b" "w = bs" using 2(3) by simp_all
    then have "takeWhile is_cont bs = []" using v(1) 2(4) by (simp add: is_char_def)
    then show ?thesis using \<open>w = bs\<close> by (cases bs) (auto simp: starts_char_def split: if_splits)
  next
    case (Cons c u')
    then have bs: "bs = u' @ b # w" using 2(3) by simp
    have "\<not> is_cont b" using 2(4) by (simp add: is_cont_def)
    then have "dropWhile is_cont bs = dropWhile is_cont u' @ b # w"
      unfolding bs by (induction u') auto
    then show ?thesis using 2(1) [OF v(2) _ 2(4)] by blast
  qed
qed simp

section \<open>One line\<close>

text \<open>
  A located item: its target starts after \<open>lo\<close>, ends by \<open>hi\<close>, is the text between, and lies on
  character boundaries.
\<close>

definition located :: "string \<Rightarrow> nat \<Rightarrow> nat \<Rightarrow> (nat \<times> nat) \<times> string \<Rightarrow> bool" where
  "located body lo hi item \<longleftrightarrow>
     (case item of ((i, j), raw) \<Rightarrow>
        lo < i \<and> i \<le> j \<and> j \<le> hi \<and> j \<le> length body \<and> bytes_of body i j = raw
        \<and> is_char_boundary body i \<and> is_char_boundary body j)"

definition before_span :: "nat \<times> nat \<Rightarrow> nat \<times> nat \<Rightarrow> bool" where
  "before_span s t \<longleftrightarrow> snd s < fst t"

abbreviation occ_item :: "raw_occurrence \<Rightarrow> (nat \<times> nat) \<times> string" where
  "occ_item occ \<equiv> (fst occ, fst (snd occ))"

abbreviation before_occ :: "raw_occurrence \<Rightarrow> raw_occurrence \<Rightarrow> bool" where
  "before_occ x y \<equiv> before_span (fst x) (fst y)"

lemma byte_at_less:
  assumes "char_groups cs" "a < b" "b \<le> length cs"
  shows "byte_at cs a < byte_at cs b"
proof -
  have "take b cs = take a cs @ take (b - a) (drop a cs)"
    using assms(2) by (metis add_diff_inverse_nat not_less_iff_gr_or_eq take_add)
  moreover have "cs ! a \<in> set cs" "cs ! a \<noteq> []"
    using assms by (auto simp: char_groups_def)
  moreover have "take (b - a) (drop a cs) = cs ! a # take (b - a - 1) (drop (Suc a) cs)"
    using assms(2,3) by (cases "b - a") (simp_all flip: Cons_nth_drop_Suc)
  ultimately show ?thesis by (simp add: byte_at_def)
qed

lemma byte_at_mono: "a \<le> b \<Longrightarrow> byte_at cs a \<le> byte_at cs b"
  by (metis byte_at_def concat_append le_add1 le_add_diff_inverse length_append take_add)

lemma byte_at_le: "byte_at cs a \<le> length (concat cs)"
  by (metis append_take_drop_id byte_at_def concat_append le_add1 length_append)

lemma scan_from_spans:
  "scan_from lower cs i code = (occs, uses) \<Longrightarrow> char_groups cs \<Longrightarrow>
     (\<forall>occ\<in>set occs. \<exists>a b kind. i < a \<and> a \<le> b \<and> b < length cs \<and> occ = occurrence_at cs a b kind)
     \<and> sorted_wrt before_occ occs"
proof (induction lower cs i code arbitrary: occs uses rule: scan_from.induct)
  case (1 lower cs i code)
  note scan = 1(4) and groups = 1(5)
  consider (over) "length cs \<le> i"
    | (tick) "\<not> length cs \<le> i" "char_is cs i ''`''"
    | (code) "\<not> length cs \<le> i" "\<not> char_is cs i ''`''" "code \<noteq> None"
    | (construct) "\<not> length cs \<le> i" "\<not> char_is cs i ''`''" "code = None" by blast
  then show ?case
  proof cases
    case over
    then show ?thesis using scan by (simp add: scan_from.simps)
  next
    case tick
    from 1(1) [OF tick refl _ groups] scan tick
    have "(\<forall>occ\<in>set occs. \<exists>a b kind. i + backtick_run cs i < a \<and> a \<le> b \<and> b < length cs
        \<and> occ = occurrence_at cs a b kind) \<and> sorted_wrt before_occ occs"
      unfolding scan_from.simps [of lower cs i code] by (simp add: Let_def)
    then show ?thesis by (meson add_lessD1)
  next
    case code
    from 1(2) [OF code _ groups] scan code
    have "(\<forall>occ\<in>set occs. \<exists>a b kind. i + 1 < a \<and> a \<le> b \<and> b < length cs
        \<and> occ = occurrence_at cs a b kind) \<and> sorted_wrt before_occ occs"
      unfolding scan_from.simps [of lower cs i code] by simp
    then show ?thesis by (meson add_lessD1)
  next
    case construct
    obtain after occs1 uses1 where c: "scan_construct lower cs i = (after, occs1, uses1)" by (metis prod.exhaust)
    obtain occs2 uses2 where r: "scan_from lower cs after None = (occs2, uses2)" by fastforce
    have occs: "occs = occs1 @ occs2"
      using scan construct unfolding scan_from.simps [of lower cs i code] by (simp add: c r)
    have IH: "\<forall>occ\<in>set occs2. \<exists>a b kind. after < a \<and> a \<le> b \<and> b < length cs \<and> occ = occurrence_at cs a b kind"
        "sorted_wrt before_occ occs2"
      using 1(3) [OF construct(1,2) _ c [symmetric] refl r groups] construct(3) by auto
    have p: "i < after" "occs1 = [] \<or> (\<exists>occ. occs1 = [occ] \<and> occ_within cs i after occ)"
      using scan_construct_progress [OF c] by auto
    have sep: "before_occ x y" if x: "occ_within cs i after x" and y: "y \<in> set occs2" for x y
    proof -
      obtain a b kind where "b < after" "after \<le> length cs" "x = occurrence_at cs a b kind"
        using x by (auto simp: occ_within_def)
      moreover obtain a' b' kind' where "after < a'" "a' \<le> b'" "b' < length cs" "y = occurrence_at cs a' b' kind'"
        using IH(1) y by blast
      ultimately show ?thesis
        using byte_at_less [OF groups, of b a'] by (simp add: before_span_def occurrence_at_def)
    qed
    have "\<exists>a b kind. i < a \<and> a \<le> b \<and> b < length cs \<and> x = occurrence_at cs a b kind"
      if "occ_within cs i after x" for x
      using that unfolding occ_within_def by (metis order_less_le_trans)
    moreover have "\<exists>a b kind. i < a \<and> a \<le> b \<and> b < length cs \<and> x = occurrence_at cs a b kind"
      if "x \<in> set occs2" for x
      using IH(1) that p(1) by (meson order_less_trans)
    ultimately show ?thesis using p(2) IH(2) sep unfolding occs by (auto simp: sorted_wrt_append)
  qed
qed

end
