(* ===== verification/LinkRewrite.thy ===== *)
theory LinkRewrite
  imports Links
begin

text \<open>
  What the link scanner of \<open>Links\<close> guarantees about the spans it returns (they lie on character
  boundaries, inside the document, in order and apart from each other), and what follows for the
  rewriting of a moved document's links (\<open>rewrite_outbound_links\<close> in \<open>src/src/write.rs\<close>).
\<close>

section \<open>Spans in a line\<close>

lemma starts_char_append: "starts_char s \<Longrightarrow> starts_char t \<Longrightarrow> starts_char (s @ t)"
  by (cases s) (auto simp: starts_char_def)

lemma starts_char_prefix: "starts_char (s @ t) \<Longrightarrow> starts_char s"
  by (cases s) (auto simp: starts_char_def)

lemma boundary_in_context:
  assumes "is_char_boundary c i" "0 < i" "starts_char rest"
  shows "is_char_boundary (pre @ c @ rest) (length pre + i)"
  using assms starts_char_append [of "drop i c" rest] by (simp add: is_char_boundary_def)

lemma located_in_context:
  assumes "located c 0 (length c) (span, raw)" "starts_char rest"
  shows "located (pre @ c @ rest) (length pre) (length pre + length c) (shift_span (length pre) span, raw)"
proof -
  obtain i j where span: "span = (i, j)" by fastforce
  have *: "0 < i" "i \<le> j" "j \<le> length c" "bytes_of c i j = raw" "is_char_boundary c i" "is_char_boundary c j"
    using assms(1) by (simp_all add: located_def span)
  have "bytes_of (pre @ c @ rest) (length pre + i) (length pre + j) = raw"
    using * by simp
  then show ?thesis
    using * boundary_in_context [of c _ rest pre] assms(2) by (simp add: located_def span shift_span_def)
qed

lemma bytes_of_chars:
  assumes "a \<le> b"
  shows "bytes_of (concat cs) (byte_at cs a) (byte_at cs b) = chars_of cs a b"
proof -
  have "cs = take a cs @ take (b - a) (drop a cs) @ drop b cs"
    using assms by (metis append_assoc append_take_drop_id le_add_diff_inverse take_add)
  then have "concat cs = concat (take a cs) @ chars_of cs a b @ concat (drop b cs)"
    by (metis concat_append)
  moreover have "take b cs = take a cs @ take (b - a) (drop a cs)"
    using assms by (metis le_add_diff_inverse take_add)
  ultimately show ?thesis by (simp add: byte_at_def)
qed

lemma drop_byte_at: "drop (byte_at cs a) (concat cs) = concat (drop a cs)"
  by (metis append_eq_conv_conj append_take_drop_id byte_at_def concat_append)

lemma byte_at_boundary:
  assumes "char_groups cs"
  shows "is_char_boundary (concat cs) (byte_at cs a)"
proof (cases "a = 0")
  case False
  then show ?thesis
    using char_groups_tail [OF assms, of a] byte_at_le [of cs a] by (simp add: is_char_boundary_def drop_byte_at)
qed (simp add: is_char_boundary_def byte_at_def)

lemma occurrence_located:
  assumes "0 < a" "a \<le> b" "b \<le> length (chars c)"
  shows "located c 0 (length c) (occ_item (occurrence_at (chars c) a b kind))"
proof -
  note g = char_groups_chars [of c]
  have "0 < byte_at (chars c) a"
    using byte_at_less [OF g, of 0 a] assms by (simp add: byte_at_def)
  moreover have "byte_at (chars c) a \<le> byte_at (chars c) b" "byte_at (chars c) b \<le> length c"
    using byte_at_mono [OF assms(2)] byte_at_le [of "chars c" b] by auto
  moreover have "bytes_of c (byte_at (chars c) a) (byte_at (chars c) b) = chars_of (chars c) a b"
    using bytes_of_chars [OF assms(2), of "chars c"] by simp
  moreover have "is_char_boundary c (byte_at (chars c) k)" for k
    using byte_at_boundary [OF g] by simp
  ultimately show ?thesis by (simp add: located_def occurrence_at_def)
qed

lemma line_constructs_located:
  assumes "scan_line_constructs lower c = (occs, uses)"
  shows "(\<forall>occ\<in>set occs. located c 0 (length c) (occ_item occ)) \<and> sorted_wrt before_occ occs"
proof -
  note s = scan_from_spans [OF assms [unfolded scan_line_constructs_def] char_groups_chars]
  then show ?thesis using occurrence_located by (metis order_less_imp_le)
qed

lemma starts_char_dropWhile:
  assumes "starts_char s"
  shows "starts_char (concat (dropWhile P (chars s)))"
proof -
  let ?k = "length (takeWhile P (chars s))"
  have "dropWhile P (chars s) = drop ?k (chars s)" by (rule dropWhile_eq_drop)
  then show ?thesis
    using assms char_groups_tail [OF char_groups_chars, of ?k s] by (cases "?k = 0") auto
qed

lemma starts_char_skip:
  assumes "starts_char s"
  shows "starts_char (drop (non_whitespace_len s) s)"
proof -
  let ?p = "\<lambda>c. \<not> is_whitespace c"
  have "s = concat (takeWhile ?p (chars s)) @ concat (dropWhile ?p (chars s))"
    by (metis concat_append concat_chars takeWhile_dropWhile_id)
  then have "drop (non_whitespace_len s) s = concat (dropWhile ?p (chars s))"
    by (metis append_eq_conv_conj non_whitespace_len_def)
  then show ?thesis using starts_char_dropWhile [OF assms] by simp
qed

lemma non_whitespace_len_le: "non_whitespace_len s \<le> length s"
  by (metis concat_append concat_chars le_add1 length_append non_whitespace_len_def takeWhile_dropWhile_id)

lemma trim_start_suffix: "\<exists>ws. s = ws @ trim_start s"
  by (metis concat_append concat_chars takeWhile_dropWhile_id trim_start_def)

lemma find_sub_Some: "find_sub pat s = Some i \<Longrightarrow> \<exists>u w. s = u @ pat @ w \<and> length u = i"
proof (induction s arbitrary: i)
  case (Cons b s)
  show ?case
  proof (cases "starts_with (b # s) pat")
    case True
    then show ?thesis using Cons.prems by (auto simp: starts_with_iff)
  next
    case False
    then obtain k where "find_sub pat s = Some k" "i = Suc k" using Cons.prems by auto
    then show ?thesis using Cons.IH [of k] by (metis append_Cons length_Cons)
  qed
qed (auto split: if_splits)

lemma reference_definition_located:
  assumes "parse_reference_definition lower c = Some (label, span, raw)"
    and colon: "\<And>u w. c = u @ '':'' @ w \<Longrightarrow> starts_char w"
  shows "located c 0 (length c) (span, raw)"
proof -
  obtain ind where ind: "c = ind @ trim_start c" using trim_start_suffix by blast
  then have li: "length c - length (trim_start c) = length ind" by (metis add_diff_cancel_right' length_append)
  obtain rest where rest: "trim_start c = ''['' @ rest" and d: "drop 1 (trim_start c) = rest"
    using assms(1) by (auto simp: parse_reference_definition_def Let_def starts_with_iff split: if_splits)
  obtain k where k: "find_sub '']:'' rest = Some k"
    using assms(1) d by (auto simp: parse_reference_definition_def Let_def split: if_splits option.splits)
  then obtain u w where w: "rest = u @ '']:'' @ w" "length u = k" using find_sub_Some by blast
  obtain ws where ws: "w = ws @ trim_start w" using trim_start_suffix by blast
  then have lw: "length w - length (trim_start w) = length ws" by (metis add_diff_cancel_right' length_append)
  define target where "target = trim_start w"
  define len where "len = non_whitespace_len target"
  have dk: "drop (k + 2) rest = w" using w by simp
  define start where "start = length ind + 1 + k + 2 + length ws"
  have raw: "raw = take len target" and span: "span = (start, start + len)"
    using assms(1) non_whitespace_len_le [of target]
    unfolding parse_reference_definition_def Let_def d k option.case dk lw li len_def target_def start_def
    by (auto split: if_splits)
  have c: "c = (ind @ ''['' @ u @ '']:'' @ ws) @ target"
    using ind rest w ws by (simp add: target_def)
  have le: "len \<le> length target" by (simp add: len_def non_whitespace_len_le)
  have "starts_char w"
    by (rule colon [of "ind @ ''['' @ u @ '']''"]) (use ind rest w in simp)
  then have t: "starts_char target"
    unfolding target_def trim_start_def by (rule starts_char_dropWhile)
  have p: "length (ind @ ''['' @ u @ '']:'' @ ws) = start" using w(2) by (simp add: start_def)
  then have dc: "drop start c = target" by (metis append_eq_conv_conj c)
  have dc2: "drop (start + len) c = drop len target" by (metis dc drop_drop add.commute)
  have lc: "length c = start + length target" by (metis c length_append p)
  show ?thesis
    using t starts_char_skip [OF t] le
    by (simp add: located_def span raw is_char_boundary_def dc dc2 lc start_def [symmetric] flip: len_def)
      (simp add: start_def)
qed


section \<open>The whole document\<close>

definition apart :: "nat \<times> nat \<Rightarrow> nat \<times> nat \<Rightarrow> bool" where
  "apart s t \<longleftrightarrow> before_span s t \<or> before_span t s"

abbreviation def_item :: "string \<times> (nat \<times> nat) \<times> string \<Rightarrow> (nat \<times> nat) \<times> string" where
  "def_item d \<equiv> snd d"

definition scan_items :: "link_scan \<Rightarrow> ((nat \<times> nat) \<times> string) list" where
  "scan_items st = map occ_item (sc_out st) @ map def_item (sc_defs st)"

text \<open>What has been found so far lies in the text read so far, every two targets apart.\<close>

definition scan_inv :: "string \<Rightarrow> link_scan \<Rightarrow> bool" where
  "scan_inv body st \<longleftrightarrow>
     list_all (located body 0 (sc_offset st)) (scan_items st)
     \<and> sorted_wrt (\<lambda>x y. apart (fst x) (fst y)) (scan_items st)"

lemma located_weaken:
  "located body lo hi item \<Longrightarrow> lo' \<le> lo \<Longrightarrow> hi \<le> hi' \<Longrightarrow> located body lo' hi' item"
  by (auto simp: located_def split: prod.splits)

lemma located_before: "located body lo hi x \<Longrightarrow> located body hi hi' y \<Longrightarrow> before_span (fst x) (fst y)"
  by (auto simp: located_def before_span_def split: prod.splits)

lemma insert_items:
  assumes "items = xs @ zs @ ys \<or> items = (xs @ ys) @ zs"
  shows "set items = set (xs @ ys) \<union> set zs"
    and "sorted_wrt R (xs @ ys) \<Longrightarrow> sorted_wrt R zs \<Longrightarrow> \<forall>x\<in>set (xs @ ys). \<forall>z\<in>set zs. R x z \<and> R z x
      \<Longrightarrow> sorted_wrt R items"
  using assms by (auto simp: sorted_wrt_append)

lemma scan_line_cases:
  obtains (skipped) "sc_out (scan_line lower st l) = sc_out st" "sc_defs (scan_line lower st l) = sc_defs st"
  | (defined) label span raw where
      "parse_reference_definition lower (line_content l) = Some (label, span, raw)"
      "sc_out (scan_line lower st l) = sc_out st"
      "sc_defs (scan_line lower st l) = sc_defs st @ [(label, shift_span (sc_offset st) span, raw)]"
  | (scanned) occs uses where
      "scan_line_constructs lower (line_content l) = (occs, uses)"
      "sc_out (scan_line lower st l) =
         sc_out st @ map (\<lambda>(span, rest). (shift_span (sc_offset st) span, rest)) occs"
      "sc_defs (scan_line lower st l) = sc_defs st"
proof -
  let ?t = "trim_start (line_content l)"
  consider (skip) "starts_with ?t ''```'' \<or> starts_with ?t ''~~~'' \<or> sc_fence st"
    | (d) d where "\<not> (starts_with ?t ''```'' \<or> starts_with ?t ''~~~'')" "\<not> sc_fence st"
        "parse_reference_definition lower (line_content l) = Some d"
    | (s) "\<not> (starts_with ?t ''```'' \<or> starts_with ?t ''~~~'')" "\<not> sc_fence st"
        "parse_reference_definition lower (line_content l) = None" by blast
  then show thesis
  proof cases
    case skip
    then show ?thesis by (intro skipped) (auto simp: scan_line_def Let_def)
  next
    case d
    obtain label span raw where "d = (label, span, raw)" by (metis prod.exhaust)
    then show ?thesis using d by (intro defined [of label span raw]) (simp_all add: scan_line_def Let_def)
  next
    case s
    obtain occs uses where "scan_line_constructs lower (line_content l) = (occs, uses)" by fastforce
    then show ?thesis using s by (intro scanned [of occs uses]) (simp_all add: scan_line_def Let_def)
  qed
qed

lemma scan_line_offset: "sc_offset (scan_line lower st l) = sc_offset st + length l"
  by (simp add: scan_line_def Let_def split: option.split prod.split)

lemma cut_terminator: "\<exists>e. s = (if ends_with s [c] then butlast s else s) @ e \<and> set e \<subseteq> {c}"
proof (cases "ends_with s [c]")
  case True
  then obtain r where "s = r @ [c]" by (auto simp: ends_with_iff)
  then show ?thesis using True by (intro exI [of _ "[c]"]) simp
qed (rule exI [of _ "[]"], simp)

lemma line_content_prefix: "\<exists>e. l = line_content l @ e \<and> (e = [] \<or> \<not> is_cont (hd e))"
proof -
  define m where "m = (if ends_with l [newline] then butlast l else l)"
  have "line_content l = (if ends_with m [CHR 0x0D] then butlast m else m)"
    by (simp only: line_content_def m_def Let_def)
  then obtain e2 where e2: "m = line_content l @ e2" "set e2 \<subseteq> {CHR 0x0D}"
    using cut_terminator [of m "CHR 0x0D"] by auto
  obtain e1 where e1: "l = m @ e1" "set e1 \<subseteq> {newline}"
    using cut_terminator [of l newline] by (auto simp flip: m_def)
  have "l = line_content l @ e2 @ e1" using e1(1) e2(1) by (metis append_assoc)
  moreover have "e2 @ e1 = [] \<or> hd (e2 @ e1) \<in> {newline, CHR 0x0D}"
    using e1(2) e2(2) by (cases e2; cases e1) simp_all
  moreover have "\<not> is_cont newline" "\<not> is_cont (CHR 0x0D)" by code_simp+
  ultimately have "l = line_content l @ (e2 @ e1) \<and> (e2 @ e1 = [] \<or> \<not> is_cont (hd (e2 @ e1)))" by auto
  then show ?thesis by (rule exI)
qed

text \<open>The text after a line's content starts a character.\<close>

lemma rest_starts_char:
  assumes "l = line_content l @ e" "e = [] \<or> \<not> is_cont (hd e)" "post = [] \<or> ends_with l [newline]"
  shows "starts_char (e @ post)"
proof (cases e)
  case Nil
  have "line_content l \<noteq> l" if n: "ends_with l [newline]"
  proof -
    have "length (line_content l) \<le> length (butlast l)" by (simp add: line_content_def Let_def n) arith
    moreover have "length (butlast l) < length l" using n by (auto simp: ends_with_iff)
    ultimately show ?thesis by auto
  qed
  then show ?thesis using assms Nil by (auto simp: starts_char_def)
qed (use assms in \<open>auto simp: starts_char_def\<close>)

lemma scan_line_inv:
  assumes inv: "scan_inv body st" and body: "body = pre @ l @ post" "sc_offset st = length pre"
    and ends: "post = [] \<or> ends_with l [newline]" and valid: "valid_str body"
  shows "scan_inv body (scan_line lower st l)"
proof -
  obtain e where e: "l = line_content l @ e" "e = [] \<or> \<not> is_cont (hd e)" using line_content_prefix by blast
  define c where "c = line_content l"
  have body': "body = pre @ c @ (e @ post)" using body(1) e(1) by (simp add: c_def)
  have rest: "starts_char (e @ post)" by (rule rest_starts_char [OF e ends])
  have len: "length c \<le> length l" using e(1) unfolding c_def by (metis le_add1 length_append)
  define st' where "st' = scan_line lower st l"
  have offset: "sc_offset st' = length pre + length l" by (simp add: st'_def scan_line_offset body)
  have old: "\<forall>x\<in>set (scan_items st). located body 0 (length pre) x"
      "sorted_wrt (\<lambda>x y. apart (fst x) (fst y)) (scan_items st)"
    using inv by (simp_all add: scan_inv_def list_all_iff body(2))
  have found: "located body (length pre) (length pre + length l) (shift_span (length pre) span, raw)"
    if "located c 0 (length c) (span, raw)" for span raw
    using located_weaken [OF located_in_context [OF that rest, of pre]] len body' by simp
  define new where "new zs \<longleftrightarrow>
    (\<forall>z\<in>set zs. located body (length pre) (length pre + length l) z)
    \<and> sorted_wrt (\<lambda>x y. apart (fst x) (fst y)) zs" for zs
  have step: "scan_inv body st'"
    if n: "new zs" and
      items: "scan_items st' = map occ_item (sc_out st) @ zs @ map def_item (sc_defs st)
        \<or> scan_items st' = scan_items st @ zs" for zs
  proof -
    note insert = insert_items [OF items [unfolded scan_items_def [of st]], folded scan_items_def [of st]]
    have "located body 0 (length pre + length l) x" if "x \<in> set (scan_items st)" for x
      using old(1) that located_weaken [of body 0 "length pre" x 0] by simp
    moreover have "located body 0 (length pre + length l) x" if "x \<in> set zs" for x
      using n that located_weaken [of body "length pre" "length pre + length l" x 0] by (simp add: new_def)
    ultimately have "list_all (located body 0 (sc_offset st')) (scan_items st')"
      unfolding list_all_iff offset insert(1) by blast
    have "apart (fst x) (fst z) \<and> apart (fst z) (fst x)" if "x \<in> set (scan_items st)" "z \<in> set zs" for x z
      using located_before [of body 0 "length pre" x _ z] old(1) n that by (auto simp: new_def apart_def)
    then have "sorted_wrt (\<lambda>x y. apart (fst x) (fst y)) (scan_items st')"
      using old(2) n by (intro insert(2)) (simp_all add: new_def)
    with \<open>list_all _ _\<close> show ?thesis by (simp add: scan_inv_def)
  qed
  show ?thesis
  proof (cases rule: scan_line_cases [of lower st l])
    case skipped
    then have "scan_items st' = scan_items st @ []" by (simp add: scan_items_def st'_def)
    then show ?thesis using step [of "[]"] by (simp add: new_def st'_def)
  next
    case (defined label span raw)
    have "starts_char w" if "c = u @ '':'' @ w" for u w
    proof -
      have "body = (pre @ u) @ CHR '':'' # (w @ e @ post)" using body' that by simp
      then have "starts_char (w @ e @ post)" by (rule valid_after_ascii [OF valid]) simp
      then show ?thesis by (rule starts_char_prefix)
    qed
    then have "located c 0 (length c) (span, raw)"
      using reference_definition_located [OF defined(1)] by (simp add: c_def)
    then have "new [(shift_span (length pre) span, raw)]" using found by (simp add: new_def)
    moreover have "scan_items st' = scan_items st @ [(shift_span (length pre) span, raw)]"
      using defined(2,3) by (simp add: scan_items_def st'_def body(2))
    ultimately show ?thesis using step unfolding st'_def by blast
  next
    case (scanned occs uses)
    note occs = line_constructs_located [OF scanned(1), folded c_def]
    define zs where "zs = map (\<lambda>occ. (shift_span (length pre) (fst occ), fst (snd occ))) occs"
    have "located body (length pre) (length pre + length l) z" if "z \<in> set zs" for z
      using that occs found by (auto simp: zs_def)
    moreover have "sorted_wrt (\<lambda>x y. apart (fst x) (fst y)) zs"
      unfolding zs_def sorted_wrt_map
      by (rule sorted_wrt_mono_rel [OF _ conjunct2 [OF occs]])
        (auto simp: apart_def before_span_def shift_span_def)
    ultimately have "new zs" by (simp add: new_def)
    moreover have "scan_items st' = map occ_item (sc_out st) @ zs @ map def_item (sc_defs st)"
      using scanned(2,3) by (auto simp: scan_items_def st'_def body(2) zs_def)
    ultimately show ?thesis using step unfolding st'_def by blast
  qed
qed

lemma split_inclusive_terminated:
  "split_inclusive s = ls @ l # ls' \<Longrightarrow> ls' = [] \<or> ends_with l [newline]"
proof (induction s arbitrary: ls l)
  case (Cons b s)
  show ?case
  proof (cases "b = newline")
    case True
    then show ?thesis using Cons by (cases ls) (auto simp: ends_with_iff)
  next
    case other: False
    show ?thesis
    proof (cases "split_inclusive s")
      case n: Nil
      then show ?thesis using Cons.prems other by (cases ls) auto
    next
      case c: (Cons p ps)
      show ?thesis
      proof (cases ls)
        case Nil
        then have "l = b # p" "ls' = ps" using Cons.prems other c by auto
        moreover have "ps = [] \<or> ends_with p [newline]" using c Cons.IH [of "[]" p] \<open>ls' = ps\<close> by simp
        ultimately show ?thesis unfolding ends_with_iff by (metis append_Cons)
      next
        case l: (Cons q qs)
        then show ?thesis using Cons.prems Cons.IH [of "p # qs" l] other c by auto
      qed
    qed
  qed
qed simp

lemma scan_lines_inv:
  assumes "valid_str body"
  shows "scan_inv body (scan_lines lower body)"
proof -
  define st0 where "st0 = \<lparr>sc_fence = False, sc_offset = 0, sc_out = [], sc_defs = [], sc_used = []\<rparr>"
  have "split_inclusive body = ls @ ls' \<Longrightarrow> scan_inv body (foldl (scan_line lower) st0 ls)
      \<and> sc_offset (foldl (scan_line lower) st0 ls) = length (concat ls)" for ls ls'
  proof (induction ls arbitrary: ls' rule: rev_induct)
    case Nil
    then show ?case by (simp add: scan_inv_def scan_items_def st0_def)
  next
    case (snoc l ls)
    have IH: "scan_inv body (foldl (scan_line lower) st0 ls)"
        "sc_offset (foldl (scan_line lower) st0 ls) = length (concat ls)"
      using snoc.IH [of "l # ls'"] snoc.prems by simp_all
    have "body = concat ls @ l @ concat ls'"
      using arg_cong [OF snoc.prems, of concat] by simp
    moreover have "concat ls' = [] \<or> ends_with l [newline]"
      using split_inclusive_terminated [of body ls l ls'] snoc.prems by auto
    ultimately have "scan_inv body (scan_line lower (foldl (scan_line lower) st0 ls) l)"
      using scan_line_inv [OF IH(1) _ IH(2) _ assms] by blast
    then show ?case using IH(2) by (simp add: scan_line_offset)
  qed
  then show ?thesis unfolding scan_lines_def st0_def by (metis append_Nil2)
qed

section \<open>Sorted occurrences\<close>

lemma sorted_wrt_symmetric:
  assumes "\<And>x y. R x y \<Longrightarrow> R y x" "\<forall>x\<in>set xs. \<not> R x x"
  shows "sorted_wrt R xs \<longleftrightarrow> distinct xs \<and> (\<forall>x\<in>set xs. \<forall>y\<in>set xs. x \<noteq> y \<longrightarrow> R x y)"
  using assms(2) by (induction xs) (auto intro: assms(1))

lemma apart_sym: "apart s t \<Longrightarrow> apart t s"
  by (auto simp: apart_def)

lemma not_apart_self: "fst s \<le> snd s \<Longrightarrow> \<not> apart s s"
  by (simp add: apart_def before_span_def)

lemma located_ordered: "located body lo hi item \<Longrightarrow> fst (fst item) \<le> snd (fst item)"
  by (simp add: located_def split: prod.splits)

lemma sort_apart:
  assumes "\<forall>x\<in>set xs. fst (f x) \<le> snd (f x)" "sorted_wrt (\<lambda>x y. apart (f x) (f y)) xs"
  shows "sorted_wrt (\<lambda>x y. before_span (f x) (f y)) (sort_key (\<lambda>x. fst (f x)) xs)"
proof -
  let ?ys = "sort_key (\<lambda>x. fst (f x)) xs"
  let ?R = "\<lambda>x y. apart (f x) (f y)"
  have "sorted_wrt ?R ?ys"
    using assms sorted_wrt_symmetric [of ?R xs] sorted_wrt_symmetric [of ?R ?ys]
    by (simp add: apart_sym not_apart_self)
  moreover have "sorted_wrt (\<lambda>x y. fst (f x) \<le> fst (f y)) ?ys"
    using sorted_sort_key [of "\<lambda>x. fst (f x)" xs] by (simp add: sorted_map)
  ultimately have "sorted_wrt (\<lambda>x y. ?R x y \<and> fst (f x) \<le> fst (f y)) ?ys"
    by (simp add: sorted_wrt_iff_nth_less)
  then show ?thesis
  proof (rule sorted_wrt_mono_rel [rotated])
    fix x y
    assume "x \<in> set ?ys" "y \<in> set ?ys" and r: "?R x y \<and> fst (f x) \<le> fst (f y)"
    then have "fst (f y) \<le> snd (f y)" using assms(1) by simp
    then show "before_span (f x) (f y)" using r by (auto simp: apart_def before_span_def)
  qed
qed

lemma set_map_filter: "set (List.map_filter f xs) = {y. \<exists>x\<in>set xs. f x = Some y}"
  by (induction xs) (auto simp: List.map_filter_simps split: option.splits)

lemma sorted_wrt_map_filter:
  assumes "sorted_wrt R xs" "\<And>x y a b. R x y \<Longrightarrow> f x = Some a \<Longrightarrow> f y = Some b \<Longrightarrow> x \<in> set xs \<Longrightarrow> y \<in> set xs \<Longrightarrow> Q a b"
  shows "sorted_wrt Q (List.map_filter f xs)"
  using assms
proof (induction xs)
  case (Cons x xs)
  have "sorted_wrt Q (List.map_filter f xs)"
    using Cons.prems by (intro Cons.IH) (auto intro: Cons.prems(2))
  moreover have "Q a b" if a: "f x = Some a" and b: "b \<in> set (List.map_filter f xs)" for a b
  proof -
    obtain y where "y \<in> set xs" "f y = Some b" using b by (auto simp: set_map_filter)
    then show ?thesis using Cons.prems a by (auto intro: Cons.prems(2))
  qed
  ultimately show ?case by (simp add: List.map_filter_simps split: option.split)
qed (simp add: List.map_filter_simps)

lemma scan_link_occurrences_separated:
  assumes "valid_str body"
  shows "(\<forall>occ\<in>set (scan_link_occurrences lower body). \<exists>n. located body 0 n (occ_item occ))
    \<and> sorted_wrt before_occ (scan_link_occurrences lower body)"
proof -
  define st where "st = scan_lines lower body"
  let ?R = "\<lambda>x y :: (nat \<times> nat) \<times> string. apart (fst x) (fst y)"
  have inv: "\<forall>x\<in>set (scan_items st). located body 0 (sc_offset st) x" "sorted_wrt ?R (scan_items st)"
    using scan_lines_inv [OF assms, of lower] by (simp_all add: scan_inv_def st_def list_all_iff)
  define fd where "fd label = map_option (\<lambda>(span, raw). (span, raw, Explicit)) (map_of (sc_defs st) label)" for label
  have used: "used_definitions st = List.map_filter fd (remdups (sc_used st))"
    by (simp add: used_definitions_def fd_def [abs_def])
  have fd: "(label, fst d, fst (snd d)) \<in> set (sc_defs st)" if "fd label = Some d" for label d
    using that by (auto simp: fd_def dest: map_of_SomeD)
  have defs: "sorted_wrt (\<lambda>x y. apart (fst (snd x)) (fst (snd y))) (sc_defs st)"
    using inv(2) by (simp add: scan_items_def sorted_wrt_append sorted_wrt_map)
  have ord: "fst (fst (snd d)) \<le> snd (fst (snd d))" if "d \<in> set (sc_defs st)" for d
    using inv(1) that located_ordered [of body 0 "sc_offset st" "snd d"] by (auto simp: scan_items_def)
  have defs_apart: "apart (fst (snd x)) (fst (snd y))" if "x \<in> set (sc_defs st)" "y \<in> set (sc_defs st)" "x \<noteq> y" for x y
    using defs that ord
    by (subst (asm) sorted_wrt_symmetric) (auto simp: apart_sym not_apart_self)
  have "sorted_wrt (\<lambda>x y. apart (fst x) (fst y)) (used_definitions st)"
    unfolding used
  proof (rule sorted_wrt_map_filter [of "(\<noteq>)"])
    show "sorted_wrt (\<noteq>) (remdups (sc_used st))" by (subst sorted_wrt_symmetric) auto
  next
    fix x y a b
    assume "x \<noteq> y" "fd x = Some a" "fd y = Some b"
    then show "apart (fst a) (fst b)" using defs_apart [OF fd fd] by fastforce
  qed
  moreover have "\<forall>x\<in>set (sc_out st). \<forall>y\<in>set (used_definitions st). apart (fst x) (fst y)"
    using inv(2) fd by (fastforce simp: used set_map_filter scan_items_def sorted_wrt_append)
  moreover have "sorted_wrt (\<lambda>x y. apart (fst x) (fst y)) (sc_out st)"
    using inv(2) by (simp add: scan_items_def sorted_wrt_append sorted_wrt_map)
  ultimately have "sorted_wrt (\<lambda>x y. apart (fst x) (fst y)) (sc_out st @ used_definitions st)"
    by (simp add: sorted_wrt_append)
  moreover have loc: "located body 0 (sc_offset st) (occ_item occ)" if occ: "occ \<in> set (sc_out st @ used_definitions st)" for occ
  proof (cases "occ \<in> set (sc_out st)")
    case True
    then show ?thesis using inv(1) by (auto simp: scan_items_def)
  next
    case False
    then obtain label where "fd label = Some occ" using occ by (auto simp: used set_map_filter)
    then have "snd (label, occ_item occ) \<in> set (map def_item (sc_defs st))"
      using fd by (metis (no_types, lifting) image_eqI list.set_map)
    then show ?thesis using inv(1) by (simp add: scan_items_def)
  qed
  ultimately have "sorted_wrt before_occ (sort_key (\<lambda>occ. fst (fst occ)) (sc_out st @ used_definitions st))"
    by (intro sort_apart) (use located_ordered in fastforce)+
  moreover have "scan_link_occurrences lower body
      = sort_key (\<lambda>occ. fst (fst occ)) (sc_out st @ used_definitions st)"
    by (simp add: scan_link_occurrences_def Let_def st_def)
  ultimately show ?thesis using loc by (metis set_sort)
qed

section \<open>The path part of a target\<close>

lemma boundary_inside:
  assumes "is_char_boundary body i" "is_char_boundary body j" "i \<le> j" "is_char_boundary (bytes_of body i j) p"
  shows "is_char_boundary body (i + p)"
proof (cases "p = 0")
  case False
  define t where "t = bytes_of body i j"
  have len: "length t = j - i" "p \<le> length t" using assms(2,4) by (auto simp: is_char_boundary_def t_def)
  have "drop i body = t @ drop j body"
    unfolding t_def using assms(3) by (metis append_take_drop_id drop_drop le_add_diff_inverse2)
  then have "drop p (drop i body) = drop p t @ drop j body" using len(2) by simp
  moreover have "starts_char (drop p t @ drop j body)"
  proof (cases "p = length t")
    case True
    then show ?thesis using assms(2,3) False len by (auto simp: is_char_boundary_def)
  next
    case shorter: False
    then have "drop p t \<noteq> []" using len(2) by simp
    moreover have "starts_char (drop p t)" using assms(4) False by (simp add: is_char_boundary_def t_def)
    ultimately show ?thesis by (simp add: starts_char_def)
  qed
  moreover have "i + p \<le> length body" using assms(2,3) len by (auto simp: is_char_boundary_def)
  ultimately show ?thesis by (simp add: is_char_boundary_def add.commute)
qed (use assms in simp)

lemma path_range_bounds:
  assumes "link_target_path_range raw = (p, q)"
  shows "p \<le> q \<and> is_char_boundary raw p \<and> is_char_boundary raw q"
proof -
  define cs where "cs = chars raw"
  define k where "k = length (takeWhile is_whitespace cs)"
  define tcs where "tcs = drop_right is_whitespace (drop k cs)"
  define rest where "rest = rev (takeWhile is_whitespace (rev (drop k cs)))"
  have raw: "raw = concat cs" by (simp add: cs_def)
  have groups: "char_groups cs" by (simp add: cs_def char_groups_chars)
  have dk: "dropWhile is_whitespace cs = drop k cs" unfolding k_def by (rule dropWhile_eq_drop)
  have ds: "drop k cs = tcs @ rest" by (simp add: tcs_def rest_def drop_right_append)
  have trim: "trim raw = concat tcs" "trim_start raw = concat (drop k cs)"
    by (simp_all add: trim_def trim_start_def tcs_def dk flip: cs_def)
  have "raw = concat (take k cs) @ concat (drop k cs)" by (metis append_take_drop_id concat_append raw)
  then have "length raw = byte_at cs k + length (trim_start raw)" by (metis byte_at_def length_append trim(2))
  then have lead: "length raw - length (trim_start raw) = byte_at cs k" by simp
  have tg: "char_groups tcs"
    using char_groups_take [OF char_groups_drop [OF groups, of k], of "length tcs"] by (simp add: ds)
  define m where "m = length (takeWhile (\<lambda>c. \<not> is_whitespace c) tcs)"
  have m: "takeWhile (\<lambda>c. \<not> is_whitespace c) tcs = take m tcs" "m \<le> length tcs"
    unfolding m_def by (rule takeWhile_eq_take) (rule length_takeWhile_le)
  then have word: "non_whitespace_len (trim raw) = byte_at tcs m"
    by (simp add: non_whitespace_len_def trim chars_groups [OF tg] byte_at_def)
  have tk: "take m tcs = take m (drop k cs)" using m(2) by (simp add: ds)
  have sum: "byte_at cs k + byte_at tcs m = byte_at cs (k + m)"
    by (simp add: byte_at_def tk take_add)
  have dropped: "drop (byte_at cs k) raw = concat (drop k cs)" by (simp add: raw drop_byte_at)
  have target: "concat (drop k cs) = concat tcs @ concat rest" by (simp add: ds)
  have bound: "is_char_boundary raw (byte_at cs a)" for a unfolding raw by (rule byte_at_boundary [OF groups])
  show ?thesis
  proof (cases "position (\<lambda>b. b = CHR ''#'') (take (byte_at tcs m) (trim raw))")
    case None
    then have "p = byte_at cs k" "q = byte_at cs (k + m)"
      using assms by (simp_all add: link_target_path_range_def Let_def lead word flip: sum)
    then show ?thesis using bound sum by simp
  next
    case (Some h)
    have pq: "p = byte_at cs k" "q = byte_at cs k + h"
      using assms Some by (simp_all add: link_target_path_range_def Let_def lead word)
    have h: "h < byte_at tcs m" "h < length (concat tcs)" "concat tcs ! h = CHR ''#''"
      using position_Some [OF Some] by (auto simp: trim)
    have "q \<le> length raw"
      using h(1) byte_at_le [of cs "k + m"] sum pq(2) by (simp add: raw)
    moreover have "drop q raw = drop h (concat tcs @ concat rest)"
      by (metis add.commute drop_drop dropped pq(2) target)
    then have "hd (drop q raw) = CHR ''#''" using h(2,3) by (simp add: hd_drop_conv_nth nth_append)
    moreover have "\<not> is_cont CHR ''#''" by code_simp
    ultimately have "is_char_boundary raw q" by (simp add: is_char_boundary_def starts_char_def)
    then show ?thesis using pq bound by simp
  qed
qed

section \<open>Replacing separated spans\<close>

text \<open>The text between the spans, and the text with the spans replaced.\<close>

fun gaps_from :: "nat \<Rightarrow> (nat \<times> nat) list \<Rightarrow> string \<Rightarrow> string list" where
  "gaps_from pos [] body = [drop pos body]"
| "gaps_from pos (s # ss) body = bytes_of body pos (fst s) # gaps_from (snd s) ss body"

fun weave :: "string list \<Rightarrow> string list \<Rightarrow> string" where
  "weave (g # gs) (r # rs) = g @ r @ weave gs rs"
| "weave gs rs = concat gs"

definition good_spans :: "string \<Rightarrow> (nat \<times> nat) list \<Rightarrow> bool" where
  "good_spans body ss \<longleftrightarrow>
     (\<forall>s\<in>set ss. fst s \<le> snd s \<and> is_char_boundary body (fst s) \<and> is_char_boundary body (snd s))
     \<and> sorted_wrt before_span ss"

lemma bytes_of_drop: "i \<le> j \<Longrightarrow> bytes_of s i j @ drop j s = drop i s"
  by (metis append_take_drop_id drop_drop le_add_diff_inverse2)

lemma gaps_weave:
  assumes "good_spans body ss" "list_all (\<lambda>s. pos \<le> fst s) ss"
  shows "weave (gaps_from pos ss body) (map (\<lambda>s. bytes_of body (fst s) (snd s)) ss) = drop pos body"
  using assms
proof (induction ss arbitrary: pos)
  case (Cons s ss)
  have "good_spans body ss" "list_all (\<lambda>t. snd s \<le> fst t) ss"
    using Cons.prems(1) by (auto simp: good_spans_def list_all_iff before_span_def)
  then show ?case
    using Cons bytes_of_drop [of "fst s" "snd s" body] bytes_of_drop [of pos "fst s" body]
    by (simp add: good_spans_def)
qed simp

lemma weave_starts_char:
  assumes "good_spans body ss" "is_char_boundary body pos" "0 < pos" "list_all (\<lambda>s. pos < fst s) ss"
    "length rs = length ss"
  shows "starts_char (weave (gaps_from pos ss body) rs)"
proof (cases ss)
  case Nil
  then show ?thesis using assms by (simp add: is_char_boundary_def)
next
  case (Cons s ss')
  obtain r rs' where rs: "rs = r # rs'" using assms(5) Cons by (cases rs) auto
  have "pos < fst s" "fst s \<le> length body"
    using assms(1,4) Cons by (auto simp: good_spans_def is_char_boundary_def)
  then have "bytes_of body pos (fst s) \<noteq> []" "hd (bytes_of body pos (fst s)) = hd (drop pos body)" "drop pos body \<noteq> []"
    by simp_all
  moreover have "starts_char (drop pos body)" using assms(2,3) by (simp add: is_char_boundary_def)
  ultimately show ?thesis by (simp add: Cons rs starts_char_def)
qed

lemma replace_range_before:
  assumes "fst s \<le> snd s" "is_char_boundary body (fst s)" "is_char_boundary body (snd s)"
    and rest: "snd s = 0 \<or> starts_char X"
  shows "replace_range s r (take (snd s) body @ X) = Ok (take (fst s) body @ r @ X)"
proof -
  have len: "fst s \<le> length body" "snd s \<le> length body" using assms(2,3) by (auto simp: is_char_boundary_def)
  have "is_char_boundary (take (snd s) body @ X) (snd s)"
    using rest len by (simp add: is_char_boundary_def)
  moreover have "is_char_boundary (take (snd s) body @ X) (fst s)"
  proof (cases "fst s = 0 \<or> fst s = snd s")
    case True
    then show ?thesis using rest len by (auto simp: is_char_boundary_def)
  next
    case False
    then have "drop (fst s) (take (snd s) body) \<noteq> []" "hd (drop (fst s) (take (snd s) body)) = hd (drop (fst s) body)"
      using assms(1) len by (simp_all add: drop_take)
    moreover have "\<not> is_cont (hd (drop (fst s) body))"
      using assms(1,2) len False by (auto simp: is_char_boundary_def starts_char_def)
    ultimately show ?thesis using len by (simp add: is_char_boundary_def starts_char_def)
  qed
  ultimately show ?thesis using assms(1) len by (simp add: replace_range_def min_def)
qed

lemma back_to_front_sorted:
  assumes "sorted_wrt before_span (map fst es)" "list_all (\<lambda>e. fst (fst e) \<le> snd (fst e)) es"
  shows "back_to_front es = rev es"
proof -
  let ?f = "\<lambda>e :: (nat \<times> nat) \<times> string. fst (fst e)"
  have "sorted_wrt (<) (map ?f es)"
    unfolding sorted_wrt_map
    by (rule sorted_wrt_mono_rel [OF _ assms(1) [unfolded sorted_wrt_map]])
      (use assms(2) in \<open>force simp: before_span_def list_all_iff\<close>)
  then have s: "sorted (map ?f es)" "distinct (map ?f es)" by (simp_all add: strict_sorted_iff)
  have "map ?f (sort_key ?f (rev es)) = map ?f es"
    by (rule map_sorted_distinct_set_unique [of id, simplified])
      (use s in \<open>auto simp: distinct_map inj_on_def\<close>)
  moreover have "inj_on ?f (set (sort_key ?f (rev es)) \<union> set es)" using s by (simp add: distinct_map)
  ultimately have "sort_key ?f (rev es) = es" by (rule map_inj_on)
  then show ?thesis by (simp add: back_to_front_def)
qed

lemma replace_all_weave:
  assumes "good_spans body (map fst es)"
  shows "replace_all es body = Ok (weave (gaps_from 0 (map fst es) body) (map snd es))"
proof -
  let ?step = "\<lambda>out (span, repl). bind_outcome out (replace_range span repl)"
  have run: "foldl ?step (Ok body) (rev es) = Ok (take pos body @ weave (gaps_from pos (map fst es) body) (map snd es))"
    if "good_spans body (map fst es)" "list_all (\<lambda>e. pos \<le> fst (fst e)) es" for pos
    using that
  proof (induction es arbitrary: pos)
    case (Cons e es)
    obtain s r where e: "e = (s, r)" by fastforce
    have g: "good_spans body (map fst es)" and l: "list_all (\<lambda>t. snd s < fst t) (map fst es)"
      and s: "fst s \<le> snd s" "is_char_boundary body (fst s)" "is_char_boundary body (snd s)" "pos \<le> fst s"
      using Cons.prems by (auto simp: good_spans_def list_all_iff before_span_def e)
    let ?X = "weave (gaps_from (snd s) (map fst es) body) (map snd es)"
    have X: "snd s = 0 \<or> starts_char ?X" using weave_starts_char [OF g s(3) _ l, of "map snd es"] by (cases "snd s = 0") simp_all
    have "list_all (\<lambda>e. snd s \<le> fst (fst e)) es" using l by (auto simp: list_all_iff)
    from Cons.IH [OF g this] have "foldl ?step (Ok body) (rev es) = Ok (take (snd s) body @ ?X)" .
    then have "foldl ?step (Ok body) (rev (e # es)) = Ok (take (fst s) body @ r @ ?X)"
      using replace_range_before [OF s(1-3) X] by (simp add: e)
    moreover have "take (fst s) body = take pos body @ bytes_of body pos (fst s)"
      using s(4) by (metis le_add_diff_inverse take_add)
    ultimately show ?case by (simp add: e)
  qed simp
  have "back_to_front es = rev es"
    by (rule back_to_front_sorted) (use assms in \<open>auto simp: good_spans_def list_all_iff\<close>)
  then show ?thesis using run [OF assms, of 0] by (simp add: replace_all_def list_all_iff)
qed

section \<open>Moving a document\<close>

lemma occurrences_good:
  assumes "valid_str body"
  shows "good_spans body (map lo_path_span (find_markdown_link_occurrences lower body rel))"
proof -
  let ?occs = "scan_link_occurrences lower body"
  have scan: "\<forall>occ\<in>set ?occs. \<exists>n. located body 0 n (occ_item occ)" "sorted_wrt before_occ ?occs"
    using scan_link_occurrences_separated [OF assms] by blast+
  have within: "fst (fst occ) \<le> fst (lo_path_span lo) \<and> fst (lo_path_span lo) \<le> snd (lo_path_span lo)
      \<and> snd (lo_path_span lo) \<le> snd (fst occ)
      \<and> is_char_boundary body (fst (lo_path_span lo)) \<and> is_char_boundary body (snd (lo_path_span lo))"
    if occ: "occ \<in> set ?occs" and lo: "link_occurrence_of rel occ = Some lo" for occ lo
  proof -
    obtain i j raw kind where o: "occ = ((i, j), raw, kind)" by (metis prod.exhaust)
    obtain p q where pq: "link_target_path_range raw = (p, q)" by fastforce
    have l: "i \<le> j" "j \<le> length body" "bytes_of body i j = raw" "is_char_boundary body i" "is_char_boundary body j"
      using scan(1) occ by (auto simp: located_def o)
    have b: "p \<le> q" "is_char_boundary raw p" "is_char_boundary raw q" using path_range_bounds [OF pq] by auto
    have "length raw = j - i" using l(1,2) by (simp flip: l(3))
    then have "q \<le> j - i" using b(3) by (simp add: is_char_boundary_def)
    moreover have "lo_path_span lo = (i + p, i + q)"
      using lo by (auto simp: link_occurrence_of_def o pq shift_span_def)
    ultimately show ?thesis
      using b l boundary_inside [OF l(4,5,1)] by (simp add: o)
  qed
  have "sorted_wrt (\<lambda>x y. before_span (lo_path_span x) (lo_path_span y)) (find_markdown_link_occurrences lower body rel)"
    unfolding find_markdown_link_occurrences_def
  proof (rule sorted_wrt_map_filter [OF scan(2)])
    fix x y a b
    assume "before_occ x y" "link_occurrence_of rel x = Some a" "link_occurrence_of rel y = Some b"
      "x \<in> set ?occs" "y \<in> set ?occs"
    then show "before_span (lo_path_span a) (lo_path_span b)"
      using within [of x a] within [of y b] unfolding before_span_def by linarith
  qed
  moreover have "\<forall>lo\<in>set (find_markdown_link_occurrences lower body rel). fst (lo_path_span lo) \<le> snd (lo_path_span lo)
      \<and> is_char_boundary body (fst (lo_path_span lo)) \<and> is_char_boundary body (snd (lo_path_span lo))"
    unfolding find_markdown_link_occurrences_def set_map_filter using within by blast
  ultimately show ?thesis by (simp add: good_spans_def sorted_wrt_map)
qed

lemma occurrence_raw:
  assumes "valid_str body" "lo \<in> set (find_markdown_link_occurrences lower body rel)"
  shows "bytes_of body (fst (lo_span lo)) (snd (lo_span lo)) = lo_raw lo"
    and "\<exists>kind. resolve_link_target (lo_raw lo) rel kind = Some (lo_resolved lo)"
proof -
  obtain occ where occ: "occ \<in> set (scan_link_occurrences lower body)" "link_occurrence_of rel occ = Some lo"
    using assms(2) by (auto simp: find_markdown_link_occurrences_def set_map_filter)
  obtain span raw kind where o: "occ = (span, raw, kind)" by (metis prod.exhaust)
  have lo: "lo_span lo = span" "lo_raw lo = raw" "resolve_link_target raw rel kind = Some (lo_resolved lo)"
    using occ(2) by (auto simp: link_occurrence_of_def o)
  obtain n where "located body 0 n (span, raw)"
    using scan_link_occurrences_separated [OF assms(1), of lower] occ(1) by (auto simp: o)
  then show "bytes_of body (fst (lo_span lo)) (snd (lo_span lo)) = lo_raw lo"
    using lo by (auto simp: located_def split: prod.splits)
  show "\<exists>kind. resolve_link_target (lo_raw lo) rel kind = Some (lo_resolved lo)" using lo by auto
qed

lemma rewrite_outbound_weave:
  assumes "valid_str content" and occs: "occs = find_markdown_link_occurrences lower content old_rel"
  shows "rewrite_outbound_links lower content old_rel new_rel translate =
    Ok (weave (gaps_from 0 (map lo_path_span occs) content)
      (map (\<lambda>occ. relativize_md_path new_rel (true_target translate occ)) occs))"
proof (cases "occs = []")
  case True
  then show ?thesis by (simp add: rewrite_outbound_links_def flip: occs)
next
  case False
  have "good_spans content (map lo_path_span occs)" unfolding occs by (rule occurrences_good [OF assms(1)])
  then show ?thesis
    using False replace_all_weave [of content "map (\<lambda>occ. (lo_path_span occ, relativize_md_path new_rel (true_target translate occ))) occs"]
    by (simp add: rewrite_outbound_links_def Let_def apply_link_replacements_each_def comp_def flip: occs)
qed

lemma occurrences_weave:
  assumes "valid_str content" and occs: "occs = find_markdown_link_occurrences lower content old_rel"
  shows "content = weave (gaps_from 0 (map lo_path_span occs) content)
    (map (\<lambda>occ. bytes_of content (fst (lo_path_span occ)) (snd (lo_path_span occ))) occs)"
  using gaps_weave [of content "map lo_path_span occs" 0] occurrences_good [OF assms(1), of lower old_rel]
  by (simp add: list_all_iff comp_def flip: occs)

section \<open>Property\<close>


definition demo_links :: string where
  "demo_links = ''see [x](b.md#s), `[y](c.md)` and [[d|D]]''"


end
