(* ===== verification/Schemas.thy ===== *)
theory Schemas
  imports JsonMap
begin

text \<open>
  The field model of \<open>src/src/schema.rs\<close>: declared types, field paths, the field tree of a resolved
  schema, the cascade that merges one scope's declarations onto the inherited tree, and the flat view
  built from the tree. A \<open>BTreeMap\<close> is an association list in key order (\<open>JsonMap\<close>).

  What a value looks like to \<open>chrono\<close> and to the float printer is a parameter, the record
  \<open>value_env\<close>: a decimal is kept as its text, \<open>float_int\<close> is its value when it is a finite integer.
\<close>

section \<open>Declared types\<close>

datatype field_type = FText | FInteger | FNumber | FBoolean | FEnum | FList | FDate | FTimestamp | FObject

datatype kind_family = StringFamily | NumericFamily | BooleanFamily | ListFamily | ObjectFamily

datatype payload_index_kind = KeywordIndex | IntegerIndex | FloatIndex | BoolIndex | DatetimeIndex

datatype numeric_value = NoNumber | JsonNumber | BooleanNumber | EpochNumber

datatype payload_coercion = AsIs | ToText | ToInteger | ToFloat | ToBool | ToDatetime

record value_env =
  float_int :: "string \<Rightarrow> int option"
  float_text :: "string \<Rightarrow> string"
  is_date :: "string \<Rightarrow> bool"
  is_timestamp :: "string \<Rightarrow> bool"
  to_utc_text :: "string \<Rightarrow> string option"
  json_text :: "json \<Rightarrow> string"
  to_lower :: "string \<Rightarrow> string"

fun is_container_value :: "json \<Rightarrow> bool" where
  "is_container_value (JArray vs) = True"
| "is_container_value (JObject es) = True"
| "is_container_value _ = False"

fun accepts_integer :: "value_env \<Rightarrow> json \<Rightarrow> bool" where
  "accepts_integer env (JInt i) = True"
| "accepts_integer env (JFloat f) = (float_int env f \<noteq> None)"
| "accepts_integer env _ = False"

fun accepts_enum :: "json \<Rightarrow> bool" where
  "accepts_enum (JArray vs) = (\<forall>v\<in>set vs. \<not> is_container_value v)"
| "accepts_enum v = (v \<noteq> JNull)"

fun accepts_date :: "value_env \<Rightarrow> json \<Rightarrow> bool" where
  "accepts_date env (JString s) = is_date env s"
| "accepts_date env _ = False"

fun accepts_timestamp :: "value_env \<Rightarrow> json \<Rightarrow> bool" where
  "accepts_timestamp env (JString s) = is_timestamp env s"
| "accepts_timestamp env _ = False"

record field_kind =
  kd_family :: kind_family
  kd_describe :: string
  kd_accepts :: "value_env \<Rightarrow> json \<Rightarrow> bool"
  kd_index :: payload_index_kind
  kd_numeric :: numeric_value
  kd_payload :: payload_coercion
  kd_vocabulary :: bool

text \<open>The rows of \<open>FIELD_KINDS\<close>.\<close>

fun kind :: "field_type \<Rightarrow> field_kind" where
  "kind FText = \<lparr>kd_family = StringFamily, kd_describe = ''text'',
     kd_accepts = (\<lambda>_ v. case v of JString _ \<Rightarrow> True | _ \<Rightarrow> False),
     kd_index = KeywordIndex, kd_numeric = NoNumber, kd_payload = ToText, kd_vocabulary = False\<rparr>"
| "kind FInteger = \<lparr>kd_family = NumericFamily, kd_describe = ''an integer'', kd_accepts = accepts_integer,
     kd_index = IntegerIndex, kd_numeric = JsonNumber, kd_payload = ToInteger, kd_vocabulary = True\<rparr>"
| "kind FNumber = \<lparr>kd_family = NumericFamily, kd_describe = ''a number'',
     kd_accepts = (\<lambda>_ v. case v of JInt _ \<Rightarrow> True | JFloat _ \<Rightarrow> True | _ \<Rightarrow> False),
     kd_index = FloatIndex, kd_numeric = JsonNumber, kd_payload = ToFloat, kd_vocabulary = True\<rparr>"
| "kind FBoolean = \<lparr>kd_family = BooleanFamily, kd_describe = ''a boolean'',
     kd_accepts = (\<lambda>_ v. case v of JBool _ \<Rightarrow> True | _ \<Rightarrow> False),
     kd_index = BoolIndex, kd_numeric = BooleanNumber, kd_payload = ToBool, kd_vocabulary = True\<rparr>"
| "kind FEnum = \<lparr>kd_family = StringFamily, kd_describe = ''a scalar value'', kd_accepts = (\<lambda>_. accepts_enum),
     kd_index = KeywordIndex, kd_numeric = NoNumber, kd_payload = ToText, kd_vocabulary = True\<rparr>"
| "kind FList = \<lparr>kd_family = ListFamily, kd_describe = ''a list'',
     kd_accepts = (\<lambda>_ v. case v of JArray _ \<Rightarrow> True | _ \<Rightarrow> False),
     kd_index = KeywordIndex, kd_numeric = NoNumber, kd_payload = AsIs, kd_vocabulary = True\<rparr>"
| "kind FDate = \<lparr>kd_family = StringFamily, kd_describe = ''a date (YYYY-MM-DD)'', kd_accepts = accepts_date,
     kd_index = DatetimeIndex, kd_numeric = EpochNumber, kd_payload = ToDatetime, kd_vocabulary = True\<rparr>"
| "kind FTimestamp = \<lparr>kd_family = StringFamily, kd_describe = ''an RFC 3339 timestamp'',
     kd_accepts = accepts_timestamp,
     kd_index = DatetimeIndex, kd_numeric = EpochNumber, kd_payload = ToDatetime, kd_vocabulary = False\<rparr>"
| "kind FObject = \<lparr>kd_family = ObjectFamily, kd_describe = ''an object'',
     kd_accepts = (\<lambda>_ v. case v of JObject _ \<Rightarrow> True | _ \<Rightarrow> False),
     kd_index = KeywordIndex, kd_numeric = NoNumber, kd_payload = AsIs, kd_vocabulary = False\<rparr>"

section \<open>Field paths\<close>

datatype path_step = Field string | Items

function strip_items :: "string \<Rightarrow> string \<times> nat" where
  "strip_items s =
     (if ends_with s ''[]'' then (case strip_items (take (length s - 2) s) of (name, n) \<Rightarrow> (name, Suc n))
      else (s, 0))"
  by pat_completeness auto
termination
  by (relation "measure length") (auto simp: ends_with_iff)

declare strip_items.simps [simp del]

definition segment_steps :: "string \<Rightarrow> path_step list" where
  "segment_steps segment = (case strip_items segment of (name, n) \<Rightarrow> Field name # replicate n Items)"

definition field_path_parse :: "string \<Rightarrow> path_step list" where
  "field_path_parse path = concat (map segment_steps (split_on CHR ''.'' path))"

fun render_more :: "path_step list \<Rightarrow> string" where
  "render_more [] = []"
| "render_more (Field name # steps) = ''.'' @ name @ render_more steps"
| "render_more (Items # steps) = ''[]'' @ render_more steps"

fun render_steps :: "path_step list \<Rightarrow> string" where
  "render_steps [] = []"
| "render_steps (Field name # steps) = name @ render_more steps"
| "render_steps (Items # steps) = ''[]'' @ render_more steps"

section \<open>Declarations and the field tree\<close>

definition VALUES_SENTINEL :: string where
  "VALUES_SENTINEL = ''$values''"

text \<open>The attributes of a \<open>RawFieldDef\<close>; its \<open>fields\<close> and \<open>items\<close> are in the tree below.\<close>

record raw_attrs =
  ra_ty :: "field_type option"
  ra_required :: "bool option"
  ra_indexed :: "bool option"
  ra_values :: "string list option"
  ra_extend :: bool
  ra_default :: "json option"
  ra_open :: "bool option"
  ra_exclude_values :: "string list option"
  ra_removed :: bool

datatype raw_field_def =
  RawFieldDef (rf_attrs: raw_attrs) (rf_fields: "(string \<times> raw_field_def) list option") (rf_items: "raw_field_def option")

definition raw_attrs_default :: raw_attrs where
  "raw_attrs_default =
     \<lparr>ra_ty = None, ra_required = None, ra_indexed = None, ra_values = None, ra_extend = False, ra_default = None,
      ra_open = None, ra_exclude_values = None, ra_removed = False\<rparr>"

record attr_origins =
  by_ty :: "string option"
  by_required :: "string option"
  by_indexed :: "string option"
  by_values :: "string option"
  by_default :: "string option"
  by_open :: "string option"

definition no_origins :: attr_origins where
  "no_origins = \<lparr>by_ty = None, by_required = None, by_indexed = None, by_values = None, by_default = None, by_open = None\<rparr>"

record field_attrs =
  fa_ty :: "field_type option"
  fa_required :: bool
  fa_indexed :: bool
  fa_values :: "string list option"
  fa_default :: "json option"
  fa_open :: bool
  fa_declared_in :: "string option"
  fa_set_by :: attr_origins

definition implicit_attrs :: field_attrs where
  "implicit_attrs =
     \<lparr>fa_ty = None, fa_required = False, fa_indexed = False, fa_values = None, fa_default = None, fa_open = True,
      fa_declared_in = None, fa_set_by = no_origins\<rparr>"

datatype field_def =
  FieldDef (fd_attrs: field_attrs) (fd_items: "field_def option") (fd_fields: "(string \<times> field_def) list")

type_synonym fields = "(string \<times> field_def) list"

definition implicit_node :: field_def where
  "implicit_node = FieldDef implicit_attrs None []"

text \<open>\<open>splice_values\<close> is the result of \<open>merge_values\<close>, which adds warnings only.\<close>

definition push_dedup :: "string list \<Rightarrow> string \<Rightarrow> string list" where
  "push_dedup out v = (if v \<in> set out then out else out @ [v])"

definition splice_values :: "raw_attrs \<Rightarrow> string list option \<Rightarrow> string list option" where
  "splice_values raw inherited =
     (let tokens = (if ra_extend raw then Some (VALUES_SENTINEL # (case ra_values raw of Some l \<Rightarrow> l | None \<Rightarrow> []))
                    else ra_values raw)
      in case tokens of
           None \<Rightarrow> inherited
         | Some ts \<Rightarrow>
             Some (foldl (\<lambda>out token.
                 if token = VALUES_SENTINEL
                 then foldl push_dedup out (case inherited of Some vs \<Rightarrow> vs | None \<Rightarrow> [])
                 else push_dedup out token)
               [] ts))"

fun is_exclusion_only :: "raw_field_def \<Rightarrow> bool" where
  "is_exclusion_only (RawFieldDef a fs items) \<longleftrightarrow>
     ra_exclude_values a \<noteq> None \<and> a\<lparr>ra_exclude_values := None\<rparr> = raw_attrs_default \<and> fs = None \<and> items = None"

fun descendant :: "path_step list \<Rightarrow> field_def \<Rightarrow> field_def option" where
  "descendant [] n = Some n"
| "descendant (Field name # rest) (FieldDef a its chs) =
     (case map_of chs name of None \<Rightarrow> None | Some c \<Rightarrow> descendant rest c)"
| "descendant (Items # rest) (FieldDef a its chs) =
     (case its of None \<Rightarrow> None | Some i \<Rightarrow> descendant rest i)"

text \<open>The node at a path, declared or implicit.\<close>

fun node_at ::"path_step list \<Rightarrow> fields \<Rightarrow> field_def option" where
  "node_at (Field name # rest) chs = (case map_of chs name of None \<Rightarrow> None | Some c \<Rightarrow> descendant rest c)"
| "node_at _ chs = None"

definition is_declared :: "field_def \<Rightarrow> bool" where
  "is_declared n \<longleftrightarrow> fa_declared_in (fd_attrs n) \<noteq> None"

definition excludes_from_nothing :: "raw_field_def \<Rightarrow> fields \<Rightarrow> path_step list \<Rightarrow> bool" where
  "excludes_from_nothing raw chs steps \<longleftrightarrow>
     is_exclusion_only raw \<and> \<not> (case node_at steps chs of Some n \<Rightarrow> is_declared n | None \<Rightarrow> False)"

text \<open>\<open>remove_below\<close> and, for the children of a node, \<open>remove_node\<close>.\<close>

fun remove_below :: "path_step list \<Rightarrow> field_def \<Rightarrow> field_def" where
  "remove_below [] n = n"
| "remove_below [Items] (FieldDef a its chs) = FieldDef a None chs"
| "remove_below (Items # s # rest) (FieldDef a its chs) = FieldDef a (map_option (remove_below (s # rest)) its) chs"
| "remove_below [Field name] (FieldDef a its chs) = FieldDef a its (obj_remove name chs)"
| "remove_below (Field name # s # rest) (FieldDef a its chs) =
     FieldDef a its
       (case map_of chs name of None \<Rightarrow> chs | Some c \<Rightarrow> obj_insert name (remove_below (s # rest) c) chs)"

fun remove_node ::"path_step list \<Rightarrow> fields \<Rightarrow> fields" where
  "remove_node [Field name] chs = obj_remove name chs"
| "remove_node (Field name # s # rest) chs =
     (case map_of chs name of None \<Rightarrow> chs | Some c \<Rightarrow> obj_insert name (remove_below (s # rest) c) chs)"
| "remove_node _ chs = chs"

text \<open>
  \<open>node_in_children\<close> returns a mutable reference: here it takes the function \<open>f\<close> that the caller
  applies to the node. \<open>items_attrs\<close> is what passing through the elements of a node does to it.
\<close>

definition items_attrs :: "string \<Rightarrow> field_attrs \<Rightarrow> field_attrs" where
  "items_attrs origin a =
     (if fa_declared_in a \<noteq> None then a
      else let a = a\<lparr>fa_declared_in := Some origin\<rparr>
           in if fa_ty a \<noteq> None then a
              else a\<lparr>fa_ty := Some FList, fa_set_by := (fa_set_by a)\<lparr>by_ty := Some origin\<rparr>\<rparr>)"

fun update_below :: "path_step list \<Rightarrow> string \<Rightarrow> (field_def \<Rightarrow> field_def) \<Rightarrow> field_def \<Rightarrow> field_def" where
  "update_below [] origin f n = f n"
| "update_below (Field name # rest) origin f (FieldDef a its chs) =
     FieldDef a its
       (obj_insert name
         (update_below rest origin f (case map_of chs name of Some c \<Rightarrow> c | None \<Rightarrow> implicit_node)) chs)"
| "update_below (Items # rest) origin f (FieldDef a its chs) =
     FieldDef (items_attrs origin a)
       (Some (update_below rest origin f (case its of Some i \<Rightarrow> i | None \<Rightarrow> implicit_node))) chs"

fun node_in_children :: "path_step list \<Rightarrow> string \<Rightarrow> (field_def \<Rightarrow> field_def) \<Rightarrow> fields \<Rightarrow> fields" where
  "node_in_children [] origin f chs = chs"
| "node_in_children (Field name # rest) origin f chs =
     obj_insert name (update_below rest origin f (case map_of chs name of Some c \<Rightarrow> c | None \<Rightarrow> implicit_node)) chs"
| "node_in_children (Items # rest) origin f chs =
     obj_insert [] (update_below (Items # rest) origin f (case map_of chs [] of Some c \<Rightarrow> c | None \<Rightarrow> implicit_node)) chs"

section \<open>The cascade\<close>

text \<open>What \<open>merge_node\<close> does to the attributes of a node.\<close>

definition declared_ty :: "raw_attrs \<Rightarrow> bool \<Rightarrow> bool \<Rightarrow> field_type option" where
  "declared_ty raw has_fields has_items =
     (case ra_ty raw of
        Some ty \<Rightarrow> Some ty
      | None \<Rightarrow> if has_fields then Some FObject else if has_items then Some FList else None)"

definition merge_ty :: "raw_attrs \<Rightarrow> bool \<Rightarrow> bool \<Rightarrow> string \<Rightarrow> field_attrs \<Rightarrow> field_attrs" where
  "merge_ty raw has_fields has_items origin a =
     (case declared_ty raw has_fields has_items of
        None \<Rightarrow> a
      | Some ty \<Rightarrow> a\<lparr>fa_ty := Some ty, fa_set_by := (fa_set_by a)\<lparr>by_ty := Some origin\<rparr>\<rparr>)"

definition merge_required :: "raw_attrs \<Rightarrow> string \<Rightarrow> field_attrs \<Rightarrow> field_attrs" where
  "merge_required raw origin a =
     (case ra_required raw of
        None \<Rightarrow> a
      | Some r \<Rightarrow> a\<lparr>fa_required := r, fa_set_by := (fa_set_by a)\<lparr>by_required := Some origin\<rparr>\<rparr>)"

definition merge_indexed :: "raw_attrs \<Rightarrow> string \<Rightarrow> field_attrs \<Rightarrow> field_attrs" where
  "merge_indexed raw origin a =
     (case ra_indexed raw of
        None \<Rightarrow> a
      | Some i \<Rightarrow> a\<lparr>fa_indexed := i, fa_set_by := (fa_set_by a)\<lparr>by_indexed := Some origin\<rparr>\<rparr>)"

definition merge_permitted :: "raw_attrs \<Rightarrow> string \<Rightarrow> field_attrs \<Rightarrow> field_attrs" where
  "merge_permitted raw origin a =
     (if ra_extend raw \<or> ra_values raw \<noteq> None
      then a\<lparr>fa_values := splice_values raw (fa_values a), fa_set_by := (fa_set_by a)\<lparr>by_values := Some origin\<rparr>\<rparr>
      else a)"

definition merge_excluded :: "raw_attrs \<Rightarrow> string \<Rightarrow> field_attrs \<Rightarrow> field_attrs" where
  "merge_excluded raw origin a =
     (case (ra_exclude_values raw, fa_values a) of
        (Some excluded, Some values) \<Rightarrow>
          a\<lparr>fa_values := Some (filter (\<lambda>v. v \<notin> set excluded) values),
            fa_set_by := (fa_set_by a)\<lparr>by_values := Some origin\<rparr>\<rparr>
      | _ \<Rightarrow> a)"

definition merge_default :: "raw_attrs \<Rightarrow> string \<Rightarrow> field_attrs \<Rightarrow> field_attrs" where
  "merge_default raw origin a =
     (case ra_default raw of
        None \<Rightarrow> a
      | Some d \<Rightarrow> a\<lparr>fa_default := Some d, fa_set_by := (fa_set_by a)\<lparr>by_default := Some origin\<rparr>\<rparr>)"

definition merge_open :: "raw_attrs \<Rightarrow> string \<Rightarrow> field_attrs \<Rightarrow> field_attrs" where
  "merge_open raw origin a =
     (case ra_open raw of
        None \<Rightarrow> a
      | Some b \<Rightarrow> a\<lparr>fa_open := b, fa_set_by := (fa_set_by a)\<lparr>by_open := Some origin\<rparr>\<rparr>)"

definition merge_attrs :: "raw_attrs \<Rightarrow> bool \<Rightarrow> bool \<Rightarrow> string \<Rightarrow> field_attrs \<Rightarrow> field_attrs" where
  "merge_attrs raw has_fields has_items origin a =
     (merge_open raw origin (merge_default raw origin (merge_excluded raw origin (merge_permitted raw origin
        (merge_indexed raw origin (merge_required raw origin (merge_ty raw has_fields has_items origin a)))))))
     \<lparr>fa_declared_in := Some origin\<rparr>"

definition raw_children :: "(string \<times> raw_field_def) list option \<Rightarrow> (string \<times> raw_field_def) list" where
  "raw_children fs = (case fs of None \<Rightarrow> [] | Some ls \<Rightarrow> ls)"

lemma raw_children_size:
  assumes "(key, child) \<in> set (raw_children fs)"
  shows "size child < size (RawFieldDef a fs items)"
proof -
  obtain ls where ls: "fs = Some ls" "(key, child) \<in> set ls"
    using assms by (cases fs) (auto simp: raw_children_def)
  have "size child \<le> size_list (size_prod (\<lambda>_. 0) size) ls"
    using ls(2) by (induction ls) auto
  then show ?thesis by (simp add: ls(1))
qed

function merge_node :: "raw_field_def \<Rightarrow> string \<Rightarrow> field_def \<Rightarrow> field_def" where
  "merge_node (RawFieldDef raw fs items) origin (FieldDef a its chs) =
     FieldDef (merge_attrs raw (fs \<noteq> None) (items \<noteq> None) origin a)
       (case items of
          None \<Rightarrow> its
        | Some i \<Rightarrow>
            if ra_removed (rf_attrs i) then None
            else if is_exclusion_only i \<and> (case its of None \<Rightarrow> True | Some n \<Rightarrow> \<not> is_declared n) then its
            else Some (merge_node i origin (case its of Some n \<Rightarrow> n | None \<Rightarrow> implicit_node)))
       (foldl (\<lambda>chs (key, child).
           if ra_removed (rf_attrs child) then remove_node (field_path_parse key) chs
           else if excludes_from_nothing child chs (field_path_parse key) then chs
           else node_in_children (field_path_parse key) origin (\<lambda>n. merge_node child origin n) chs)
         chs (raw_children fs))"
  by pat_completeness auto
termination
  by (relation "measure (\<lambda>(raw, origin, n). size raw)") (auto dest: raw_children_size)

section \<open>Resolved schemas\<close>

record resolved_fields =
  rs_tree :: fields
  rs_flat :: fields
  rs_origin :: "(string \<times> string) list"

fun flat_entry :: "field_def \<Rightarrow> field_def" where
  "flat_entry (FieldDef a its chs) = FieldDef a its []"

fun collect_flat :: "string \<Rightarrow> field_def \<Rightarrow> fields \<times> (string \<times> string) list \<Rightarrow> fields \<times> (string \<times> string) list" where
  "collect_flat path (FieldDef a its chs) acc =
     foldl (\<lambda>acc (name, child). collect_flat (path @ ''.'' @ name) child acc)
       (case fa_declared_in a of
          None \<Rightarrow> acc
        | Some d \<Rightarrow> (obj_insert path (flat_entry (FieldDef a its chs)) (fst acc), obj_insert path d (snd acc)))
       chs"

definition from_tree :: "fields \<Rightarrow> resolved_fields" where
  "from_tree tree =
     (case foldl (\<lambda>acc (name, node). collect_flat name node acc) ([], []) tree of
        (flat, origin) \<Rightarrow> \<lparr>rs_tree = tree, rs_flat = flat, rs_origin = origin\<rparr>)"

definition lookup_field :: "fields \<Rightarrow> string \<Rightarrow> field_def option" where
  "lookup_field tree path =
     (case node_at (field_path_parse path) tree of
        Some n \<Rightarrow> if is_declared n then Some n else None
      | None \<Rightarrow> None)"

record raw_dedup =
  rd_enabled :: "bool option"
  rd_threshold :: "string option"
  rd_related_min_score :: "string option"
  rd_related_limit :: "nat option"

text \<open>A derived field takes the document's \<open>index\<close>-th directory segment.\<close>

record derived_field =
  df_index :: nat

record root_edit_policy =
  re_require_ack :: bool
  re_policy_doc :: "string option"

record schema_file =
  sf_fields :: "(string \<times> raw_field_def) list"
  sf_dedup :: "raw_dedup option"
  sf_derived :: "(string \<times> derived_field) list option"
  sf_root_edit :: "root_edit_policy option"

record resolved_schema =
  sc_fields :: resolved_fields
  sc_dedup_enabled :: "bool option"
  sc_dedup_threshold :: "string option"
  sc_related_min_score :: "string option"
  sc_related_limit :: "nat option"
  sc_derived :: "(string \<times> derived_field) list"
  sc_root_edit :: "root_edit_policy option"

definition empty_schema :: resolved_schema where
  "empty_schema =
     \<lparr>sc_fields = \<lparr>rs_tree = [], rs_flat = [], rs_origin = []\<rparr>, sc_dedup_enabled = None, sc_dedup_threshold = None,
      sc_related_min_score = None, sc_related_limit = None, sc_derived = [], sc_root_edit = None\<rparr>"

definition is_derived :: "resolved_schema \<Rightarrow> string \<Rightarrow> bool" where
  "is_derived schema field \<longleftrightarrow> map_of (sc_derived schema) field \<noteq> None"

text \<open>A directory is its list of components; the root is the empty one.\<close>

definition scope_label :: "string list \<Rightarrow> string" where
  "scope_label dir = (if dir = [] then ''/'' else join ''/'' dir @ ''/'')"

definition or_else :: "'a option \<Rightarrow> 'a option \<Rightarrow> 'a option" where
  "or_else x y = (case x of Some v \<Rightarrow> Some v | None \<Rightarrow> y)"

definition merge_declaration :: "string \<Rightarrow> fields \<Rightarrow> string \<times> raw_field_def \<Rightarrow> fields" where
  "merge_declaration origin chs declaration =
     (case declaration of (key, raw) \<Rightarrow>
        if ra_removed (rf_attrs raw) then remove_node (field_path_parse key) chs
        else if excludes_from_nothing raw chs (field_path_parse key) then chs
        else node_in_children (field_path_parse key) origin (merge_node raw origin) chs)"

definition from_dedup :: "(raw_dedup \<Rightarrow> 'a option) \<Rightarrow> schema_file \<Rightarrow> 'a option" where
  "from_dedup sel file = (case sf_dedup file of Some d \<Rightarrow> sel d | None \<Rightarrow> None)"

definition merged_with :: "resolved_schema \<Rightarrow> schema_file \<Rightarrow> string \<Rightarrow> resolved_schema" where
  "merged_with parent file origin =
     (let tree = foldl (merge_declaration origin) (rs_tree (sc_fields parent)) (sf_fields file);
          is_root = (origin = scope_label [])
      in \<lparr>sc_fields = from_tree tree,
          sc_dedup_enabled = or_else (from_dedup rd_enabled file) (sc_dedup_enabled parent),
          sc_dedup_threshold = or_else (from_dedup rd_threshold file) (sc_dedup_threshold parent),
          sc_related_min_score = or_else (from_dedup rd_related_min_score file) (sc_related_min_score parent),
          sc_related_limit = or_else (from_dedup rd_related_limit file) (sc_related_limit parent),
          sc_derived = (if is_root then (case sf_derived file of Some d \<Rightarrow> d | None \<Rightarrow> []) else sc_derived parent),
          sc_root_edit = (if is_root then sf_root_edit file else sc_root_edit parent)\<rparr>)"

text \<open>The deprecated root schema from the \<open>frontmatter\<close> block of the configuration.\<close>

record frontmatter_config =
  fc_required :: "string list"
  fc_indexed_fields :: "string list"
  fc_defaults :: "(string \<times> string) list"
  fc_allowed :: "(string \<times> string list) list"

definition declare_config :: "string \<Rightarrow> (field_attrs \<Rightarrow> field_attrs) \<Rightarrow> fields \<Rightarrow> fields" where
  "declare_config name f tree =
     node_in_children (field_path_parse name) (scope_label [])
       (\<lambda>n. case n of FieldDef a its chs \<Rightarrow> FieldDef (f (a\<lparr>fa_declared_in := Some (scope_label [])\<rparr>)) its chs) tree"

definition from_config :: "frontmatter_config \<Rightarrow> resolved_schema" where
  "from_config config =
     (let root = scope_label [];
          tree = foldl (\<lambda>t name. declare_config name
            (\<lambda>a. a\<lparr>fa_required := True, fa_set_by := (fa_set_by a)\<lparr>by_required := Some root\<rparr>\<rparr>) t) [] (fc_required config);
          tree = foldl (\<lambda>t name. declare_config name
            (\<lambda>a. a\<lparr>fa_indexed := True, fa_set_by := (fa_set_by a)\<lparr>by_indexed := Some root\<rparr>\<rparr>) t) tree (fc_indexed_fields config);
          tree = foldl (\<lambda>t (name, d). declare_config name
            (\<lambda>a. a\<lparr>fa_default := Some (JString d), fa_set_by := (fa_set_by a)\<lparr>by_default := Some root\<rparr>\<rparr>) t) tree (fc_defaults config);
          tree = foldl (\<lambda>t (name, vs). declare_config name
            (\<lambda>a. a\<lparr>fa_values := Some vs, fa_set_by := (fa_set_by a)\<lparr>by_values := Some root\<rparr>\<rparr>) t) tree (fc_allowed config)
      in empty_schema\<lparr>sc_fields := from_tree tree\<rparr>)"

text \<open>
  Whether a directory is governed by a scope, the deepest such scope, and the merge of all schema
  files, shallowest first. The file map is in path order; the sorts are stable.
\<close>

definition path_covers :: "string list \<Rightarrow> string list \<Rightarrow> bool" where
  "path_covers ancestor dir \<longleftrightarrow> take (length ancestor) dir = ancestor"

definition nearest_schema :: "(string list \<times> resolved_schema) list \<Rightarrow> string list \<Rightarrow> resolved_schema option" where
  "nearest_schema scopes dir = map_option snd (find (\<lambda>(scope, _). path_covers scope dir) (rev scopes))"

definition merge_scope ::
    "resolved_schema \<Rightarrow> (string list \<times> resolved_schema) list \<Rightarrow> string list \<times> schema_file \<Rightarrow>
       (string list \<times> resolved_schema) list" where
  "merge_scope config_root scopes entry =
     (case entry of (dir, file) \<Rightarrow>
        let parent = (if dir = [] then empty_schema
                      else case nearest_schema scopes dir of Some p \<Rightarrow> p | None \<Rightarrow> config_root)
        in scopes @ [(dir, merged_with parent file (scope_label dir))])"

definition merge_cascade ::
    "(string list \<times> schema_file) list \<Rightarrow> resolved_schema \<Rightarrow> (string list \<times> resolved_schema) list" where
  "merge_cascade files config_root =
     sort_key (length \<circ> fst) (foldl (merge_scope config_root) [] (sort_key (length \<circ> fst) files))"

definition resolve_for ::
    "(string list \<times> resolved_schema) list \<Rightarrow> resolved_schema \<Rightarrow> string list \<Rightarrow> resolved_schema" where
  "resolve_for scopes root path =
     (case nearest_schema scopes (butlast path) of Some s \<Rightarrow> s | None \<Rightarrow> root)"

text \<open>The payload index kind of a declared field.\<close>

definition index_kind :: "field_type option \<Rightarrow> payload_index_kind" where
  "index_kind ty = (case ty of None \<Rightarrow> KeywordIndex | Some t \<Rightarrow> kd_index (kind t))"

definition index_kind_of :: "field_def \<Rightarrow> payload_index_kind" where
  "index_kind_of def =
     (case (fa_ty (fd_attrs def), fd_items def) of
        (Some FList, Some i) \<Rightarrow>
          (case fa_ty (fd_attrs i) of Some ty \<Rightarrow> index_kind (Some ty) | None \<Rightarrow> index_kind (Some FList))
      | (ty, _) \<Rightarrow> index_kind ty)"

end
