(* ===== verification/SchemaCascade.thy ===== *)
theory SchemaCascade
  imports Schemas "HOL-Library.Sublist"
begin

text \<open>
  What the cascade of \<open>src/src/schema.rs\<close> does, in a flat model: a schema is a map from the path of a
  field to its attributes, a schema file is the list of its flat declarations, and merging the file is
  applying them one after the other. The repository's tests compare the tree resolver with a flat one
  on examples; here the two agree on every schema file, removals, exclusions and element schemas
  included.
\<close>


section \<open>Paths\<close>

primrec brackets :: "nat \<Rightarrow> string" where
  "brackets 0 = []"
| "brackets (Suc n) = brackets n @ ''[]''"

lemma brackets_front: "''[]'' @ brackets n = brackets (Suc n)"
  by (induction n) simp_all

lemma brackets_no_dot [simp]: "CHR ''.'' \<notin> set (brackets n)"
  by (induction n) simp_all

lemma strip_items_name: "\<not> ends_with name ''[]'' \<Longrightarrow> strip_items (name @ brackets n) = (name, n)"
proof (induction n)
  case (Suc n)
  have "ends_with (name @ brackets (Suc n)) ''[]''" by (simp add: ends_with_iff)
  then show ?case using Suc by (subst strip_items.simps) simp
qed (simp add: strip_items.simps)

lemma strip_items_join: "strip_items s = (name, n) \<Longrightarrow> s = name @ brackets n \<and> \<not> ends_with name ''[]''"
proof (induction s arbitrary: name n rule: strip_items.induct)
  case (1 s)
  show ?case
  proof (cases "ends_with s ''[]''")
    case True
    then obtain r where r: "s = r @ ''[]''" by (auto simp: ends_with_iff)
    obtain k where k: "strip_items (take (length s - 2) s) = (name, k)" "n = Suc k"
      using 1(2) True by (subst (asm) strip_items.simps) (auto split: prod.splits)
    then have "r = name @ brackets k" "\<not> ends_with name ''[]''"
      using 1(1) [OF True k(1)] r by simp_all
    then show ?thesis using r k(2) by simp
  next
    case False
    then show ?thesis using 1(2) by (subst (asm) strip_items.simps) auto
  qed
qed

text \<open>A name as a parsed path has it; a path as parsing gives it.\<close>

definition plain_name :: "string \<Rightarrow> bool" where
  "plain_name name \<longleftrightarrow> CHR ''.'' \<notin> set name \<and> \<not> ends_with name ''[]''"

fun plain_step :: "path_step \<Rightarrow> bool" where
  "plain_step (Field name) = plain_name name"
| "plain_step Items = True"

lemma segment_plain: "CHR ''.'' \<notin> set seg \<Longrightarrow> \<forall>s\<in>set (segment_steps seg). plain_step s"
proof -
  assume seg: "CHR ''.'' \<notin> set seg"
  obtain name n where s: "strip_items seg = (name, n)" by fastforce
  then show ?thesis using seg strip_items_join [OF s] by (simp add: segment_steps_def plain_name_def)
qed

lemma parse_plain: "\<forall>s\<in>set (field_path_parse path). plain_step s"
  using segment_plain split_on_no_sep by (fastforce simp: field_path_parse_def)

lemma parse_Field: "\<exists>name rest. field_path_parse path = Field name # rest"
proof -
  obtain seg segs where "split_on CHR ''.'' path = seg # segs" by (metis list.exhaust split_on_not_Nil)
  then show ?thesis by (auto simp: field_path_parse_def segment_steps_def split: prod.splits)
qed

lemma render_more_append: "render_more (xs @ ys) = render_more xs @ render_more ys"
  by (induction xs rule: render_more.induct) simp_all

lemma render_more_items: "render_more (replicate n Items) = brackets n"
proof (induction n)
  case (Suc n)
  then show ?case using brackets_front [of n] by simp
qed simp

lemma render_segment: "render_more (segment_steps seg) = ''.'' @ seg"
proof -
  obtain name n where s: "strip_items seg = (name, n)" by fastforce
  then show ?thesis using strip_items_join [OF s] by (simp add: segment_steps_def render_more_items)
qed

lemma render_segments: "segs \<noteq> [] \<Longrightarrow> render_more (concat (map segment_steps segs)) = ''.'' @ join ''.'' segs"
  by (induction segs rule: induct_list012) (simp_all add: render_more_append render_segment)

lemma render_parse: "render_steps (field_path_parse path) = path"
proof -
  obtain name rest where p: "field_path_parse path = Field name # rest" using parse_Field by blast
  have "render_more (field_path_parse path) = ''.'' @ path"
    using render_segments [of "split_on CHR ''.'' path"] by (simp add: field_path_parse_def join_split_on)
  then show ?thesis by (simp add: p)
qed

text \<open>And back: rendering a plain path and parsing it.\<close>

lemma split_segment:
  assumes "plain_name name"
  shows "segment_steps (name @ brackets n) = Field name # replicate n Items"
    and "CHR ''.'' \<notin> set (name @ brackets n)"
  using assms by (auto simp: plain_name_def segment_steps_def strip_items_name)

lemma parse_render_from:
  "\<forall>s\<in>set steps. plain_step s \<Longrightarrow> plain_name name \<Longrightarrow>
     field_path_parse (name @ brackets n @ render_more steps) = Field name # replicate n Items @ steps"
proof (induction steps arbitrary: name n rule: render_more.induct)
  case 1
  then show ?case using split_segment [of name n]
    by (simp add: field_path_parse_def split_on_single)
next
  case (2 name' steps)
  have "split_on CHR ''.'' ((name @ brackets n) @ CHR ''.'' # name' @ render_more steps)
      = (name @ brackets n) # split_on CHR ''.'' (name' @ render_more steps)"
    by (rule split_on_append) (rule split_segment(2) [OF 2(3)])
  then have "field_path_parse (name @ brackets n @ render_more (Field name' # steps))
      = (Field name # replicate n Items) @ field_path_parse (name' @ render_more steps)"
    using split_segment(1) [OF 2(3)] by (simp add: field_path_parse_def)
  then show ?case using 2(1) [of name' 0] 2(2) by simp
next
  case (3 steps)
  have "field_path_parse (name @ brackets (Suc n) @ render_more steps) = Field name # replicate (Suc n) Items @ steps"
    using 3(2) by (intro 3(1) 3(3)) simp
  moreover have "Items # replicate n Items @ steps = replicate n Items @ Items # steps"
    by (simp add: replicate_app_Cons_same)
  ultimately show ?case by simp
qed

lemma parse_render:
  assumes "\<forall>s\<in>set (Field name # steps). plain_step s"
  shows "field_path_parse (name @ render_more steps) = Field name # steps"
  using parse_render_from [of steps name 0] assms by simp


section \<open>The flat model\<close>

text \<open>
  A flat declaration: its path, its attributes, whether it has children and elements of its own. A
  flat schema maps the path of every node to its attributes.
\<close>

type_synonym flat_declaration = "path_step list \<times> raw_attrs \<times> bool \<times> bool"

type_synonym flat_schema = "path_step list \<Rightarrow> field_attrs option"

function flatten_raw :: "path_step list \<Rightarrow> raw_field_def \<Rightarrow> flat_declaration list" where
  "flatten_raw p (RawFieldDef a fs its) =
     (p, a, fs \<noteq> None, its \<noteq> None) #
     (if ra_removed a then []
      else concat (map (\<lambda>(key, child). flatten_raw (p @ field_path_parse key) child) (raw_children fs))
           @ (case its of None \<Rightarrow> [] | Some i \<Rightarrow> flatten_raw (p @ [Items]) i))"
  by pat_completeness auto
termination
  by (relation "measure (\<lambda>(p, raw). size raw)") (auto dest: raw_children_size)

definition flatten_file :: "(string \<times> raw_field_def) list \<Rightarrow> flat_declaration list" where
  "flatten_file fs = concat (map (\<lambda>(key, raw). flatten_raw (field_path_parse key) raw) fs)"

definition attrs_or_implicit :: "field_attrs option \<Rightarrow> field_attrs" where
  "attrs_or_implicit a = (case a of Some a \<Rightarrow> a | None \<Rightarrow> implicit_attrs)"

lemma attrs_or_implicit_Some [simp]: "attrs_or_implicit (Some a) = a"
  by (simp add: attrs_or_implicit_def)

fun passed :: "string \<Rightarrow> path_step \<Rightarrow> field_attrs \<Rightarrow> field_attrs" where
  "passed origin Items a = items_attrs origin a"
| "passed origin (Field name) a = a"

definition flat_declare ::
    "string \<Rightarrow> path_step list \<Rightarrow> (field_attrs \<Rightarrow> field_attrs) \<Rightarrow> flat_schema \<Rightarrow> flat_schema" where
  "flat_declare origin p f nodes =
     (\<lambda>q. if q = p then Some (f (attrs_or_implicit (nodes p)))
          else if prefix q p then Some (passed origin (p ! length q) (attrs_or_implicit (nodes q)))
          else nodes q)"

definition only_excludes :: "raw_attrs \<Rightarrow> bool \<Rightarrow> bool \<Rightarrow> bool" where
  "only_excludes a has_fields has_items \<longleftrightarrow>
     ra_exclude_values a \<noteq> None \<and> a\<lparr>ra_exclude_values := None\<rparr> = raw_attrs_default \<and> \<not> has_fields \<and> \<not> has_items"

definition flat_step :: "string \<Rightarrow> flat_schema \<Rightarrow> flat_declaration \<Rightarrow> flat_schema" where
  "flat_step origin nodes d =
     (case d of (p, a, has_fields, has_items) \<Rightarrow>
        if ra_removed a then (\<lambda>q. if prefix p q then None else nodes q)
        else if only_excludes a has_fields has_items \<and> fa_declared_in (attrs_or_implicit (nodes p)) = None then nodes
        else flat_declare origin p (merge_attrs a has_fields has_items origin) nodes)"

text \<open>What a tree is in the flat model.\<close>

definition node_abs :: "field_def \<Rightarrow> flat_schema" where
  "node_abs n q = map_option fd_attrs (descendant q n)"

definition tree_abs :: "fields \<Rightarrow> flat_schema" where
  "tree_abs tree = node_abs (FieldDef implicit_attrs None tree)"

section \<open>Nodes below a node\<close>

definition below_or_implicit :: "path_step list \<Rightarrow> field_def \<Rightarrow> field_def" where
  "below_or_implicit p n = (case descendant p n of Some m \<Rightarrow> m | None \<Rightarrow> implicit_node)"

lemma node_abs_Nil [simp]: "node_abs n [] = Some (fd_attrs n)"
  by (simp add: node_abs_def)

lemma node_abs_Field:
  "node_abs (FieldDef a its chs) (Field name # q) =
     (case map_of chs name of None \<Rightarrow> None | Some c \<Rightarrow> node_abs c q)"
  by (simp add: node_abs_def split: option.split)

lemma node_abs_Items:
  "node_abs (FieldDef a its chs) (Items # q) = (case its of None \<Rightarrow> None | Some i \<Rightarrow> node_abs i q)"
  by (simp add: node_abs_def split: option.split)

lemmas node_abs_simps = node_abs_Field node_abs_Items

lemma descendant_implicit [simp]:
  "descendant q implicit_node = (if q = [] then Some implicit_node else None)"
proof (cases q)
  case (Cons s q')
  then show ?thesis by (cases s) (simp_all add: implicit_node_def)
qed simp

lemma fd_attrs_implicit [simp]: "fd_attrs implicit_node = implicit_attrs"
  by (simp add: implicit_node_def)

lemma node_abs_implicit: "node_abs implicit_node q = (if q = [] then Some implicit_attrs else None)"
  by (simp add: node_abs_def)

lemma descendant_append:
  "descendant (p @ q) n = (case descendant p n of None \<Rightarrow> None | Some m \<Rightarrow> descendant q m)"
  by (induction p n rule: descendant.induct) (simp_all split: option.split)

lemma node_abs_below:
  "node_abs (below_or_implicit p n) r = (if r = [] then Some (attrs_or_implicit (node_abs n p)) else node_abs n (p @ r))"
proof (cases "descendant p n")
  case None
  then show ?thesis
    by (auto simp: below_or_implicit_def node_abs_implicit attrs_or_implicit_def node_abs_def descendant_append)
next
  case (Some m)
  then show ?thesis
    by (auto simp: below_or_implicit_def attrs_or_implicit_def node_abs_def descendant_append)
qed

definition grafted ::
    "string \<Rightarrow> path_step list \<Rightarrow> flat_schema \<Rightarrow> flat_schema \<Rightarrow> flat_schema" where
  "grafted origin p below nodes =
     (\<lambda>q. if prefix p q then below (drop (length p) q)
          else if prefix q p then Some (passed origin (p ! length q) (attrs_or_implicit (nodes q)))
          else nodes q)"

lemma below_or_implicit_Field:
  "below_or_implicit (Field name # rest) (FieldDef a its chs)
     = below_or_implicit rest (case map_of chs name of Some c \<Rightarrow> c | None \<Rightarrow> implicit_node)"
  by (simp add: below_or_implicit_def split: option.split)

lemma below_or_implicit_Items:
  "below_or_implicit (Items # rest) (FieldDef a its chs)
     = below_or_implicit rest (case its of Some c \<Rightarrow> c | None \<Rightarrow> implicit_node)"
  by (simp add: below_or_implicit_def split: option.split)

text \<open>Grafting below a first step, read at the same step and at another one.\<close>

lemma grafted_Nil [simp]: "grafted origin [] below nodes = below"
  by (simp add: grafted_def fun_eq_iff)

lemma grafted_at_Nil [simp]:
  "grafted origin (s # p) below nodes [] = Some (passed origin s (attrs_or_implicit (nodes [])))"
  by (simp add: grafted_def)

lemma grafted_Cons [simp]:
  "grafted origin (s # p) below nodes (t # q) =
     (if s = t then grafted origin p below (\<lambda>r. nodes (s # r)) q else nodes (t # q))"
  by (auto simp: grafted_def)

lemma grafted_fresh:
  "grafted origin p below (node_abs implicit_node) = grafted origin p below (\<lambda>q. None)"
  by (rule ext) (simp add: grafted_def node_abs_implicit attrs_or_implicit_def)

lemma node_abs_update:
  "node_abs (update_below p origin f n) = grafted origin p (node_abs (f (below_or_implicit p n))) (node_abs n)"
proof (induction p origin f n rule: update_below.induct)
  case (1 origin f n)
  then show ?case by (simp add: below_or_implicit_def)
next
  case (2 name rest origin f a its chs)
  note IH = 2
  show ?case (is "?L = ?R")
  proof
    fix q
    consider "q = []" | q' where "q = Field name # q'" | s q' where "q = s # q'" "s \<noteq> Field name"
      by (cases q) auto
    then show "?L q = ?R q"
    proof cases
      case 1
      then show ?thesis by (simp add: attrs_or_implicit_def)
    next
      case (2 q')
      show ?thesis
        unfolding 2 grafted_Cons below_or_implicit_Field update_below.simps node_abs_Field map_of_obj_insert
        using IH by (cases "map_of chs name") (simp_all add: grafted_fresh)
    next
      case (3 s q')
      then show ?thesis by (cases s) (simp_all add: node_abs_simps jobj_simps)
    qed
  qed
next
  case (3 rest origin f a its chs)
  note IH = 3
  show ?case (is "?L = ?R")
  proof
    fix q
    consider "q = []" | q' where "q = Items # q'" | name q' where "q = Field name # q'"
      by (metis list.exhaust path_step.exhaust)
    then show "?L q = ?R q"
    proof cases
      case 1
      then show ?thesis by (simp add: attrs_or_implicit_def)
    next
      case (2 q')
      show ?thesis
        unfolding 2 grafted_Cons below_or_implicit_Items update_below.simps node_abs_Items
        using IH by (cases its) (simp_all add: grafted_fresh)
    next
      case (3 name q')
      then show ?thesis by (simp add: node_abs_simps)
    qed
  qed
qed

lemma node_abs_remove:
  "p \<noteq> [] \<Longrightarrow> node_abs (remove_below p n) = (\<lambda>q. if prefix p q then None else node_abs n q)"
proof (induction p n rule: remove_below.induct)
  case (2 a its chs)
  show ?case (is "?L = ?R")
  proof
    fix q show "?L q = ?R q"
      by (cases q; cases "hd q") (simp_all add: node_abs_simps)
  qed
next
  case (3 s rest a its chs)
  show ?case (is "?L = ?R")
  proof
    fix q show "?L q = ?R q"
      using 3 by (cases q; cases "hd q"; cases its) (simp_all add: node_abs_simps)
  qed
next
  case (4 name a its chs)
  show ?case (is "?L = ?R")
  proof
    fix q show "?L q = ?R q"
      by (cases q; cases "hd q") (simp_all add: node_abs_simps jobj_simps)
  qed
next
  case (5 name s rest a its chs)
  show ?case (is "?L = ?R")
  proof
    fix q show "?L q = ?R q"
      using 5 by (cases q; cases "hd q"; cases "map_of chs name") (auto simp: node_abs_simps jobj_simps)
  qed
qed simp

section \<open>Merging a declaration merges its flat declarations\<close>

definition shift :: "path_step list \<Rightarrow> flat_declaration \<Rightarrow> flat_declaration" where
  "shift p d = (p @ fst d, snd d)"

lemma flatten_raw_shift: "flatten_raw (p @ q) raw = map (shift p) (flatten_raw q raw)"
proof (induction q raw rule: flatten_raw.induct)
  case (1 q a fs its)
  have "concat (map (\<lambda>(key, child). flatten_raw ((p @ q) @ field_path_parse key) child) (raw_children fs))
      = map (shift p) (concat (map (\<lambda>(key, child). flatten_raw (q @ field_path_parse key) child) (raw_children fs)))"
    if "\<not> ra_removed a"
    unfolding map_concat map_map
    by (rule arg_cong [of _ _ concat], rule map_cong [OF refl]) (use 1(1) that in auto)
  moreover have "flatten_raw ((p @ q) @ [Items]) i = map (shift p) (flatten_raw (q @ [Items]) i)"
    if "\<not> ra_removed a" "its = Some i" for i
    using 1(2) that by simp
  ultimately show ?case by (cases its) (auto simp: shift_def)
qed

lemma flatten_raw_at: "flatten_raw p raw = map (shift p) (flatten_raw [] raw)"
  using flatten_raw_shift [of p "[]" raw] by simp

lemma flatten_raw_Cons:
  "flatten_raw [] raw = ([], rf_attrs raw, rf_fields raw \<noteq> None, rf_items raw \<noteq> None) # tl (flatten_raw [] raw)
    \<and> (\<forall>d\<in>set (tl (flatten_raw [] raw)). fst d \<noteq> [])"
proof (cases raw)
  case (RawFieldDef a fs its)
  have "fst d \<noteq> []" if "d \<in> set (flatten_raw (field_path_parse key) child)" for d key child
    using that parse_Field [of key] by (subst (asm) flatten_raw_at) (auto simp: shift_def)
  moreover have "fst d \<noteq> []" if "d \<in> set (flatten_raw [Items] i)" for d i
    using that by (subst (asm) flatten_raw_at) (auto simp: shift_def)
  ultimately show ?thesis unfolding RawFieldDef by (auto split: option.splits)
qed

text \<open>The nodes on the way to \<open>p\<close> exist, and are lists where the path enters their elements.\<close>

definition grounded :: "string \<Rightarrow> path_step list \<Rightarrow> flat_schema \<Rightarrow> bool" where
  "grounded origin p nodes \<longleftrightarrow>
     (\<forall>q. strict_prefix q p \<longrightarrow> (\<exists>a. nodes q = Some a \<and> passed origin (p ! length q) a = a))"

lemma passed_idem [simp]: "passed origin s (passed origin s a) = passed origin s a"
  by (cases s) (simp_all add: items_attrs_def Let_def)

lemma grafted_grounded: "grounded origin p (grafted origin p below nodes)"
  by (auto simp: grounded_def grafted_def strict_prefix_def)

lemma grafted_twice:
  assumes "grounded origin p nodes"
  shows "grafted origin p below nodes = (\<lambda>q. if prefix p q then below (drop (length p) q) else nodes q)"
proof
  fix q
  show "grafted origin p below nodes q = (if prefix p q then below (drop (length p) q) else nodes q)"
  proof (cases "prefix q p \<and> \<not> prefix p q")
    case True
    then have "strict_prefix q p" by (auto simp: strict_prefix_def)
    then obtain a where "nodes q = Some a" "passed origin (p ! length q) a = a"
      using assms by (auto simp: grounded_def)
    then show ?thesis using True by (simp add: grafted_def attrs_or_implicit_def)
  qed (auto simp: grafted_def)
qed

text \<open>A step below \<open>p\<close> acts on the part of the schema below \<open>p\<close>.\<close>

lemma flat_step_below:
  assumes g: "grounded origin p nodes" and d: "fst d \<noteq> []"
  shows "flat_step origin nodes (shift p d) = grafted origin p (flat_step origin (\<lambda>r. nodes (p @ r)) d) nodes"
    and "grounded origin p (flat_step origin nodes (shift p d))"
proof -
  obtain r a hf hi where r: "d = (r, a, hf, hi)" "r \<noteq> []" using d by (cases d) auto
  have nodes_at: "nodes q = nodes (p @ drop (length p) q)" if "prefix p q" for q
    using that by (auto simp: prefix_def)
  have eq: "flat_step origin nodes (shift p d) q
      = (if prefix p q then flat_step origin (\<lambda>r. nodes (p @ r)) d (drop (length p) q) else nodes q)" for q
  proof (cases "prefix p q")
    case True
    then obtain q' where "q = p @ q'" by (auto simp: prefix_def)
    then show ?thesis by (simp add: flat_step_def shift_def r flat_declare_def nth_append)
  next
    case False
    then have np: "\<not> prefix (p @ r) q" "q \<noteq> p @ r" by (auto simp: prefix_def)
    show ?thesis
    proof (cases "prefix q (p @ r)")
      case True
      then have "strict_prefix q p" using False by (auto simp: prefix_append strict_prefix_def)
      then obtain b where "nodes q = Some b" "passed origin (p ! length q) b = b" "length q < length p"
        using g by (auto simp: grounded_def prefix_length_less)
      then show ?thesis
        using False np by (simp add: flat_step_def shift_def r flat_declare_def attrs_or_implicit_def nth_append)
    qed (use False np in \<open>simp add: flat_step_def shift_def r flat_declare_def\<close>)
  qed
  then show "flat_step origin nodes (shift p d) = grafted origin p (flat_step origin (\<lambda>r. nodes (p @ r)) d) nodes"
    by (simp add: grafted_twice [OF g] fun_eq_iff)
  then show "grounded origin p (flat_step origin nodes (shift p d))" by (simp add: grafted_grounded)
qed

lemma flat_fold_below:
  assumes "grounded origin p nodes" "\<forall>d\<in>set ds. fst d \<noteq> []"
  shows "foldl (flat_step origin) nodes (map (shift p) ds)
    = grafted origin p (foldl (flat_step origin) (\<lambda>r. nodes (p @ r)) ds) nodes"
  using assms
proof (induction ds arbitrary: nodes)
  case Nil
  then show ?case by (auto simp: grafted_twice fun_eq_iff prefix_def)
next
  case (Cons d ds)
  let ?n = "flat_step origin nodes (shift p d)" and ?m = "flat_step origin (\<lambda>r. nodes (p @ r)) d"
  have d: "fst d \<noteq> []" using Cons.prems(2) by simp
  note step = flat_step_below [OF Cons.prems(1) d]
  have at: "?n (p @ r) = ?m r" for r by (simp add: step(1) grafted_def)
  have "foldl (flat_step origin) ?n (map (shift p) ds) = grafted origin p (foldl (flat_step origin) ?m ds) ?n"
    using Cons.IH [OF step(2)] Cons.prems(2) by (simp add: at)
  also have "\<dots> = grafted origin p (foldl (flat_step origin) ?m ds) nodes"
    unfolding grafted_twice [OF step(2)] grafted_twice [OF Cons.prems(1)]
    by (simp add: step(1) grafted_twice [OF Cons.prems(1)] fun_eq_iff)
  finally show ?case by simp
qed

text \<open>Declaring \<open>p\<close> itself, then what is below it.\<close>

lemma flat_batch:
  assumes "\<not> ra_removed (rf_attrs raw)"
    and "\<not> (is_exclusion_only raw \<and> fa_declared_in (attrs_or_implicit (node_abs n p)) = None)"
  shows "foldl (flat_step origin) (node_abs n) (flatten_raw p raw)
    = grafted origin p (foldl (flat_step origin) (node_abs (below_or_implicit p n)) (flatten_raw [] raw)) (node_abs n)"
proof -
  obtain a fs its where raw: "raw = RawFieldDef a fs its" by (cases raw)
  define ds where "ds = tl (flatten_raw [] raw)"
  define hf where "hf = (fs \<noteq> None)"
  define hi where "hi = (its \<noteq> None)"
  define d0 where "d0 = ([] :: path_step list, a, hf, hi)"
  have flat: "flatten_raw [] raw = d0 # ds" "\<forall>d\<in>set ds. fst d \<noteq> []"
    using flatten_raw_Cons [of raw] by (simp_all add: ds_def d0_def raw hf_def hi_def)
  define f where "f = merge_attrs a hf hi origin"
  define nodes where "nodes = flat_declare origin p f (node_abs n)"
  have here: "attrs_or_implicit (node_abs (below_or_implicit p n) []) = attrs_or_implicit (node_abs n p)"
    by (simp add: node_abs_below attrs_or_implicit_def del: node_abs_Nil)
  have "\<not> (only_excludes a hf hi \<and> fa_declared_in (attrs_or_implicit (node_abs n p)) = None)"
    using assms(2) by (simp add: raw only_excludes_def hf_def hi_def)
  then have step: "flat_step origin ns (q, a, hf, hi) = flat_declare origin q f ns"
    if "attrs_or_implicit (ns q) = attrs_or_implicit (node_abs n p)" for ns q
    using assms(1) that unfolding flat_step_def f_def raw prod.case by (metis raw_field_def.sel(1))
  have first: "flat_step origin (node_abs n) (shift p d0) = nodes"
    unfolding shift_def d0_def fst_conv snd_conv append_Nil2 nodes_def by (rule step) (rule refl)
  have rel: "flat_step origin (node_abs (below_or_implicit p n)) d0 = (\<lambda>r. nodes (p @ r))"
    unfolding d0_def step [of "node_abs (below_or_implicit p n)" "[]", OF here]
    by (rule ext) (simp add: nodes_def flat_declare_def here node_abs_below del: node_abs_Nil)
  have touched: "nodes = grafted origin p (\<lambda>r. nodes (p @ r)) (node_abs n)"
    by (auto simp: nodes_def flat_declare_def grafted_def fun_eq_iff prefix_def)
  then have g: "grounded origin p nodes" using grafted_grounded by metis
  have "foldl (flat_step origin) nodes (map (shift p) ds)
      = grafted origin p (foldl (flat_step origin) (\<lambda>r. nodes (p @ r)) ds) nodes"
    by (rule flat_fold_below [OF g flat(2)])
  also have "\<dots> = grafted origin p (foldl (flat_step origin) (\<lambda>r. nodes (p @ r)) ds) (node_abs n)"
    unfolding grafted_twice [OF g]
  proof
    fix q
    have "nodes q = grafted origin p (\<lambda>r. nodes (p @ r)) (node_abs n) q" by (rule fun_cong [OF touched])
    then have "nodes q = grafted origin p B (node_abs n) q" if "\<not> prefix p q" for B
      using that by (simp add: grafted_def)
    then show "(if prefix p q then foldl (flat_step origin) (\<lambda>r. nodes (p @ r)) ds (drop (length p) q) else nodes q)
        = grafted origin p (foldl (flat_step origin) (\<lambda>r. nodes (p @ r)) ds) (node_abs n) q"
      by (cases "prefix p q") (simp_all add: grafted_def)
  qed
  finally show ?thesis
    unfolding flatten_raw_at [of p raw] flat(1) by (simp add: first rel)
qed

lemma update_below_children:
  "update_below (Field name # rest) origin f (FieldDef a its chs)
     = FieldDef a its (node_in_children (Field name # rest) origin f chs)"
  by simp

lemma remove_below_children:
  "remove_below (Field name # rest) (FieldDef a its chs) = FieldDef a its (remove_node (Field name # rest) chs)"
  by (cases rest) simp_all

lemma excludes_from_nothing_abs:
  assumes "p = Field name # rest"
  shows "excludes_from_nothing raw chs p \<longleftrightarrow>
     is_exclusion_only raw \<and> fa_declared_in (attrs_or_implicit (node_abs (FieldDef a its chs) p)) = None"
  using assms
  by (auto simp: excludes_from_nothing_def node_abs_def attrs_or_implicit_def is_declared_def implicit_attrs_def
      split: option.splits)

lemma fd_attrs_below: "fd_attrs (below_or_implicit p n) = attrs_or_implicit (node_abs n p)"
  by (simp add: below_or_implicit_def attrs_or_implicit_def node_abs_def split: option.split)

text \<open>One declaration below a node, given that the merge of the declaration itself is right.\<close>

lemma flatten_removed: "ra_removed (rf_attrs raw) \<Longrightarrow> \<exists>hf hi. flatten_raw p raw = [(p, rf_attrs raw, hf, hi)]"
  by (cases raw) auto

lemma flatten_excluded: "is_exclusion_only raw \<Longrightarrow> flatten_raw p raw = [(p, rf_attrs raw, False, False)]"
  by (cases raw) (auto simp: raw_children_def)

lemma declaration_step:
  assumes merge: "\<not> ra_removed (rf_attrs raw) \<Longrightarrow>
      \<not> (is_exclusion_only raw \<and> fa_declared_in (fd_attrs (below_or_implicit (field_path_parse key) (FieldDef a its chs))) = None) \<Longrightarrow>
      node_abs (merge_node raw origin (below_or_implicit (field_path_parse key) (FieldDef a its chs)))
        = foldl (flat_step origin) (node_abs (below_or_implicit (field_path_parse key) (FieldDef a its chs)))
            (flatten_raw [] raw)"
  shows "node_abs (FieldDef a its (merge_declaration origin chs (key, raw)))
    = foldl (flat_step origin) (node_abs (FieldDef a its chs)) (flatten_raw (field_path_parse key) raw)"
proof -
  obtain name rest where key: "field_path_parse key = Field name # rest" using parse_Field by blast
  let ?p = "Field name # rest" and ?n = "FieldDef a its chs"
  consider (removed) "ra_removed (rf_attrs raw)"
    | (vacuous) "\<not> ra_removed (rf_attrs raw)" "excludes_from_nothing raw chs ?p"
    | (declared) "\<not> ra_removed (rf_attrs raw)" "\<not> excludes_from_nothing raw chs ?p" by blast
  then show ?thesis
  proof cases
    case removed
    then obtain hf hi where "flatten_raw ?p raw = [(?p, rf_attrs raw, hf, hi)]" using flatten_removed by blast
    then show ?thesis
      using removed node_abs_remove [of ?p ?n]
      by (simp add: key merge_declaration_def flat_step_def remove_below_children del: remove_below.simps)
  next
    case vacuous
    then have "is_exclusion_only raw" "fa_declared_in (attrs_or_implicit (node_abs ?n ?p)) = None"
      using excludes_from_nothing_abs [of ?p name rest raw chs a its] by simp_all
    moreover from this(1) have "only_excludes (rf_attrs raw) False False"
      by (cases raw) (simp add: only_excludes_def)
    ultimately show ?thesis
      using vacuous by (simp add: key merge_declaration_def flatten_excluded flat_step_def)
  next
    case declared
    then have guard: "\<not> (is_exclusion_only raw \<and> fa_declared_in (attrs_or_implicit (node_abs ?n ?p)) = None)"
      using excludes_from_nothing_abs [of ?p name rest raw chs a its] by simp
    note batch = flat_batch [OF declared(1) guard, of origin]
    have "merge_declaration origin chs (key, raw) = node_in_children ?p origin (merge_node raw origin) chs"
      using declared by (simp add: merge_declaration_def key)
    then have "node_abs (FieldDef a its (merge_declaration origin chs (key, raw)))
        = node_abs (update_below ?p origin (merge_node raw origin) ?n)"
      by (simp only: update_below_children)
    then show ?thesis
      using merge [unfolded key fd_attrs_below, OF declared(1) guard] batch by (simp only: node_abs_update key)
  qed
qed

lemma merge_fold:
  assumes "\<And>key raw n. (key, raw) \<in> set ds \<Longrightarrow> \<not> ra_removed (rf_attrs raw) \<Longrightarrow>
      \<not> (is_exclusion_only raw \<and> fa_declared_in (fd_attrs n) = None) \<Longrightarrow>
      node_abs (merge_node raw origin n) = foldl (flat_step origin) (node_abs n) (flatten_raw [] raw)"
  shows "node_abs (FieldDef a its (foldl (merge_declaration origin) chs ds))
    = foldl (flat_step origin) (node_abs (FieldDef a its chs)) (flatten_file ds)"
  using assms
proof (induction ds arbitrary: chs)
  case (Cons d ds)
  obtain key raw where d: "d = (key, raw)" by fastforce
  have "node_abs (FieldDef a its (merge_declaration origin chs d))
      = foldl (flat_step origin) (node_abs (FieldDef a its chs)) (flatten_raw (field_path_parse key) raw)"
    unfolding d by (rule declaration_step) (rule Cons.prems [of key], simp_all add: d)
  moreover have "node_abs (FieldDef a its (foldl (merge_declaration origin) (merge_declaration origin chs d) ds))
      = foldl (flat_step origin) (node_abs (FieldDef a its (merge_declaration origin chs d))) (flatten_file ds)"
    using Cons.prems by (intro Cons.IH) (metis list.set_intros(2))
  ultimately show ?case by (simp add: flatten_file_def d)
qed (simp add: flatten_file_def)

lemma merge_declaration_alt:
  "merge_declaration origin = (\<lambda>chs (key, child).
     if ra_removed (rf_attrs child) then remove_node (field_path_parse key) chs
     else if excludes_from_nothing child chs (field_path_parse key) then chs
     else node_in_children (field_path_parse key) origin (\<lambda>n. merge_node child origin n) chs)"
  by (intro ext) (simp add: merge_declaration_def split: prod.split)

lemma merge_node_alt:
  "merge_node (RawFieldDef raw fs items) origin (FieldDef a its chs) =
     FieldDef (merge_attrs raw (fs \<noteq> None) (items \<noteq> None) origin a)
       (case items of
          None \<Rightarrow> its
        | Some i \<Rightarrow>
            if ra_removed (rf_attrs i) then None
            else if is_exclusion_only i \<and> (case its of None \<Rightarrow> True | Some n \<Rightarrow> \<not> is_declared n) then its
            else Some (merge_node i origin (case its of Some n \<Rightarrow> n | None \<Rightarrow> implicit_node)))
       (foldl (merge_declaration origin) chs (raw_children fs))"
  by (simp add: merge_declaration_alt)

lemma node_abs_same:
  "q \<noteq> [] \<Longrightarrow> node_abs (FieldDef a its chs) q = node_abs (FieldDef a' its chs) q"
  by (cases q; cases "hd q") (simp_all add: node_abs_simps)

lemma merge_node_flat:
  "\<not> ra_removed (rf_attrs raw) \<Longrightarrow> \<not> (is_exclusion_only raw \<and> fa_declared_in (fd_attrs n) = None) \<Longrightarrow>
     node_abs (merge_node raw origin n) = foldl (flat_step origin) (node_abs n) (flatten_raw [] raw)"
proof (induction raw arbitrary: n rule: measure_induct_rule [of size])
  case (less raw)
  obtain r fs items where raw: "raw = RawFieldDef r fs items" by (cases raw)
  obtain a its chs where n: "n = FieldDef a its chs" by (cases n)
  define hf where "hf = (fs \<noteq> None)"
  define hi where "hi = (items \<noteq> None)"
  define a' where "a' = merge_attrs r hf hi origin a"
  define chs' where "chs' = foldl (merge_declaration origin) chs (raw_children fs)"
  have nr: "\<not> ra_removed r" using less.prems(1) raw by simp
  have declared: "items_attrs origin a' = a'" by (simp add: a'_def merge_attrs_def items_attrs_def)
  have "\<not> (only_excludes r hf hi \<and> fa_declared_in a = None)"
    using less.prems(2) by (simp add: raw n only_excludes_def hf_def hi_def)
  then have "flat_step origin (node_abs n) ([], r, hf, hi) = flat_declare origin [] (merge_attrs r hf hi origin) (node_abs n)"
    using nr by (auto simp: flat_step_def n attrs_or_implicit_def)
  also have "\<dots> = node_abs (FieldDef a' its chs)"
    using node_abs_same by (intro ext) (simp add: flat_declare_def n a'_def attrs_or_implicit_def)
  finally have self: "flat_step origin (node_abs n) ([], r, hf, hi) = node_abs (FieldDef a' its chs)" .
  have children: "node_abs (FieldDef a' its chs')
      = foldl (flat_step origin) (node_abs (FieldDef a' its chs)) (flatten_file (raw_children fs))"
    unfolding chs'_def
  proof (rule merge_fold)
    fix key child m
    assume "(key, child) \<in> set (raw_children fs)"
    then have "size child < size raw" unfolding raw by (rule raw_children_size)
    then show "\<not> ra_removed (rf_attrs child) \<Longrightarrow> \<not> (is_exclusion_only child \<and> fa_declared_in (fd_attrs m) = None) \<Longrightarrow>
        node_abs (merge_node child origin m) = foldl (flat_step origin) (node_abs m) (flatten_raw [] child)"
      by (rule less.IH)
  qed
  have elements: "node_abs (merge_node raw origin n)
      = foldl (flat_step origin) (node_abs (FieldDef a' its chs'))
          (case items of None \<Rightarrow> [] | Some i \<Rightarrow> flatten_raw [Items] i)"
  proof (cases items)
    case None
    then show ?thesis by (simp add: raw n merge_node_alt a'_def chs'_def hf_def hi_def del: merge_node.simps)
  next
    case (Some i)
    let ?m = "FieldDef a' its chs'"
    have merged: "merge_node raw origin n = FieldDef a'
        (if ra_removed (rf_attrs i) then None
         else if is_exclusion_only i \<and> (case its of None \<Rightarrow> True | Some n \<Rightarrow> \<not> is_declared n) then its
         else Some (merge_node i origin (case its of Some n \<Rightarrow> n | None \<Rightarrow> implicit_node))) chs'"
      by (simp add: raw n merge_node_alt a'_def chs'_def hf_def hi_def Some del: merge_node.simps)
    have guard: "fa_declared_in (attrs_or_implicit (node_abs ?m [Items])) = None
        \<longleftrightarrow> (case its of None \<Rightarrow> True | Some n \<Rightarrow> \<not> is_declared n)"
      by (simp add: node_abs_Items attrs_or_implicit_def implicit_attrs_def is_declared_def split: option.split)
    consider (removed) "ra_removed (rf_attrs i)"
      | (vacuous) "\<not> ra_removed (rf_attrs i)" "is_exclusion_only i"
          "fa_declared_in (attrs_or_implicit (node_abs ?m [Items])) = None"
      | (declared) "\<not> ra_removed (rf_attrs i)"
          "\<not> (is_exclusion_only i \<and> fa_declared_in (attrs_or_implicit (node_abs ?m [Items])) = None)" by metis
    then show ?thesis
    proof cases
      case removed
      then obtain hf hi where "flatten_raw [Items] i = [([Items], rf_attrs i, hf, hi)]"
        using flatten_removed by blast
      then show ?thesis
        using removed node_abs_remove [of "[Items]" ?m] by (simp add: merged Some flat_step_def)
    next
      case vacuous
      have "only_excludes (rf_attrs i) False False" using vacuous(2) by (cases i) (simp add: only_excludes_def)
      then show ?thesis
        using vacuous guard by (simp add: merged Some flatten_excluded flat_step_def)
    next
      case declared': declared
      have "merge_node raw origin n = update_below [Items] origin (merge_node i origin) ?m"
        using declared' guard by (auto simp: merged declared)
      then have "node_abs (merge_node raw origin n)
          = grafted origin [Items] (node_abs (merge_node i origin (below_or_implicit [Items] ?m))) (node_abs ?m)"
        by (simp only: node_abs_update)
      also have "node_abs (merge_node i origin (below_or_implicit [Items] ?m))
          = foldl (flat_step origin) (node_abs (below_or_implicit [Items] ?m)) (flatten_raw [] i)"
        using declared' by (intro less.IH) (simp_all add: raw Some fd_attrs_below)
      finally show ?thesis using flat_batch [OF declared', of origin] by (simp add: Some)
    qed
  qed
  have "flatten_raw [] raw = ([], r, hf, hi) # flatten_file (raw_children fs)
      @ (case items of None \<Rightarrow> [] | Some i \<Rightarrow> flatten_raw [Items] i)"
    using nr by (cases items) (simp_all add: raw hf_def hi_def flatten_file_def)
  then show ?case by (simp only: foldl.simps foldl_append self elements children)
qed

text \<open>A schema file merged onto a tree is its flat declarations, one after the other.\<close>

lemma merge_file_flat:
  "tree_abs (foldl (merge_declaration origin) tree ds) = foldl (flat_step origin) (tree_abs tree) (flatten_file ds)"
  unfolding tree_abs_def by (rule merge_fold) (rule merge_node_flat)

section \<open>The refinement\<close>

text \<open>What one flat declaration says about a field it does not concern, and about the one it declares.\<close>

lemma flat_step_frame:
  "\<not> prefix (fst d) q \<Longrightarrow> \<not> prefix q (fst d) \<Longrightarrow> flat_step origin nodes d q = nodes q"
  by (cases d) (auto simp: flat_step_def flat_declare_def)

lemma flat_steps_frame:
  "\<forall>d\<in>set ds. \<not> prefix (fst d) q \<and> \<not> prefix q (fst d) \<Longrightarrow> foldl (flat_step origin) nodes ds q = nodes q"
  by (induction ds arbitrary: nodes) (simp_all add: flat_step_frame)

lemmas merge_steps = merge_ty_def merge_required_def merge_indexed_def merge_permitted_def merge_excluded_def
  merge_default_def merge_open_def

lemma merge_attrs_inherits:
  "fa_required (merge_attrs raw hf hi origin a) = (case ra_required raw of Some r \<Rightarrow> r | None \<Rightarrow> fa_required a)"
  "fa_indexed (merge_attrs raw hf hi origin a) = (case ra_indexed raw of Some i \<Rightarrow> i | None \<Rightarrow> fa_indexed a)"
  "fa_open (merge_attrs raw hf hi origin a) = (case ra_open raw of Some b \<Rightarrow> b | None \<Rightarrow> fa_open a)"
  "fa_default (merge_attrs raw hf hi origin a) = or_else (ra_default raw) (fa_default a)"
  "fa_ty (merge_attrs raw hf hi origin a) = or_else (declared_ty raw hf hi) (fa_ty a)"
  by (simp_all add: merge_attrs_def merge_steps or_else_def split: option.split)


end
