(* ===== verification/SchemaViews.thy ===== *)
theory SchemaViews
  imports SchemaCascade
begin

text \<open>
  The schemas of a knowledge base (\<open>src/src/schema.rs\<close>): every resolved tree is well formed, its flat
  view is the lookup of declared fields, and a document is governed by the schema files above it.
\<close>


section \<open>Well-formed trees\<close>

text \<open>
  What every resolved tree satisfies: children are in key order, under names a parsed path can have; a
  node no scope declares has default attributes and no element schema, so everything a scope said is
  on a declared node.
\<close>

lemma child_size: "(k, c) \<in> set chs \<Longrightarrow> size c < size (FieldDef a its chs)"
  by (induction chs) auto

function wf_node :: "field_def \<Rightarrow> bool" where
  "wf_node (FieldDef a its chs) \<longleftrightarrow>
     sorted_wrt (<) (map fst chs) \<and> (\<forall>(k, c)\<in>set chs. plain_name k \<and> wf_node c)
     \<and> (case its of None \<Rightarrow> True | Some i \<Rightarrow> wf_node i)
     \<and> (fa_declared_in a = None \<longrightarrow> a = implicit_attrs \<and> its = None)"
  by pat_completeness auto
termination
  by (relation "measure size") (auto dest: child_size)

definition wf_fields :: "fields \<Rightarrow> bool" where
  "wf_fields chs \<longleftrightarrow> sorted_wrt (<) (map fst chs) \<and> (\<forall>(k, c)\<in>set chs. plain_name k \<and> wf_node c)"

lemma wf_node_alt:
  "wf_node (FieldDef a its chs) \<longleftrightarrow>
     wf_fields chs \<and> (case its of None \<Rightarrow> True | Some i \<Rightarrow> wf_node i)
     \<and> (fa_declared_in a = None \<longrightarrow> a = implicit_attrs \<and> its = None)"
  by (simp add: wf_fields_def)

declare wf_node.simps [simp del]

lemma wf_implicit [simp]: "wf_node implicit_node"
  by (simp add: implicit_node_def wf_node_alt wf_fields_def)

lemma obj_insert_keys: "set (map fst (obj_insert k v es)) = insert k (set (map fst es))"
  by (induction k v es rule: obj_insert.induct) auto

lemma obj_insert_sorted:
  "sorted_wrt (<) (map fst es) \<Longrightarrow> sorted_wrt (<) (map fst (obj_insert (k :: string) v es))"
proof (induction k v es rule: obj_insert.induct)
  case (2 k v k' v' es)
  consider "k = k'" | "k < k'" | "k' < k" using linorder_less_linear [of k k'] by blast
  then show ?case
    using 2 obj_insert_keys [of k v es] by cases (auto dest: less_trans)
qed simp

lemma wf_fields_insert: "wf_fields chs \<Longrightarrow> plain_name k \<Longrightarrow> wf_node c \<Longrightarrow> wf_fields (obj_insert k c chs)"
  using set_obj_insert [of k c chs] by (auto simp: wf_fields_def obj_insert_sorted)

lemma wf_fields_remove: "wf_fields chs \<Longrightarrow> wf_fields (obj_remove k chs)"
  by (auto simp: wf_fields_def obj_remove_def sorted_wrt_map intro: sorted_wrt_filter)

lemma wf_fields_get: "wf_fields chs \<Longrightarrow> map_of chs k = Some c \<Longrightarrow> wf_node c"
  by (auto simp: wf_fields_def dest: map_of_SomeD)

lemma wf_fields_get_default: "wf_fields chs \<Longrightarrow> wf_node (case map_of chs k of Some c \<Rightarrow> c | None \<Rightarrow> implicit_node)"
  using wf_fields_get by (auto split: option.split)

lemma wf_update:
  "(\<And>m. wf_node m \<Longrightarrow> wf_node (f m)) \<Longrightarrow> \<forall>s\<in>set p. plain_step s \<Longrightarrow> wf_node n \<Longrightarrow>
     wf_node (update_below p origin f n)"
proof (induction p origin f n rule: update_below.induct)
  case (2 name rest origin f a its chs)
  have chs: "wf_fields chs" using "2.prems"(3) by (simp add: wf_node_alt)
  have "wf_node (update_below rest origin f (case map_of chs name of Some c \<Rightarrow> c | None \<Rightarrow> implicit_node))"
    using "2.prems" by (intro "2.IH" wf_fields_get_default chs) simp_all
  then show ?case using "2.prems"(2,3) chs by (simp add: wf_node_alt wf_fields_insert)
next
  case (3 rest origin f a its chs)
  have "wf_node (update_below rest origin f (case its of Some i \<Rightarrow> i | None \<Rightarrow> implicit_node))"
    using "3.prems" by (intro "3.IH") (simp_all add: wf_node_alt split: option.splits)
  then show ?case using "3.prems"(3) by (simp add: wf_node_alt items_attrs_def Let_def)
qed simp

lemma wf_node_in_children:
  assumes "\<And>m. wf_node m \<Longrightarrow> wf_node (f m)" "\<forall>s\<in>set p. plain_step s" "p = Field name # rest" "wf_fields chs"
  shows "wf_fields (node_in_children p origin f chs)"
proof -
  have "wf_node (update_below p origin f (FieldDef implicit_attrs None chs))"
    using assms(4) by (intro wf_update [OF assms(1,2)]) (simp_all add: wf_node_alt)
  then show ?thesis unfolding assms(3) update_below_children by (simp add: wf_node_alt)
qed

lemma wf_remove: "\<forall>s\<in>set p. plain_step s \<Longrightarrow> wf_node n \<Longrightarrow> wf_node (remove_below p n)"
proof (induction p n rule: remove_below.induct)
  case (3 s rest a its chs)
  then show ?case by (auto simp: wf_node_alt split: option.splits)
next
  case (5 name s rest a its chs)
  then show ?case
    by (auto simp: wf_node_alt intro!: wf_fields_insert dest: wf_fields_get split: option.splits)
qed (auto simp: wf_node_alt wf_fields_remove)

lemma wf_remove_node: "\<forall>s\<in>set p. plain_step s \<Longrightarrow> p = Field name # rest \<Longrightarrow> wf_fields chs \<Longrightarrow> wf_fields (remove_node p chs)"
  using wf_remove [of p "FieldDef implicit_attrs None chs"] remove_below_children [of name rest implicit_attrs None chs]
  by (simp add: wf_node_alt del: remove_below.simps)

lemma wf_declaration:
  assumes "\<not> ra_removed (rf_attrs raw) \<Longrightarrow> (\<And>m. wf_node m \<Longrightarrow> wf_node (merge_node raw origin m))" "wf_fields chs"
  shows "wf_fields (merge_declaration origin chs (key, raw))"
proof -
  obtain name rest where "field_path_parse key = Field name # rest" using parse_Field by blast
  then show ?thesis
    using assms wf_remove_node [OF parse_plain [of key]] wf_node_in_children [OF _ parse_plain [of key]]
    by (auto simp: merge_declaration_def)
qed

lemma wf_declarations:
  assumes "\<And>key raw m. (key, raw) \<in> set ds \<Longrightarrow> wf_node m \<Longrightarrow> wf_node (merge_node raw origin m)" "wf_fields chs"
  shows "wf_fields (foldl (merge_declaration origin) chs ds)"
  using assms
proof (induction ds arbitrary: chs)
  case (Cons d ds)
  obtain key raw where d: "d = (key, raw)" by fastforce
  have "wf_fields (merge_declaration origin chs d)"
    unfolding d by (rule wf_declaration) (use Cons.prems d in auto)
  then have "wf_fields (foldl (merge_declaration origin) (merge_declaration origin chs d) ds)"
    by (intro Cons.IH) (use Cons.prems(1) in auto)
  then show ?case by simp
qed simp

lemma wf_merge_node: "wf_node n \<Longrightarrow> wf_node (merge_node raw origin n)"
proof (induction raw arbitrary: n rule: measure_induct_rule [of size])
  case (less raw)
  obtain r fs items where raw: "raw = RawFieldDef r fs items" by (cases raw)
  obtain a its chs where n: "n = FieldDef a its chs" by (cases n)
  have chs: "wf_fields chs" and its: "case its of None \<Rightarrow> True | Some i \<Rightarrow> wf_node i"
    using less.prems by (simp_all add: n wf_node_alt)
  have "wf_fields (foldl (merge_declaration origin) chs (raw_children fs))"
    using raw_children_size by (intro wf_declarations chs less.IH) (auto simp: raw)
  moreover have "wf_node (merge_node i origin (case its of Some m \<Rightarrow> m | None \<Rightarrow> implicit_node))" if "items = Some i" for i
    using its that by (intro less.IH) (auto simp: raw split: option.splits)
  ultimately show ?case
    using its by (auto simp: raw n merge_node_alt wf_node_alt merge_attrs_def simp del: merge_node.simps split: option.splits)
qed

lemma wf_merge_file: "wf_fields tree \<Longrightarrow> wf_fields (foldl (merge_declaration origin) tree ds)"
  using wf_declarations wf_merge_node by blast

lemma wf_declare_config:
  assumes keep: "\<And>a. fa_declared_in (f a) = fa_declared_in a" and tree: "wf_fields tree"
  shows "wf_fields (declare_config name f tree)"
proof -
  obtain n rest where p: "field_path_parse name = Field n # rest" using parse_Field by blast
  show ?thesis
    unfolding declare_config_def
    by (rule wf_node_in_children [OF _ parse_plain p tree]) (auto simp: wf_node_alt keep split: field_def.splits)
qed

lemma wf_foldl: "wf_fields t \<Longrightarrow> (\<And>t x. wf_fields t \<Longrightarrow> wf_fields (g t x)) \<Longrightarrow> wf_fields (foldl g t xs)"
  by (induction xs arbitrary: t) simp_all

lemma tree_from_tree [simp]: "rs_tree (from_tree tree) = tree"
  by (simp add: from_tree_def split: prod.split)

lemma wf_from_config: "wf_fields (rs_tree (sc_fields (from_config config)))"
  unfolding from_config_def Let_def
  by (simp, (rule wf_foldl; (simp add: wf_declare_config split: prod.split)?)+) (simp_all add: wf_fields_def)

lemma wf_merged_with: "wf_fields (rs_tree (sc_fields parent)) \<Longrightarrow> wf_fields (rs_tree (sc_fields (merged_with parent file origin)))"
  by (simp add: merged_with_def Let_def wf_merge_file)

section \<open>The flat view\<close>

function entries :: "string \<Rightarrow> field_def \<Rightarrow> fields" where
  "entries path (FieldDef a its chs) =
     (if fa_declared_in a = None then [] else [(path, FieldDef a its [])])
     @ concat (map (\<lambda>(name, c). entries (path @ ''.'' @ name) c) chs)"
  by pat_completeness auto
termination
  by (relation "measure (\<lambda>(path, n). size n)") (auto dest: child_size)

lemma obj_extend_append [simp]: "obj_extend es (xs @ ys) = obj_extend (obj_extend es xs) ys"
  by (simp add: obj_extend_def)

definition entry_origin :: "string \<times> field_def \<Rightarrow> string \<times> string" where
  "entry_origin e = (fst e, the (fa_declared_in (fd_attrs (snd e))))"

lemma entry_origin_node [simp]: "entry_origin (path, FieldDef a its chs) = (path, the (fa_declared_in a))"
  by (simp add: entry_origin_def)

lemma collect_flat_entries:
  "collect_flat path n acc = (obj_extend (fst acc) (entries path n), obj_extend (snd acc) (map entry_origin (entries path n)))"
proof (induction path n acc rule: collect_flat.induct)
  case (1 path a its chs acc)
  have "foldl (\<lambda>acc (name, child). collect_flat (path @ ''.'' @ name) child acc) acc' chs'
      = (obj_extend (fst acc') (concat (map (\<lambda>(name, c). entries (path @ ''.'' @ name) c) chs')),
         obj_extend (snd acc') (map entry_origin (concat (map (\<lambda>(name, c). entries (path @ ''.'' @ name) c) chs'))))"
    if "set chs' \<subseteq> set chs" for acc' chs'
    using that
  proof (induction chs' arbitrary: acc')
    case (Cons e chs')
    obtain name c where e: "e = (name, c)" by fastforce
    have "collect_flat (path @ ''.'' @ name) c acc' =
        (obj_extend (fst acc') (entries (path @ ''.'' @ name) c),
         obj_extend (snd acc') (map entry_origin (entries (path @ ''.'' @ name) c)))"
      using 1 [of "(name, c)" name c] Cons.prems e by simp
    then show ?case using Cons by (simp add: e)
  qed simp
  from this [OF subset_refl] show ?case
    by (simp split: option.split)
qed

lemma sorted_keys_get:
  "sorted_wrt (<) (map fst chs) \<Longrightarrow> (k :: string, c) \<in> set chs \<longleftrightarrow> map_of chs k = Some c"
  by (metis map_of_eq_Some_iff strict_sorted_iff)

lemma entries_iff:
  "wf_node n \<Longrightarrow> (s, e) \<in> set (entries path n) \<longleftrightarrow>
     (\<exists>q m. descendant q n = Some m \<and> Items \<notin> set q \<and> is_declared m \<and> s = path @ render_more q \<and> e = flat_entry m)"
proof (induction path n arbitrary: s e rule: entries.induct)
  case (1 path a its chs)
  have chs: "sorted_wrt (<) (map fst chs)" "\<forall>(k, c)\<in>set chs. plain_name k \<and> wf_node c"
    using 1(2) by (simp_all add: wf_node_alt wf_fields_def)
  have step: "(s, e) \<in> set (entries (path @ ''.'' @ name) c) \<longleftrightarrow>
     (\<exists>q m. descendant q c = Some m \<and> Items \<notin> set q \<and> is_declared m \<and> s = path @ ''.'' @ name @ render_more q \<and> e = flat_entry m)"
    if mem: "(name, c) \<in> set chs" for name c
  proof -
    have "wf_node c" using chs(2) mem by auto
    then show ?thesis using 1(1) [of "(name, c)" name c] mem by simp
  qed
  show ?case (is "?L \<longleftrightarrow> ?R")
  proof
    assume ?L
    then consider (here) "is_declared (FieldDef a its chs)" "s = path" "e = FieldDef a its []"
      | (below) name c where "(name, c) \<in> set chs" "(s, e) \<in> set (entries (path @ ''.'' @ name) c)"
      by (auto simp: is_declared_def split: if_splits)
    then show ?R
    proof cases
      case here
      then show ?thesis by (intro exI [of _ "[]"] exI [of _ "FieldDef a its chs"]) simp
    next
      case below
      then obtain q m where "descendant q c = Some m" "Items \<notin> set q" "is_declared m"
          "s = path @ ''.'' @ name @ render_more q" "e = flat_entry m"
        using step by blast
      moreover have "map_of chs name = Some c" using sorted_keys_get [OF chs(1)] below(1) by blast
      ultimately show ?thesis
        by (intro exI [of _ "Field name # q"] exI [of _ m]) simp
    qed
  next
    assume ?R
    then obtain q m where q: "descendant q (FieldDef a its chs) = Some m" "Items \<notin> set q" "is_declared m"
        "s = path @ render_more q" "e = flat_entry m" by blast
    show ?L
    proof (cases q)
      case Nil
      then show ?thesis using q by (auto simp: is_declared_def)
    next
      case (Cons st q')
      then obtain name c where "st = Field name" "map_of chs name = Some c" "descendant q' c = Some m"
        using q(1,2) by (cases st) (auto split: option.splits)
      moreover from this have mem: "(name, c) \<in> set chs" using sorted_keys_get [OF chs(1)] by blast
      ultimately have "(s, e) \<in> set (entries (path @ ''.'' @ name) c)"
        using step [OF mem] q Cons by auto
      then show ?thesis using mem by auto
    qed
  qed
qed

definition tree_entries :: "fields \<Rightarrow> fields" where
  "tree_entries tree = concat (map (\<lambda>(name, n). entries name n) tree)"

lemma from_tree_entries:
  "rs_flat (from_tree tree) = obj_extend [] (tree_entries tree)"
  "rs_origin (from_tree tree) = obj_extend [] (map entry_origin (tree_entries tree))"
proof -
  have "foldl (\<lambda>acc (name, node). collect_flat name node acc) acc tree
      = (obj_extend (fst acc) (tree_entries tree), obj_extend (snd acc) (map entry_origin (tree_entries tree)))" for acc
  proof (induction tree arbitrary: acc)
    case (Cons e tree)
    then show ?case by (cases e) (simp add: collect_flat_entries tree_entries_def)
  qed (simp add: tree_entries_def)
  then show "rs_flat (from_tree tree) = obj_extend [] (tree_entries tree)"
    "rs_origin (from_tree tree) = obj_extend [] (map entry_origin (tree_entries tree))"
    by (simp_all add: from_tree_def)
qed

lemma descendant_plain:
  "wf_node n \<Longrightarrow> descendant q n = Some m \<Longrightarrow> \<forall>st\<in>set q. plain_step st"
proof (induction q n rule: descendant.induct)
  case (2 name rest a its chs)
  then obtain c where c: "map_of chs name = Some c" "descendant rest c = Some m" by (auto split: option.splits)
  then have "plain_name name" "wf_node c"
    using 2(2) map_of_SomeD [OF c(1)] by (auto simp: wf_node_alt wf_fields_def)
  then show ?case using 2(1) c by simp
next
  case (3 rest a its chs)
  then show ?case by (auto simp: wf_node_alt split: option.splits)
qed simp

lemma tree_entries_iff:
  assumes "wf_fields tree"
  shows "(s, e) \<in> set (tree_entries tree) \<longleftrightarrow>
     Items \<notin> set (field_path_parse s) \<and> (\<exists>m. lookup_field tree s = Some m \<and> e = flat_entry m)"
proof -
  have keys: "sorted_wrt (<) (map fst tree)" "\<forall>(k, c)\<in>set tree. plain_name k \<and> wf_node c"
    using assms by (simp_all add: wf_fields_def)
  have "(s, e) \<in> set (tree_entries tree) \<longleftrightarrow>
      (\<exists>name n. map_of tree name = Some n \<and> (s, e) \<in> set (entries name n))"
    using sorted_keys_get [OF keys(1)] by (auto simp: tree_entries_def)
  also have "\<dots> \<longleftrightarrow> (\<exists>name n q m. map_of tree name = Some n \<and> descendant q n = Some m \<and> Items \<notin> set q
      \<and> is_declared m \<and> s = name @ render_more q \<and> e = flat_entry m)"
    using entries_iff wf_fields_get [OF assms] by blast
  also have "\<dots> \<longleftrightarrow> Items \<notin> set (field_path_parse s) \<and> (\<exists>m. lookup_field tree s = Some m \<and> e = flat_entry m)"
  proof (intro iffI)
    assume "\<exists>name n q m. map_of tree name = Some n \<and> descendant q n = Some m \<and> Items \<notin> set q
      \<and> is_declared m \<and> s = name @ render_more q \<and> e = flat_entry m"
    then obtain name n q m where m: "map_of tree name = Some n" "descendant q n = Some m" "Items \<notin> set q"
        "is_declared m" "s = name @ render_more q" "e = flat_entry m" by blast
    have "\<forall>st\<in>set (Field name # q). plain_step st"
      using keys(2) map_of_SomeD [OF m(1)] descendant_plain [OF wf_fields_get [OF assms m(1)] m(2)] by auto
    then have "field_path_parse s = Field name # q" unfolding m(5) by (rule parse_render)
    then show "Items \<notin> set (field_path_parse s) \<and> (\<exists>m. lookup_field tree s = Some m \<and> e = flat_entry m)"
      using m by (simp add: lookup_field_def)
  next
    assume r: "Items \<notin> set (field_path_parse s) \<and> (\<exists>m. lookup_field tree s = Some m \<and> e = flat_entry m)"
    obtain name q where p: "field_path_parse s = Field name # q" using parse_Field by blast
    have s: "s = name @ render_more q" using render_parse [of s] by (simp add: p)
    obtain m where m: "node_at (Field name # q) tree = Some m" "is_declared m" "e = flat_entry m" "Items \<notin> set q"
      using r by (auto simp: lookup_field_def p split: option.splits if_splits)
    then obtain n where "map_of tree name = Some n" "descendant q n = Some m" by (auto split: option.splits)
    then show "\<exists>name n q m. map_of tree name = Some n \<and> descendant q n = Some m \<and> Items \<notin> set q
      \<and> is_declared m \<and> s = name @ render_more q \<and> e = flat_entry m"
      using m s by blast
  qed
  finally show ?thesis .
qed

lemma map_of_obj_extend:
  "(\<And>s v v'. (s, v) \<in> set l \<Longrightarrow> (s, v') \<in> set l \<Longrightarrow> v = v') \<Longrightarrow>
     map_of (obj_extend es l) s = (case map_of l s of Some v \<Rightarrow> Some v | None \<Rightarrow> map_of es s)"
proof (induction l arbitrary: es)
  case (Cons e l)
  obtain k v where e: "e = (k, v)" by fastforce
  have "map_of (obj_extend (obj_insert k v es) l) s
      = (case map_of l s of Some v \<Rightarrow> Some v | None \<Rightarrow> map_of (obj_insert k v es) s)"
    by (rule Cons.IH) (use Cons.prems in auto)
  moreover have "w = v" if "map_of l k = Some w" for w
    using Cons.prems [of k w v] map_of_SomeD [OF that] by (simp add: e)
  ultimately show ?case by (auto simp: e jobj_simps split: option.split)
qed simp

lemma map_of_functional:
  "(\<And>v v'. (s, v) \<in> set l \<Longrightarrow> (s, v') \<in> set l \<Longrightarrow> v = v') \<Longrightarrow> map_of l s = Some v \<longleftrightarrow> (s, v) \<in> set l"
  by (metis map_of_SomeD weak_map_of_SomeI)

lemma flat_view:
  assumes "wf_fields tree"
  shows "map_of (rs_flat (from_tree tree)) path =
    (if Items \<in> set (field_path_parse path) then None else map_option flat_entry (lookup_field tree path))"
proof -
  have functional: "v = v'" if "(s, v) \<in> set (tree_entries tree)" "(s, v') \<in> set (tree_entries tree)" for s v v'
    using that by (auto simp: tree_entries_iff [OF assms])
  then have "map_of (rs_flat (from_tree tree)) path = map_of (tree_entries tree) path"
    unfolding from_tree_entries by (subst map_of_obj_extend) (auto split: option.split)
  moreover have "map_of (tree_entries tree) path = Some v \<longleftrightarrow> (path, v) \<in> set (tree_entries tree)" for v
    using functional by (rule map_of_functional)
  ultimately have "map_of (rs_flat (from_tree tree)) path = Some v \<longleftrightarrow>
      (if Items \<in> set (field_path_parse path) then None else map_option flat_entry (lookup_field tree path)) = Some v" for v
    by (auto simp: tree_entries_iff [OF assms])
  then show ?thesis by (metis option.exhaust)
qed


section \<open>The schema that governs a document\<close>

text \<open>
  The schema files above a directory, shallowest first, and what they resolve to: a root file replaces
  the configuration's rules, every other file is merged onto what is above it.
\<close>

definition files_above :: "(string list \<times> schema_file) list \<Rightarrow> string list \<Rightarrow> (string list \<times> schema_file) list" where
  "files_above fs dir = filter (\<lambda>(d, _). path_covers d dir) (sort_key (length \<circ> fst) fs)"

definition apply_file :: "resolved_schema \<Rightarrow> string list \<times> schema_file \<Rightarrow> resolved_schema" where
  "apply_file parent entry =
     (case entry of (d, file) \<Rightarrow> merged_with (if d = [] then empty_schema else parent) file (scope_label d))"

lemma covers_trans:
  assumes "path_covers d dir" "length d' \<le> length d"
  shows "path_covers d' dir \<longleftrightarrow> path_covers d' d"
proof -
  have "take (length d') dir = take (length d') d"
    using assms by (metis min.absorb1 path_covers_def take_take)
  then show ?thesis by (simp add: path_covers_def)
qed

lemma nearest_schema_snoc:
  "nearest_schema (scopes @ [(d, m)]) dir = (if path_covers d dir then Some m else nearest_schema scopes dir)"
  by (simp add: nearest_schema_def)

lemma nearest_after:
  assumes "sorted (map (length \<circ> fst) xs)" "distinct (map fst xs)"
  shows "nearest_schema (foldl (merge_scope config_root) [] xs) dir =
    (let above = filter (\<lambda>(d, _). path_covers d dir) xs in
     if above = [] then None else Some (foldl apply_file config_root above))"
  using assms
proof (induction xs arbitrary: dir rule: rev_induct)
  case Nil
  then show ?case by (simp add: nearest_schema_def)
next
  case (snoc e xs)
  obtain d fl where e: "e = (d, fl)" by fastforce
  have xs: "sorted (map (length \<circ> fst) xs)" "distinct (map fst xs)"
    using snoc.prems by (simp_all add: sorted_append comp_def)
  define scopes where "scopes = foldl (merge_scope config_root) [] xs"
  let ?above = "\<lambda>dir. filter (\<lambda>(d, _). path_covers d dir) xs"
  have near: "nearest_schema scopes dir = (if ?above dir = [] then None else Some (foldl apply_file config_root (?above dir)))" for dir
    using snoc.IH [OF xs] by (simp add: scopes_def Let_def)
  define parent where "parent = (case nearest_schema scopes d of Some p \<Rightarrow> p | None \<Rightarrow> config_root)"
  have parent: "parent = foldl apply_file config_root (?above d)" by (simp add: parent_def near)
  have step: "foldl (merge_scope config_root) [] (xs @ [e]) = scopes @ [(d, apply_file parent (d, fl))]"
    by (simp add: scopes_def [symmetric] e merge_scope_def apply_file_def parent_def Let_def)
  show ?case
  proof (cases "path_covers d dir")
    case True
    have "?above dir = ?above d"
    proof (rule filter_cong [OF refl])
      fix x
      assume x: "x \<in> set xs"
      then have "length (fst x) \<le> length d" using snoc.prems(1) by (auto simp: sorted_append e)
      then show "(case x of (d', _) \<Rightarrow> path_covers d' dir) = (case x of (d', _) \<Rightarrow> path_covers d' d)"
        using covers_trans [OF True, of "fst x"] by (cases x) simp
    qed
    then show ?thesis unfolding step by (simp add: nearest_schema_snoc True e parent)
  next
    case False
    then show ?thesis unfolding step by (simp add: nearest_schema_snoc e near)
  qed
qed

lemma cascade_dirs: "map fst (foldl (merge_scope config_root) scopes xs) = map fst scopes @ map fst xs"
  by (induction xs arbitrary: scopes) (auto simp: merge_scope_def Let_def split: prod.splits)

lemma merge_cascade_alt:
  "merge_cascade fs config_root = foldl (merge_scope config_root) [] (sort_key (length \<circ> fst) fs)"
proof -
  have "map (length \<circ> fst) (foldl (merge_scope config_root) [] (sort_key (length \<circ> fst) fs))
      = map (length \<circ> fst) (sort_key (length \<circ> fst) fs)"
    using arg_cong [OF cascade_dirs [of config_root "[]" "sort_key (length \<circ> fst) fs"], of "map length"] by (simp add: comp_def)
  then have "sorted (map (length \<circ> fst) (foldl (merge_scope config_root) [] (sort_key (length \<circ> fst) fs)))"
    by (simp only: sorted_sort_key)
  then show ?thesis unfolding merge_cascade_def by (rule sort_key_id_if_sorted)
qed

lemma governing_schema:
  assumes "distinct (map fst fs)"
  shows "resolve_for (merge_cascade fs config_root) config_root path = foldl apply_file config_root (files_above fs (butlast path))"
proof -
  let ?xs = "sort_key (length \<circ> fst) fs"
  have "distinct (map fst ?xs)"
    using assms by (metis distinct_map distinct_sort set_sort)
  then show ?thesis
    by (auto simp: resolve_for_def merge_cascade_alt nearest_after Let_def files_above_def)
qed

text \<open>Every schema of a cascade is well formed, and its flat view is built from its tree.\<close>

definition sound_schema :: "resolved_schema \<Rightarrow> bool" where
  "sound_schema s \<longleftrightarrow> wf_fields (rs_tree (sc_fields s)) \<and> sc_fields s = from_tree (rs_tree (sc_fields s))"

lemma sound_merged_with: "sound_schema parent \<Longrightarrow> sound_schema (merged_with parent file origin)"
  using wf_merged_with by (simp add: sound_schema_def merged_with_def Let_def)

lemma sound_empty: "sound_schema empty_schema"
  by (simp add: sound_schema_def empty_schema_def wf_fields_def from_tree_def)

lemma sound_from_config: "sound_schema (from_config config)"
  using wf_from_config [of config] by (simp add: sound_schema_def from_config_def Let_def)

lemma nearest_schema_mem: "nearest_schema scopes dir = Some p \<Longrightarrow> \<exists>d. (d, p) \<in> set scopes"
proof -
  assume "nearest_schema scopes dir = Some p"
  then obtain e where "find (\<lambda>(scope, _). path_covers scope dir) (rev scopes) = Some e" "p = snd e"
    by (auto simp: nearest_schema_def)
  then have "e \<in> set scopes" by (metis find_Some_iff nth_mem set_rev)
  then show ?thesis using \<open>p = snd e\<close> by (metis prod.collapse)
qed

lemma sound_cascade:
  assumes "sound_schema config_root"
  shows "\<forall>(d, s)\<in>set (merge_cascade fs config_root). sound_schema s"
proof -
  have all: "\<forall>(d, s)\<in>set (foldl (merge_scope config_root) scopes xs). sound_schema s"
    if "\<forall>(d, s)\<in>set scopes. sound_schema s" for scopes xs
    using that
  proof (induction xs arbitrary: scopes)
    case (Cons e xs)
    obtain d fl where e: "e = (d, fl)" by fastforce
    have "sound_schema p" if "nearest_schema scopes dir = Some p" for dir p
      using nearest_schema_mem [OF that] Cons.prems by auto
    then have "\<forall>(d, s)\<in>set (merge_scope config_root scopes e). sound_schema s"
      using Cons.prems assms sound_empty
      by (auto simp: merge_scope_def e Let_def sound_merged_with split: option.split)
    then show ?case using Cons.IH by simp
  qed simp
  show ?thesis unfolding merge_cascade_alt by (rule all) simp
qed

lemma sound_resolve_for:
  assumes "sound_schema config_root"
  shows "sound_schema (resolve_for (merge_cascade fs config_root) config_root path)"
proof (cases "nearest_schema (merge_cascade fs config_root) (butlast path)")
  case (Some s)
  then show ?thesis
    using sound_cascade [OF assms, of fs] nearest_schema_mem [OF Some] by (auto simp: resolve_for_def)
qed (simp add: resolve_for_def assms)

section \<open>Properties\<close>

text \<open>
  C33. A document is governed by the schema files above it and by no other: resolving a document's
  schema gives the merge, shallowest first, of exactly the schema files in its directory and the
  directories containing it, onto the rules of the configuration; a root schema file replaces those
  rules instead of being merged onto them.
\<close>

theorem governing_schema_is_the_chain:
  assumes "distinct (map fst fs)"
  shows "resolve_for (merge_cascade fs config_root) config_root path
    = foldl apply_file config_root (files_above fs (butlast path))"
  by (rule governing_schema [OF assms])

definition demo_raw :: "field_type \<Rightarrow> raw_field_def" where
  "demo_raw ty = RawFieldDef (raw_attrs_default\<lparr>ra_ty := Some ty\<rparr>) None None"

definition demo_file :: "string \<Rightarrow> field_type \<Rightarrow> schema_file" where
  "demo_file key ty = \<lparr>sf_fields = [(key, demo_raw ty)], sf_dedup = None, sf_derived = None, sf_root_edit = None\<rparr>"

definition demo_files :: "(string list \<times> schema_file) list" where
  "demo_files =
     [([], demo_file ''tags'' FList), ([''food''], demo_file ''serves'' FInteger), ([''work''], demo_file ''due'' FDate)]"

lemma governing_schema_is_the_chain_witness:
  "resolve_for (merge_cascade demo_files empty_schema) empty_schema [''food'', ''soup.md'']
     = merged_with (merged_with empty_schema (demo_file ''tags'' FList) ''/'') (demo_file ''serves'' FInteger) ''food/''"
proof -
  have "distinct (map fst demo_files)" by (simp add: demo_files_def)
  moreover have "files_above demo_files [''food'']
      = [([], demo_file ''tags'' FList), ([''food''], demo_file ''serves'' FInteger)]"
    by (simp add: files_above_def demo_files_def path_covers_def)
  moreover have "scope_label [] = ''/''" "scope_label [''food''] = ''food/''" by (simp_all add: scope_label_def)
  ultimately show ?thesis
    using governing_schema_is_the_chain [of demo_files empty_schema "[''food'', ''soup.md'']"]
    by (simp add: apply_file_def)
qed

text \<open>
  C34. The two views of a resolved schema cannot disagree. In the schema of every document the flat
  view holds, at a path, the node that looking the path up in the tree finds, without its children; it
  holds no path through list elements and no undeclared node. The tree is well formed: children are in
  key order under names a path can reach, and a node that no scope declares has default attributes
  and no element schema, so that nothing a scope declared is hidden from the flat view.
\<close>

theorem flat_view_is_lookup:
  "let schema = resolve_for (merge_cascade fs (from_config config)) (from_config config) path;
       tree = rs_tree (sc_fields schema)
   in wf_fields tree \<and>
      map_of (rs_flat (sc_fields schema)) p =
        (if Items \<in> set (field_path_parse p) then None else map_option flat_entry (lookup_field tree p))"
proof -
  define schema where "schema = resolve_for (merge_cascade fs (from_config config)) (from_config config) path"
  have "sound_schema schema"
    unfolding schema_def by (rule sound_resolve_for [OF sound_from_config])
  then have wf: "wf_fields (rs_tree (sc_fields schema))"
    and flat: "sc_fields schema = from_tree (rs_tree (sc_fields schema))"
    by (simp_all add: sound_schema_def)
  have "map_of (rs_flat (sc_fields schema)) p = map_of (rs_flat (from_tree (rs_tree (sc_fields schema)))) p"
    by (subst flat) (rule refl)
  then show ?thesis using wf flat_view [OF wf, of p] unfolding Let_def schema_def [symmetric] by simp
qed

end
