(* ===== verification/Projection.thy ===== *)
theory Projection
  imports Schemas "HOL-Library.Product_Lexorder"
begin

text \<open>
  The projection of frontmatter of \<open>src/src/document_fields.rs\<close>: the canonical text of a scalar, the rows of
  the \<open>document_fields\<close> table (\<open>flatten_frontmatter\<close>) and the payload of the vector store
  (\<open>payload_frontmatter\<close>). A double-precision number is of an abstract type \<open>'f\<close>; the record
  \<open>float_env\<close> says which number a scalar is read as.
\<close>

record 'f float_env =
  f_number :: "json \<Rightarrow> 'f"
  f_one :: 'f
  f_zero :: 'f
  f_epoch :: "string \<Rightarrow> 'f option"

record 'f field_row =
  fr_field :: string
  fr_elem :: int
  fr_text :: string
  fr_num :: "'f option"

definition MAX_PROJECTED_ROWS :: nat where
  "MAX_PROJECTED_ROWS = 2000"

definition MAX_FIELD_PATH_DEPTH :: nat where
  "MAX_FIELD_PATH_DEPTH = 16"

definition PROMOTED_FIELDS :: "string list" where
  "PROMOTED_FIELDS = [''title'', ''description'']"

section \<open>The canonical text of a scalar\<close>

definition int_text :: "int \<Rightarrow> string" where
  "int_text i = (if i < 0 then CHR ''-'' # dec (nat (- i)) else dec (nat i))"

text \<open>
  A decimal with an integral value is cast to 64 bits; the bound \<open>u64::MAX as f64\<close> is \<open>2 ^ 64\<close>, and the
  cast saturates.
\<close>

definition saturate_u64 :: "int \<Rightarrow> int" where
  "saturate_u64 i = min i (2 ^ 64 - 1)"

fun canonical_number :: "value_env \<Rightarrow> json \<Rightarrow> string" where
  "canonical_number env (JInt i) = int_text i"
| "canonical_number env (JFloat f) =
     (case float_int env f of
        None \<Rightarrow> float_text env f
      | Some i \<Rightarrow>
          if 0 \<le> i \<and> i \<le> 2 ^ 64 then int_text (saturate_u64 i)
          else if i < 0 \<and> - (2 ^ 63) \<le> i then int_text i
          else float_text env f)"
| "canonical_number env v = json_text env v"

fun canonical_text :: "value_env \<Rightarrow> json \<Rightarrow> string option" where
  "canonical_text env (JString s) = Some s"
| "canonical_text env (JBool b) = Some (if b then ''true'' else ''false'')"
| "canonical_text env (JInt i) = Some (canonical_number env (JInt i))"
| "canonical_text env (JFloat f) = Some (canonical_number env (JFloat f))"
| "canonical_text env _ = None"

section \<open>The numeric column\<close>

fun as_f64 :: "'f float_env \<Rightarrow> json \<Rightarrow> 'f option" where
  "as_f64 fe (JInt i) = Some (f_number fe (JInt i))"
| "as_f64 fe (JFloat f) = Some (f_number fe (JFloat f))"
| "as_f64 fe _ = None"

definition f_bool :: "'f float_env \<Rightarrow> bool \<Rightarrow> 'f" where
  "f_bool fe b = (if b then f_one fe else f_zero fe)"

fun numeric_value :: "'f float_env \<Rightarrow> json \<Rightarrow> 'f option" where
  "numeric_value fe (JBool b) = Some (f_bool fe b)"
| "numeric_value fe v = as_f64 fe v"

fun declared_numeric :: "'f float_env \<Rightarrow> numeric_value \<Rightarrow> json \<Rightarrow> 'f option" where
  "declared_numeric fe NoNumber v = None"
| "declared_numeric fe JsonNumber v = as_f64 fe v"
| "declared_numeric fe BooleanNumber v = (case v of JBool b \<Rightarrow> Some (f_bool fe b) | _ \<Rightarrow> None)"
| "declared_numeric fe EpochNumber v = (case v of JString s \<Rightarrow> f_epoch fe s | _ \<Rightarrow> None)"

definition node_ty :: "field_def option \<Rightarrow> field_type option" where
  "node_ty node = (case node of None \<Rightarrow> None | Some n \<Rightarrow> fa_ty (fd_attrs n))"

definition scalar_numeric :: "'f float_env \<Rightarrow> field_def option \<Rightarrow> json \<Rightarrow> 'f option" where
  "scalar_numeric fe node v =
     (case node_ty node of
        Some ty \<Rightarrow> declared_numeric fe (kd_numeric (kind ty)) v
      | None \<Rightarrow> numeric_value fe v)"

definition element_node :: "field_def option \<Rightarrow> field_def option" where
  "element_node node =
     (case node of
        None \<Rightarrow> None
      | Some n \<Rightarrow>
          (case fd_items n of
             Some items \<Rightarrow> Some items
           | None \<Rightarrow> if fa_ty (fd_attrs n) \<in> {None, Some FList, Some FObject} then None else Some n))"

definition child_node :: "field_def option \<Rightarrow> string \<Rightarrow> field_def option" where
  "child_node node name = (case node of None \<Rightarrow> None | Some n \<Rightarrow> map_of (fd_fields n) name)"

section \<open>The rows of a document\<close>

definition push_leaf ::
    "value_env \<Rightarrow> 'f float_env \<Rightarrow> string \<Rightarrow> int option \<Rightarrow> json \<Rightarrow> field_def option \<Rightarrow> 'f field_row list \<Rightarrow> 'f field_row list" where
  "push_leaf env fe path elem v node out =
     (case canonical_text env v of
        None \<Rightarrow> out
      | Some t \<Rightarrow>
          out @ [\<lparr>fr_field = path, fr_elem = (case elem of Some e \<Rightarrow> e | None \<Rightarrow> 0), fr_text = t,
                  fr_num = scalar_numeric fe node v\<rparr>])"

text \<open>
  An early return from a loop leaves the rows as they are, here in each of the remaining turns. Warnings
  are left out.
\<close>

function flatten_value ::
    "value_env \<Rightarrow> 'f float_env \<Rightarrow> string \<Rightarrow> nat \<Rightarrow> json \<Rightarrow> field_def option \<Rightarrow> int option
       \<Rightarrow> 'f field_row list \<Rightarrow> 'f field_row list" where
  "flatten_value env fe path depth v node elem out =
     (case v of
        JNull \<Rightarrow> out
      | JArray items \<Rightarrow>
          foldl (\<lambda>out (i, item).
              if MAX_PROJECTED_ROWS \<le> length out then out
              else if is_container_value item then
                (if MAX_FIELD_PATH_DEPTH \<le> depth then out
                 else flatten_value env fe (path @ ''[]'') (depth + 1) item (element_node node)
                        (or_else elem (Some (int i))) out)
              else push_leaf env fe path elem item (element_node node) out)
            out (enumerate 0 items)
      | JObject es \<Rightarrow>
          if MAX_PROJECTED_ROWS \<le> length out then out
          else if MAX_FIELD_PATH_DEPTH \<le> depth then out
          else foldl (\<lambda>out (key, child).
              if MAX_PROJECTED_ROWS \<le> length out then out
              else flatten_value env fe (path @ ''.'' @ key) (depth + 1) child (child_node node key) elem out)
            out (sort_key fst es)
      | _ \<Rightarrow> if MAX_PROJECTED_ROWS \<le> length out then out else push_leaf env fe path elem v node out)"
  by pat_completeness auto

lemma item_size: "item \<in> set vs \<Longrightarrow> size item < Suc (size_list size vs)"
  by (induction vs) auto

lemma enumerate_item_size: "(i, item) \<in> set (enumerate n vs) \<Longrightarrow> size item < Suc (size_list size vs)"
  by (rule item_size) (auto simp: enumerate_eq_zip dest: set_zip_rightD)

lemma object_value_size: "(k, v) \<in> set es \<Longrightarrow> size v < Suc (size_list (size_prod (\<lambda>_. 0) size) es)"
  by (induction es) auto

termination flatten_value
  by (relation "measure (\<lambda>(env, fe, path, depth, v, node, elem, out). size v)")
    (auto dest: enumerate_item_size object_value_size)

declare flatten_value.simps [simp del]

fun holds_containers :: "json \<Rightarrow> bool" where
  "holds_containers (JArray items) = (\<exists>v\<in>set items. is_container_value v)"
| "holds_containers _ = False"

fun flatten_keys ::
    "value_env \<Rightarrow> 'f float_env \<Rightarrow> fields \<Rightarrow> jobj \<Rightarrow> 'f field_row list \<Rightarrow> 'f field_row list" where
  "flatten_keys env fe tree [] rows = rows"
| "flatten_keys env fe tree ((key, v) # rest) rows =
     (if key \<in> set PROMOTED_FIELDS then flatten_keys env fe tree rest rows
      else let rows = flatten_value env fe key 1 v (map_of tree key) None rows
           in if MAX_PROJECTED_ROWS \<le> length rows then take MAX_PROJECTED_ROWS rows
              else flatten_keys env fe tree rest rows)"

definition projection_order :: "jobj \<Rightarrow> jobj" where
  "projection_order fm = sort_key (\<lambda>(key, v). (holds_containers v, key)) fm"

definition flatten_frontmatter ::
    "value_env \<Rightarrow> 'f float_env \<Rightarrow> jobj \<Rightarrow> resolved_schema \<Rightarrow> 'f field_row list" where
  "flatten_frontmatter env fe fm schema =
     flatten_keys env fe (rs_tree (sc_fields schema)) (projection_order fm) []"

section \<open>The payload\<close>

fun integral :: "value_env \<Rightarrow> json \<Rightarrow> int option" where
  "integral env (JInt i) = (if i < 2 ^ 63 then Some i else None)"
| "integral env (JFloat f) =
     (case float_int env f of
        Some i \<Rightarrow> if - (2 ^ 63) \<le> i \<and> i < 2 ^ 63 then Some i else None
      | None \<Rightarrow> None)"
| "integral env _ = None"

fun coerced :: "value_env \<Rightarrow> payload_coercion \<Rightarrow> json \<Rightarrow> json option" where
  "coerced env AsIs v = None"
| "coerced env ToBool v = None"
| "coerced env ToText v = map_option JString (canonical_text env v)"
| "coerced env ToInteger v = map_option JInt (integral env v)"
| "coerced env ToFloat v = None"
| "coerced env ToDatetime v = (case v of JString s \<Rightarrow> map_option JString (to_utc_text env s) | _ \<Rightarrow> None)"

definition payload_scalar :: "value_env \<Rightarrow> payload_coercion \<Rightarrow> json \<Rightarrow> json" where
  "payload_scalar env coercion v = (case coerced env coercion v of Some w \<Rightarrow> w | None \<Rightarrow> v)"

function payload_value :: "value_env \<Rightarrow> json \<Rightarrow> field_def option \<Rightarrow> json" where
  "payload_value env v None = v"
| "payload_value env v (Some node) =
     (case v of
        JObject es \<Rightarrow> JObject (map (\<lambda>(key, child). (key, payload_value env child (map_of (fd_fields node) key))) es)
      | JArray items \<Rightarrow> JArray (map (\<lambda>item. payload_value env item (element_node (Some node))) items)
      | JNull \<Rightarrow> JNull
      | scalar \<Rightarrow>
          (case fa_ty (fd_attrs node) of
             Some ty \<Rightarrow> payload_scalar env (kd_payload (kind ty)) scalar
           | None \<Rightarrow> scalar))"
  by pat_completeness auto

termination payload_value
  by (relation "measure (\<lambda>(env, v, node). size v)") (auto dest: item_size object_value_size)

declare payload_value.simps [simp del]

definition payload_frontmatter :: "value_env \<Rightarrow> jobj \<Rightarrow> resolved_schema \<Rightarrow> jobj" where
  "payload_frontmatter env fm schema =
     map (\<lambda>(key, v). (key, payload_value env v (map_of (rs_tree (sc_fields schema)) key))) fm"

section \<open>The cap\<close>

text \<open>The rows of a value with no cap.\<close>

definition leaf_rows ::
    "value_env \<Rightarrow> 'f float_env \<Rightarrow> string \<Rightarrow> int option \<Rightarrow> json \<Rightarrow> field_def option \<Rightarrow> 'f field_row list" where
  "leaf_rows env fe path elem v node = push_leaf env fe path elem v node []"

function value_rows ::
    "value_env \<Rightarrow> 'f float_env \<Rightarrow> string \<Rightarrow> nat \<Rightarrow> json \<Rightarrow> field_def option \<Rightarrow> int option \<Rightarrow> 'f field_row list" where
  "value_rows env fe path depth JNull node elem = []"
| "value_rows env fe path depth (JArray items) node elem =
     concat (map (\<lambda>(i, item).
         if is_container_value item then
           (if MAX_FIELD_PATH_DEPTH \<le> depth then []
            else value_rows env fe (path @ ''[]'') (depth + 1) item (element_node node) (or_else elem (Some (int i))))
         else leaf_rows env fe path elem item (element_node node))
       (enumerate 0 items))"
| "value_rows env fe path depth (JObject es) node elem =
     (if MAX_FIELD_PATH_DEPTH \<le> depth then []
      else concat (map (\<lambda>(key, child).
          value_rows env fe (path @ ''.'' @ key) (depth + 1) child (child_node node key) elem)
        (sort_key fst es)))"
| "value_rows env fe path depth (JString s) node elem = leaf_rows env fe path elem (JString s) node"
| "value_rows env fe path depth (JInt n) node elem = leaf_rows env fe path elem (JInt n) node"
| "value_rows env fe path depth (JFloat f) node elem = leaf_rows env fe path elem (JFloat f) node"
| "value_rows env fe path depth (JBool b) node elem = leaf_rows env fe path elem (JBool b) node"
  by pat_completeness auto
termination value_rows
  by (relation "measure (\<lambda>(env, fe, path, depth, v, node, elem). size v)")
    (auto dest: enumerate_item_size object_value_size)

text \<open>Adding rows up to the cap, in one go or group by group.\<close>

definition add_rows :: "'r list \<Rightarrow> 'r list \<Rightarrow> 'r list" where
  "add_rows out rows = (if MAX_PROJECTED_ROWS \<le> length out then out else take MAX_PROJECTED_ROWS (out @ rows))"

lemma add_rows_Nil [simp]: "add_rows out [] = out"
  by (simp add: add_rows_def)

lemma add_rows_full [simp]: "MAX_PROJECTED_ROWS \<le> length out \<Longrightarrow> add_rows out rows = out"
  by (simp add: add_rows_def)

lemma add_rows_append: "add_rows out (xs @ ys) = add_rows (add_rows out xs) ys"
  by (auto simp: add_rows_def)

lemma foldl_add_rows:
  assumes "\<And>x out. x \<in> set xs \<Longrightarrow> step out x = add_rows out (rows x)"
  shows "foldl step out xs = add_rows out (concat (map rows xs))"
  using assms by (induction xs arbitrary: out) (simp_all add: add_rows_append)

lemma push_leaf_rows: "push_leaf env fe path elem v node out = out @ leaf_rows env fe path elem v node"
  by (simp add: leaf_rows_def push_leaf_def split: option.split)

lemma leaf_rows_le1: "length (leaf_rows env fe path elem v node) \<le> 1"
  by (simp add: leaf_rows_def push_leaf_def split: option.split)

lemma push_leaf_add_rows:
  "(if MAX_PROJECTED_ROWS \<le> length out then out else push_leaf env fe path elem v node out)
     = add_rows out (leaf_rows env fe path elem v node)"
  using leaf_rows_le1 [of env fe path elem v node] by (simp add: add_rows_def push_leaf_rows)

lemma flatten_value_add_rows:
  "flatten_value env fe path depth v node elem out = add_rows out (value_rows env fe path depth v node elem)"
proof (induction env fe path depth v node elem arbitrary: out rule: value_rows.induct)
  case (2 env fe path depth items node elem)
  have IH: "flatten_value env fe (path @ ''[]'') (depth + 1) item (element_node node) (or_else elem (Some (int i))) out
      = add_rows out (value_rows env fe (path @ ''[]'') (depth + 1) item (element_node node) (or_else elem (Some (int i))))"
    if "(i, item) \<in> set (enumerate 0 items)" "is_container_value item" "\<not> MAX_FIELD_PATH_DEPTH \<le> depth" for i item out
    by (rule 2 [OF that(1) refl that(2,3)])
  have "flatten_value env fe path depth (JArray items) node elem out
      = foldl (\<lambda>out (i, item).
              if MAX_PROJECTED_ROWS \<le> length out then out
              else if is_container_value item then
                (if MAX_FIELD_PATH_DEPTH \<le> depth then out
                 else flatten_value env fe (path @ ''[]'') (depth + 1) item (element_node node)
                        (or_else elem (Some (int i))) out)
              else push_leaf env fe path elem item (element_node node) out)
            out (enumerate 0 items)"
    by (simp add: flatten_value.simps)
  also have "\<dots> = add_rows out (value_rows env fe path depth (JArray items) node elem)"
    unfolding value_rows.simps
    by (rule foldl_add_rows) (auto simp: IH [simplified] push_leaf_add_rows [symmetric] split: prod.splits)
  finally show ?case .
next
  case (3 env fe path depth es node elem)
  have "foldl (\<lambda>out (key, child).
              if MAX_PROJECTED_ROWS \<le> length out then out
              else flatten_value env fe (path @ ''.'' @ key) (depth + 1) child (child_node node key) elem out)
            out (sort_key fst es)
      = add_rows out (concat (map (\<lambda>(key, child).
          value_rows env fe (path @ ''.'' @ key) (depth + 1) child (child_node node key) elem)
        (sort_key fst es)))" if "\<not> MAX_FIELD_PATH_DEPTH \<le> depth"
    by (rule foldl_add_rows) (use 3 [OF that] in \<open>auto split: prod.splits\<close>)
  then show ?case by (simp add: flatten_value.simps)
qed (simp_all add: flatten_value.simps push_leaf_add_rows)

definition document_rows :: "value_env \<Rightarrow> 'f float_env \<Rightarrow> fields \<Rightarrow> jobj \<Rightarrow> 'f field_row list" where
  "document_rows env fe tree fm =
     concat (map (\<lambda>(key, v). value_rows env fe key 1 v (map_of tree key) None)
       (filter (\<lambda>(key, v). key \<notin> set PROMOTED_FIELDS) fm))"

lemma length_add_rows_le: "length out \<le> MAX_PROJECTED_ROWS \<Longrightarrow> length (add_rows out rows) \<le> MAX_PROJECTED_ROWS"
  by (auto simp: add_rows_def)

lemma flatten_keys_add_rows:
  "length rows \<le> MAX_PROJECTED_ROWS \<Longrightarrow>
    flatten_keys env fe tree fm rows = add_rows rows (document_rows env fe tree fm)"
proof (induction env fe tree fm rows rule: flatten_keys.induct)
  case (1 env fe tree rows)
  then show ?case by (simp add: document_rows_def)
next
  case (2 env fe tree key v rest rows)
  show ?case
  proof (cases "key \<in> set PROMOTED_FIELDS")
    case True
    then show ?thesis using 2 by (simp add: document_rows_def)
  next
    case False
    define out where "out = flatten_value env fe key 1 v (map_of tree key) None rows"
    have add: "out = add_rows rows (value_rows env fe key 1 v (map_of tree key) None)"
      by (simp add: out_def flatten_value_add_rows)
    then have le: "length out \<le> MAX_PROJECTED_ROWS" using "2.prems" by (simp add: length_add_rows_le)
    have "document_rows env fe tree ((key, v) # rest)
        = value_rows env fe key 1 v (map_of tree key) None @ document_rows env fe tree rest"
      using False by (simp add: document_rows_def)
    then have whole: "add_rows rows (document_rows env fe tree ((key, v) # rest)) = add_rows out (document_rows env fe tree rest)"
      by (simp add: add add_rows_append)
    have turn: "flatten_keys env fe tree ((key, v) # rest) rows
        = (if MAX_PROJECTED_ROWS \<le> length out then out else flatten_keys env fe tree rest out)"
      using False le by (simp add: out_def)
    have later: "flatten_keys env fe tree rest out = add_rows out (document_rows env fe tree rest)"
      if "\<not> MAX_PROJECTED_ROWS \<le> length out"
      using "2.IH"(2) [OF False refl] that le unfolding out_def by blast
    show ?thesis
      unfolding turn whole using later by (cases "MAX_PROJECTED_ROWS \<le> length out") simp_all
  qed
qed

section \<open>Properties\<close>

text \<open>
  The row cap of the projection drops a suffix and nothing else. Although the cap is tested inside
  every expansion, so that a huge list is never materialised, the rows of a document are the first
  \<open>MAX_PROJECTED_ROWS\<close> of the rows its frontmatter has without a cap: those of each field except the
  promoted ones, lists of lists or objects last, otherwise in key order.
\<close>

theorem projection_is_capped_prefix:
  "flatten_frontmatter env fe fm schema
     = take MAX_PROJECTED_ROWS (document_rows env fe (rs_tree (sc_fields schema)) (projection_order fm))"
  by (simp add: flatten_frontmatter_def flatten_keys_add_rows add_rows_def MAX_PROJECTED_ROWS_def)

text \<open>The number a JSON number stands for, when it is an integer.\<close>

fun integer_value :: "value_env \<Rightarrow> json \<Rightarrow> int option" where
  "integer_value env (JInt i) = Some i"
| "integer_value env (JFloat f) = float_int env f"
| "integer_value env _ = None"

lemma int_text_inject [simp]: "int_text i = int_text j \<longleftrightarrow> i = j"
proof -
  have "CHR ''-'' \<notin> set (dec n)" for n using dec_digits [of "CHR ''-''" n] by auto
  then have "dec n \<noteq> CHR ''-'' # s" for n s by (metis list.set_intros(1))
  then show ?thesis by (auto simp: int_text_def dest: not_sym)
qed

lemma canonical_integer:
  assumes "integer_value env v = Some i" "- (2 ^ 63) \<le> i" "i < 2 ^ 64"
  shows "canonical_text env v = Some (int_text i)"
  using assms by (cases v) (auto simp: saturate_u64_def)

text \<open>
  One spelling per number. Two JSON numbers with integral values that 64 bits can hold, signed or
  unsigned, have the same canonical text exactly when they are equal as numbers, however they were
  written (\<open>45\<close>, \<open>45.0\<close>): so equality filters neither miss a document nor confuse two values.
\<close>

theorem canonical_text_one_spelling:
  assumes "integer_value env v = Some i" "- (2 ^ 63) \<le> i" "i < 2 ^ 64"
    and "integer_value env w = Some j" "- (2 ^ 63) \<le> j" "j < 2 ^ 64"
  shows "canonical_text env v = canonical_text env w \<longleftrightarrow> i = j"
  using canonical_integer [OF assms(1-3)] canonical_integer [OF assms(4-6)] by simp

definition demo_env :: value_env where
  "demo_env =
     \<lparr>float_int = (\<lambda>s. if s = ''45.0'' then Some 45 else if s = ''1.8446744073709552e19'' then Some (2 ^ 64) else None),
      float_text = (\<lambda>s. s), is_date = (\<lambda>s. length s = 10), is_timestamp = (\<lambda>s. length s = 20),
      to_utc_text = (\<lambda>s. if length s = 10 then Some (s @ ''T00:00:00Z'') else if length s = 20 then Some s else None),
      json_text = (\<lambda>_. ''json''), to_lower = (\<lambda>s. s)\<rparr>"

lemma canonical_text_one_spelling_witness:
  "canonical_text demo_env (JFloat ''45.0'') = canonical_text demo_env (JInt 45)"
  using canonical_text_one_spelling [of demo_env "JFloat ''45.0''" 45 "JInt 45" 45] by (simp add: demo_env_def)

text \<open>
  Above 64 bits one spelling stands for two numbers: the bound of the cast is \<open>2 ^ 64\<close>, which the cast
  saturates to the largest unsigned number.
\<close>

lemma canonical_number_collision:
  assumes "float_int env f = Some (2 ^ 64)"
  shows "canonical_number env (JFloat f) = canonical_number env (JInt (2 ^ 64 - 1))"
  using assms by (simp add: saturate_u64_def)

end
