(* ===== verification/Validate.thy ===== *)
theory Validate
  imports Projection Dotpath
begin

text \<open>
  Validation of frontmatter, \<open>src/src/validate.rs\<close> with the checks of \<open>src/src/schema.rs\<close> it calls: defaults,
  the recursive walk of a document against the field tree, the cap on reported errors, the lint command
  and the report on broken links. The parser of frontmatter and the runs of the lint command are
  parameters.
\<close>

record field_error =
  fe_field :: string
  fe_rule :: string
  fe_message :: string
  fe_got :: "string option"
  fe_expected :: "string list option"
  fe_schema_origin :: "string option"

section \<open>Texts\<close>

definition ellipsis :: string where
  "ellipsis = [CHR 0xE2, CHR 0x80, CHR 0xA6]"

definition sanitize_facet_value :: "string \<Rightarrow> string" where
  "sanitize_facet_value s =
     (let cleaned = map (\<lambda>c. if is_control c then '' '' else c) (chars s)
      in if length cleaned \<le> 64 then concat cleaned else concat (take 64 cleaned) @ ellipsis)"

definition origin_suffix :: "field_def \<Rightarrow> string option \<times> string" where
  "origin_suffix def =
     (case fa_declared_in (fd_attrs def) of
        Some origin \<Rightarrow>
          (let clean = sanitize_facet_value origin in (Some clean, '' [declared in '' @ clean @ '']''))
      | None \<Rightarrow> (None, []))"

definition compact_value :: "value_env \<Rightarrow> json \<Rightarrow> string" where
  "compact_value env v =
     (let rendered = (case v of JString s \<Rightarrow> s | _ \<Rightarrow> json_text env v)
      in if 80 < length (chars rendered) then concat (take 80 (chars rendered)) @ ellipsis else rendered)"

fun kind_of :: "json \<Rightarrow> string" where
  "kind_of JNull = ''null''"
| "kind_of (JBool b) = ''a boolean''"
| "kind_of (JFloat f) = ''a decimal number''"
| "kind_of (JInt i) = ''an integer''"
| "kind_of (JString s) = ''a string''"
| "kind_of (JArray vs) = ''a list''"
| "kind_of (JObject es) = ''an object''"

section \<open>Types and permitted values\<close>

definition check_type :: "value_env \<Rightarrow> field_type \<Rightarrow> json \<Rightarrow> (string, unit) outcome" where
  "check_type env ty v =
     (if kd_accepts (kind ty) env v then Ok ()
      else Err (''expected '' @ kd_describe (kind ty) @ '', got '' @ kind_of v))"

fun try_for_each :: "('a \<Rightarrow> (string, unit) outcome) \<Rightarrow> 'a list \<Rightarrow> (string, unit) outcome" where
  "try_for_each f [] = Ok ()"
| "try_for_each f (x # xs) = bind_outcome (f x) (\<lambda>_. try_for_each f xs)"

definition not_permitted :: "string \<Rightarrow> string list \<Rightarrow> string" where
  "not_permitted s permitted =
     CHR 39 # s @ [CHR 39] @ '' is not permitted here (allowed: '' @ join '', '' permitted @ '')''"

definition check_string :: "string list \<Rightarrow> string \<Rightarrow> (string, unit) outcome" where
  "check_string permitted s = (if s \<in> set permitted then Ok () else Err (not_permitted s permitted))"

definition check_values_lenient :: "json \<Rightarrow> string list option \<Rightarrow> (string, unit) outcome" where
  "check_values_lenient v permitted =
     (case permitted of
        None \<Rightarrow> Ok ()
      | Some ps \<Rightarrow>
          (case v of
             JString s \<Rightarrow> check_string ps s
           | JArray items \<Rightarrow> try_for_each (\<lambda>item. case item of JString s \<Rightarrow> check_string ps s | _ \<Rightarrow> Ok ()) items
           | _ \<Rightarrow> Ok ()))"

definition check_scalar :: "value_env \<Rightarrow> string list \<Rightarrow> json \<Rightarrow> (string, unit) outcome" where
  "check_scalar env permitted v =
     (case canonical_text env v of
        None \<Rightarrow> Err (kind_of v @ '' cannot be checked against a value list'')
      | Some t \<Rightarrow> if t \<in> set permitted then Ok () else Err (not_permitted t permitted))"

definition check_values :: "value_env \<Rightarrow> json \<Rightarrow> string list \<Rightarrow> (string, unit) outcome" where
  "check_values env v permitted =
     (case v of JArray items \<Rightarrow> try_for_each (check_scalar env permitted) items | _ \<Rightarrow> check_scalar env permitted v)"

section \<open>The walk of a document\<close>

definition quoted :: "string \<Rightarrow> string" where
  "quoted s = CHR 39 # s @ [CHR 39]"

definition required_error :: "string \<Rightarrow> field_def \<Rightarrow> field_error" where
  "required_error path def =
     \<lparr>fe_field = path, fe_rule = ''required'',
      fe_message = ''Missing required frontmatter field: '' @ quoted path @ snd (origin_suffix def),
      fe_got = None, fe_expected = None, fe_schema_origin = fst (origin_suffix def)\<rparr>"

definition type_error :: "value_env \<Rightarrow> string \<Rightarrow> field_def \<Rightarrow> json \<Rightarrow> string \<Rightarrow> field_error" where
  "type_error env path def v reason =
     \<lparr>fe_field = path, fe_rule = ''type_mismatch'',
      fe_message = ''field '' @ quoted path @ '': '' @ reason @ snd (origin_suffix def),
      fe_got = Some (compact_value env v), fe_expected = None, fe_schema_origin = fst (origin_suffix def)\<rparr>"

definition closed_error :: "string \<Rightarrow> field_def \<Rightarrow> string \<Rightarrow> field_error" where
  "closed_error path def key =
     (let child = path @ ''.'' @ key
      in \<lparr>fe_field = child, fe_rule = ''closed_object'',
          fe_message = ''field '' @ quoted child @ '' is not declared, and '' @ quoted path
            @ '' does not allow undeclared keys'' @ snd (origin_suffix def),
          fe_got = None, fe_expected = None, fe_schema_origin = fst (origin_suffix def)\<rparr>)"

definition value_error :: "value_env \<Rightarrow> string \<Rightarrow> field_def \<Rightarrow> json \<Rightarrow> string list \<Rightarrow> string \<Rightarrow> field_error" where
  "value_error env path def v permitted reason =
     \<lparr>fe_field = path, fe_rule = ''allowed_value'',
      fe_message = ''field '' @ quoted path @ '': '' @ reason @ snd (origin_suffix def),
      fe_got = Some (compact_value env v), fe_expected = Some permitted, fe_schema_origin = fst (origin_suffix def)\<rparr>"

definition check_closed_keys :: "string \<Rightarrow> field_def \<Rightarrow> json \<Rightarrow> field_error list" where
  "check_closed_keys path def v =
     (if fa_open (fd_attrs def) \<or> fa_ty (fd_attrs def) \<notin> {None, Some FObject} then []
      else case v of
        JObject es \<Rightarrow>
          map (closed_error path def) (filter (\<lambda>key. map_of (fd_fields def) key = None) (map fst es))
      | _ \<Rightarrow> [])"

definition check_permitted_values :: "value_env \<Rightarrow> string \<Rightarrow> field_def \<Rightarrow> json \<Rightarrow> field_error list" where
  "check_permitted_values env path def v =
     (case fa_values (fd_attrs def) of
        None \<Rightarrow> []
      | Some permitted \<Rightarrow>
          (case (if fa_ty (fd_attrs def) = None then check_values_lenient v (Some permitted)
                 else check_values env v permitted) of
             Err reason \<Rightarrow> [value_error env path def v permitted reason]
           | _ \<Rightarrow> []))"

definition object_get :: "string \<Rightarrow> json \<Rightarrow> json option" where
  "object_get key v = (case v of JObject es \<Rightarrow> map_of es key | _ \<Rightarrow> None)"

definition type_result :: "value_env \<Rightarrow> field_def \<Rightarrow> json \<Rightarrow> (string, unit) outcome" where
  "type_result env def v = (case fa_ty (fd_attrs def) of None \<Rightarrow> Ok () | Some ty \<Rightarrow> check_type env ty v)"

definition is_absent :: "json option \<Rightarrow> bool" where
  "is_absent v \<longleftrightarrow> v = None \<or> v = Some JNull"

definition element_path :: "string \<Rightarrow> nat \<Rightarrow> string" where
  "element_path path i = path @ ''['' @ dec i @ '']''"

text \<open>The errors a check pushes, in order. The walk of a present value is by recursion on the field tree.\<close>

lemma child_def_size:
  assumes "(name, child) \<in> set (fd_fields def)"
  shows "size child < size def"
proof (cases def)
  case (FieldDef a its chs)
  have "size child \<le> size_list (size_prod (\<lambda>_. 0) size) chs"
    using assms unfolding FieldDef field_def.sel by (induction chs) auto
  then show ?thesis by (simp add: FieldDef)
qed

lemma items_def_size: "fd_items def = Some items \<Longrightarrow> size items < size def"
  by (cases def) simp

function check_field :: "value_env \<Rightarrow> string \<Rightarrow> field_def \<Rightarrow> bool \<Rightarrow> json option \<Rightarrow> field_error list"
  and check_value :: "value_env \<Rightarrow> string \<Rightarrow> field_def \<Rightarrow> json \<Rightarrow> field_error list" where
  "check_field env path def required v =
     (let empty_string = (v = Some (JString []))
      in (if (is_absent v \<or> empty_string) \<and> required then [required_error path def] else [])
         @ (case v of
              None \<Rightarrow> []
            | Some w \<Rightarrow> if w = JNull then [] else check_value env path def w))"
| "check_value env path def v =
     (case type_result env def v of
        Err reason \<Rightarrow> [type_error env path def v reason]
      | _ \<Rightarrow>
          check_closed_keys path def v @ check_permitted_values env path def v
          @ (case fd_items def of
               None \<Rightarrow> []
             | Some items \<Rightarrow>
                 (case v of
                    JArray elements \<Rightarrow>
                      concat (map (\<lambda>(i, element). check_value env (element_path path i) items element)
                        (enumerate 0 elements))
                  | _ \<Rightarrow> [])))
     @ concat (map (\<lambda>(name, child).
         check_field env (path @ ''.'' @ name) child (fa_required (fd_attrs child)) (object_get name v))
       (fd_fields def))"
  by pat_completeness auto
termination
  by (relation "measure (\<lambda>x. case x of Inl (env, path, def, required, v) \<Rightarrow> 2 * size def + 1
                                      | Inr (env, path, def, v) \<Rightarrow> 2 * size def)")
    (auto dest: child_def_size items_def_size)

declare check_field.simps [simp del] check_value.simps [simp del]

definition MAX_FIELD_ERRORS :: nat where
  "MAX_FIELD_ERRORS = 100"

definition more_error :: "nat \<Rightarrow> field_error" where
  "more_error n =
     \<lparr>fe_field = ''<more>'', fe_rule = ''too_many_errors'',
      fe_message = dec (n - MAX_FIELD_ERRORS) @ '' more frontmatter errors not shown ('' @ dec n @ '' in total)'',
      fe_got = None, fe_expected = None, fe_schema_origin = None\<rparr>"

definition cap_field_errors :: "field_error list \<Rightarrow> field_error list" where
  "cap_field_errors errors =
     (if length errors \<le> MAX_FIELD_ERRORS then errors
      else take MAX_FIELD_ERRORS errors @ [more_error (length errors)])"

definition tree_errors :: "value_env \<Rightarrow> jobj \<Rightarrow> resolved_schema \<Rightarrow> field_error list" where
  "tree_errors env fm schema =
     concat (map (\<lambda>(name, def).
         check_field env name def (fa_required (fd_attrs def) \<and> \<not> is_derived schema name) (map_of fm name))
       (rs_tree (sc_fields schema)))"

definition validate_frontmatter :: "value_env \<Rightarrow> jobj \<Rightarrow> resolved_schema \<Rightarrow> field_error list" where
  "validate_frontmatter env fm schema = cap_field_errors (tree_errors env fm schema)"

section \<open>Defaults, the lint command, a whole document\<close>

definition apply_default :: "resolved_schema \<Rightarrow> jobj \<Rightarrow> string \<times> field_def \<Rightarrow> jobj" where
  "apply_default schema fm entry =
     (case entry of (path, def) \<Rightarrow>
        (case fa_default (fd_attrs def) of
           None \<Rightarrow> fm
         | Some d \<Rightarrow>
             if is_derived schema path then fm
             else if get_by_dotpath fm path = None then set_by_dotpath fm path d
             else fm))"

definition apply_defaults :: "jobj \<Rightarrow> resolved_schema \<Rightarrow> jobj" where
  "apply_defaults fm schema = foldl (apply_default schema) fm (rs_flat (sc_fields schema))"

datatype lint_run = LintSuccess | LintFailure string string | LintSpawnError string | LintTimeout

record validation_config =
  vc_enabled :: bool
  vc_strict :: bool
  vc_lint_command :: "string list option"
  vc_lint_timeout_secs :: nat

definition lint_error :: "string \<Rightarrow> field_error" where
  "lint_error message =
     \<lparr>fe_field = ''<lint>'', fe_rule = ''lint'', fe_message = message, fe_got = None, fe_expected = None,
      fe_schema_origin = None\<rparr>"

definition lint_errors :: "validation_config \<Rightarrow> (string list \<Rightarrow> lint_run) \<Rightarrow> string \<Rightarrow> field_error list" where
  "lint_errors config run path =
     (case vc_lint_command config of
        Some (program # args) \<Rightarrow>
          (case run (program # args @ [path]) of
             LintSuccess \<Rightarrow> []
           | LintFailure stderr stdout \<Rightarrow>
               [lint_error (''Lint command failed: '' @ (if stderr \<noteq> [] then trim stderr else trim stdout))]
           | LintSpawnError e \<Rightarrow> [lint_error (''Failed to run lint command: '' @ e)]
           | LintTimeout \<Rightarrow>
               [lint_error (''Lint command timed out after '' @ dec (vc_lint_timeout_secs config)
                  @ ''s (validation.lint_timeout_secs)'')])
      | _ \<Rightarrow> [])"

record validation_result =
  vr_file_path :: string
  vr_valid :: bool
  vr_errors :: "string list"
  vr_field_errors :: "field_error list"

definition parse_frontmatter :: "(string \<Rightarrow> jobj \<times> string) \<Rightarrow> string \<Rightarrow> resolved_schema \<Rightarrow> jobj \<times> string" where
  "parse_frontmatter parse_raw content schema =
     (case parse_raw content of (fm, body) \<Rightarrow> (apply_defaults fm schema, body))"

definition validate_content ::
    "value_env \<Rightarrow> (string \<Rightarrow> jobj \<times> string) \<Rightarrow> (string list \<Rightarrow> lint_run) \<Rightarrow> string \<Rightarrow> string \<Rightarrow> resolved_schema
       \<Rightarrow> validation_config \<Rightarrow> validation_result \<times> (jobj \<times> string) option" where
  "validate_content env parse_raw run path content schema config =
     (case parse_frontmatter parse_raw content schema of (fm, body) \<Rightarrow>
        if \<not> vc_enabled config
        then (\<lparr>vr_file_path = path, vr_valid = True, vr_errors = [], vr_field_errors = []\<rparr>, Some (fm, body))
        else
          let field_errors = validate_frontmatter env fm schema @ lint_errors config run path;
              valid = (field_errors = [])
          in (\<lparr>vr_file_path = path, vr_valid = valid, vr_errors = map fe_message field_errors,
               vr_field_errors = field_errors\<rparr>,
              if valid then Some (fm, body) else None))"

section \<open>The report on broken links\<close>

record broken_links_by_source =
  bl_source :: string
  bl_targets :: "string list"

record broken_links_report =
  br_by_source :: "broken_links_by_source list"
  br_total :: nat
  br_truncated :: bool

definition MAX_BROKEN_LINKS_SHOWN :: nat where
  "MAX_BROKEN_LINKS_SHOWN = 200"

definition push_broken :: "broken_links_by_source list \<Rightarrow> string \<times> string \<Rightarrow> broken_links_by_source list" where
  "push_broken by_source pair =
     (case pair of (source, target) \<Rightarrow>
        if by_source \<noteq> [] \<and> bl_source (List.last by_source) = source
        then butlast by_source @ [(List.last by_source)\<lparr>bl_targets := bl_targets (List.last by_source) @ [target]\<rparr>]
        else by_source @ [\<lparr>bl_source = source, bl_targets = [target]\<rparr>])"

definition broken_links_report_limited ::
    "(string \<Rightarrow> bool) \<Rightarrow> (string \<times> string) list \<Rightarrow> nat \<Rightarrow> broken_links_report" where
  "broken_links_report_limited target_is_present pairs limit =
     (let live = filter (\<lambda>(_, target). \<not> target_is_present target) pairs
      in \<lparr>br_by_source = foldl push_broken [] (take limit live), br_total = length live,
          br_truncated = (limit < length live)\<rparr>)"

definition broken_links_report :: "(string \<Rightarrow> bool) \<Rightarrow> (string \<times> string) list \<Rightarrow> broken_links_report" where
  "broken_links_report target_is_present pairs =
     broken_links_report_limited target_is_present pairs MAX_BROKEN_LINKS_SHOWN"

end
