(* ===== verification/ValidateSpec.thy ===== *)
theory ValidateSpec
  imports Validate
begin

text \<open>
  What validation promises: the violations of a schema as inductive relations over a document, and the
  proof that the walk of \<open>Validate\<close> reports exactly them; the laws of defaults; and the agreement of
  validated values with the kinds of the payload indexes.
\<close>

section \<open>The places of a document a schema speaks about\<close>

text \<open>
  \<open>field_at\<close>: a declared field whose parent is present, with whether it is required and its value, if
  any. \<open>value_at\<close>: a present value read under a node of the field tree.
\<close>

inductive field_at :: "value_env \<Rightarrow> resolved_schema \<Rightarrow> jobj \<Rightarrow> string \<Rightarrow> field_def \<Rightarrow> bool \<Rightarrow> json option \<Rightarrow> bool"
  and value_at :: "value_env \<Rightarrow> resolved_schema \<Rightarrow> jobj \<Rightarrow> string \<Rightarrow> field_def \<Rightarrow> json \<Rightarrow> bool"
  for env schema fm where
  top_field: "(name, def) \<in> set (rs_tree (sc_fields schema)) \<Longrightarrow>
    field_at env schema fm name def (fa_required (fd_attrs def) \<and> \<not> is_derived schema name) (map_of fm name)"
| child_field: "value_at env schema fm path def v \<Longrightarrow> (name, child) \<in> set (fd_fields def) \<Longrightarrow>
    field_at env schema fm (path @ ''.'' @ name) child (fa_required (fd_attrs child)) (object_get name v)"
| present: "field_at env schema fm path def required (Some v) \<Longrightarrow> v \<noteq> JNull \<Longrightarrow> value_at env schema fm path def v"
| element: "value_at env schema fm path def (JArray vs) \<Longrightarrow> type_result env def (JArray vs) = Ok () \<Longrightarrow>
    fd_items def = Some items \<Longrightarrow> i < length vs \<Longrightarrow> value_at env schema fm (element_path path i) items (vs ! i)"

definition scalars_of :: "json \<Rightarrow> json list" where
  "scalars_of v = (case v of JArray vs \<Rightarrow> vs | _ \<Rightarrow> [v])"

definition values_ok :: "value_env \<Rightarrow> field_type option \<Rightarrow> string list \<Rightarrow> json \<Rightarrow> bool" where
  "values_ok env ty permitted v \<longleftrightarrow>
     (\<forall>x\<in>set (scalars_of v). case ty of
        None \<Rightarrow> (case x of JString s \<Rightarrow> s \<in> set permitted | _ \<Rightarrow> True)
      | Some _ \<Rightarrow> (case canonical_text env x of Some t \<Rightarrow> t \<in> set permitted | None \<Rightarrow> False))"

text \<open>A violation is a path, the rule broken there and the scope that declared the rule.\<close>

inductive violation :: "value_env \<Rightarrow> resolved_schema \<Rightarrow> jobj \<Rightarrow> string \<times> string \<times> string option \<Rightarrow> bool"
  for env schema fm where
  missing: "field_at env schema fm path def True v \<Longrightarrow> is_absent v \<or> v = Some (JString []) \<Longrightarrow>
    violation env schema fm (path, ''required'', fst (origin_suffix def))"
| mistyped: "value_at env schema fm path def v \<Longrightarrow> fa_ty (fd_attrs def) = Some ty \<Longrightarrow> \<not> kd_accepts (kind ty) env v \<Longrightarrow>
    violation env schema fm (path, ''type_mismatch'', fst (origin_suffix def))"
| undeclared: "value_at env schema fm path def (JObject es) \<Longrightarrow> \<not> fa_open (fd_attrs def) \<Longrightarrow>
    fa_ty (fd_attrs def) \<in> {None, Some FObject} \<Longrightarrow> key \<in> fst ` set es \<Longrightarrow> key \<notin> fst ` set (fd_fields def) \<Longrightarrow>
    violation env schema fm (path @ ''.'' @ key, ''closed_object'', fst (origin_suffix def))"
| forbidden: "value_at env schema fm path def v \<Longrightarrow> type_result env def v = Ok () \<Longrightarrow>
    fa_values (fd_attrs def) = Some permitted \<Longrightarrow> \<not> values_ok env (fa_ty (fd_attrs def)) permitted v \<Longrightarrow>
    violation env schema fm (path, ''allowed_value'', fst (origin_suffix def))"

definition fe_key :: "field_error \<Rightarrow> string \<times> string \<times> string option" where
  "fe_key e = (fe_field e, fe_rule e, fe_schema_origin e)"

section \<open>The checks of one value\<close>

lemma try_for_each_Ok: "try_for_each f xs = Ok () \<longleftrightarrow> (\<forall>x\<in>set xs. f x = Ok ())"
  by (induction xs) (auto simp: outcome_simps)

lemma try_for_each_not_Panic: "(\<And>x. f x \<noteq> Panic) \<Longrightarrow> try_for_each f xs \<noteq> Panic"
  by (induction xs) (auto simp: outcome_simps)

lemma check_string_Ok: "check_string ps s = Ok () \<longleftrightarrow> s \<in> set ps" "check_string ps s \<noteq> Panic"
  by (simp_all add: check_string_def)

lemma check_scalar_Ok:
  "check_scalar env ps v = Ok () \<longleftrightarrow> (case canonical_text env v of Some t \<Rightarrow> t \<in> set ps | None \<Rightarrow> False)"
  "check_scalar env ps v \<noteq> Panic"
  by (simp_all add: check_scalar_def split: option.split)

lemma lenient_Ok: "check_values_lenient v (Some ps) = Ok () \<longleftrightarrow> values_ok env None ps v"
  by (cases v)
    (auto simp: check_values_lenient_def values_ok_def scalars_of_def check_string_Ok try_for_each_Ok split: json.splits)

lemma strict_Ok: "check_values env v ps = Ok () \<longleftrightarrow> values_ok env (Some ty) ps v"
  by (cases v) (simp_all add: check_values_def values_ok_def scalars_of_def check_scalar_Ok try_for_each_Ok)

lemma checks_not_Panic:
  "check_values_lenient v (Some ps) \<noteq> Panic" "check_values env v ps \<noteq> Panic" "type_result env def v \<noteq> Panic"
proof -
  show "check_values_lenient v (Some ps) \<noteq> Panic"
    by (auto simp: check_values_lenient_def check_string_Ok intro!: try_for_each_not_Panic split: json.splits)
  show "check_values env v ps \<noteq> Panic"
    by (auto simp: check_values_def check_scalar_Ok intro!: try_for_each_not_Panic split: json.splits)
  show "type_result env def v \<noteq> Panic"
    by (auto simp: type_result_def check_type_def split: option.splits)
qed

lemma type_result_Ok:
  "type_result env def v = Ok () \<longleftrightarrow> (\<forall>ty. fa_ty (fd_attrs def) = Some ty \<longrightarrow> kd_accepts (kind ty) env v)"
  by (auto simp: type_result_def check_type_def split: option.split)

lemma permitted_keys:
  "fe_key ` set (check_permitted_values env path def v) =
     {k. k = (path, ''allowed_value'', fst (origin_suffix def))
        \<and> (\<exists>ps. fa_values (fd_attrs def) = Some ps \<and> \<not> values_ok env (fa_ty (fd_attrs def)) ps v)}"
proof (cases "fa_values (fd_attrs def)")
  case None
  then show ?thesis by (simp add: check_permitted_values_def)
next
  case (Some ps)
  define r where "r = (if fa_ty (fd_attrs def) = None then check_values_lenient v (Some ps) else check_values env v ps)"
  have ok: "r = Ok () \<longleftrightarrow> values_ok env (fa_ty (fd_attrs def)) ps v"
    by (cases "fa_ty (fd_attrs def)") (simp_all add: r_def lenient_Ok [of v ps env] strict_Ok)
  moreover have "r \<noteq> Panic" by (simp add: r_def checks_not_Panic)
  ultimately show ?thesis
    by (cases r) (auto simp: check_permitted_values_def Some r_def [symmetric] fe_key_def value_error_def)
qed

lemma closed_keys:
  "fe_key ` set (check_closed_keys path def v) =
     {k. \<exists>es key. v = JObject es \<and> \<not> fa_open (fd_attrs def) \<and> fa_ty (fd_attrs def) \<in> {None, Some FObject}
        \<and> key \<in> fst ` set es \<and> key \<notin> fst ` set (fd_fields def)
        \<and> k = (path @ ''.'' @ key, ''closed_object'', fst (origin_suffix def))}"
proof -
  have "fe_key (closed_error path def key) = (path @ ''.'' @ key, ''closed_object'', fst (origin_suffix def))" for key
    by (simp add: closed_error_def fe_key_def Let_def)
  then show ?thesis
    by (cases v) (auto simp: check_closed_keys_def map_of_eq_None_iff image_image)
qed

section \<open>The walk reports violations only\<close>

lemma check_field_errors:
  "e \<in> set (check_field env path def required v) \<longleftrightarrow>
     required \<and> (is_absent v \<or> v = Some (JString [])) \<and> e = required_error path def
     \<or> (\<exists>w. v = Some w \<and> w \<noteq> JNull \<and> e \<in> set (check_value env path def w))"
  by (subst check_field.simps) (auto simp: Let_def split: option.splits)

lemma check_value_errors:
  "e \<in> set (check_value env path def v) \<longleftrightarrow>
     (\<exists>reason. type_result env def v = Err reason \<and> e = type_error env path def v reason)
     \<or> type_result env def v = Ok () \<and> e \<in> set (check_closed_keys path def v) \<union> set (check_permitted_values env path def v)
     \<or> (\<exists>items vs i. type_result env def v = Ok () \<and> fd_items def = Some items \<and> v = JArray vs \<and> i < length vs
          \<and> e \<in> set (check_value env (element_path path i) items (vs ! i)))
     \<or> (\<exists>(name, child)\<in>set (fd_fields def).
          e \<in> set (check_field env (path @ ''.'' @ name) child (fa_required (fd_attrs child)) (object_get name v)))"
proof -
  have elements: "(\<exists>x\<in>set (enumerate 0 vs). e \<in> set (check_value env (element_path path (fst x)) items (snd x)))
      \<longleftrightarrow> (\<exists>i < length vs. e \<in> set (check_value env (element_path path i) items (vs ! i)))" for items vs
    by (force simp: enumerate_eq_zip set_zip)
  show ?thesis
    using checks_not_Panic(3) [of env def v]
    by (subst check_value.simps) (cases "type_result env def v"; cases "fd_items def"; cases v; simp add: elements case_prod_unfold)
qed

lemma walk_sound:
  "field_at env schema fm path def required v \<Longrightarrow> e \<in> set (check_field env path def required v) \<Longrightarrow>
     violation env schema fm (fe_key e)"
  "value_at env schema fm path' def' v' \<Longrightarrow> e \<in> set (check_value env path' def' v') \<Longrightarrow>
     violation env schema fm (fe_key e)"
proof (induction env path def required v and env path' def' v' rule: check_field_check_value.induct)
  case (1 env path def required v)
  from 1(3) consider (lacking) "e = required_error path def" "required" "is_absent v \<or> v = Some (JString [])"
    | (there) w where "v = Some w" "w \<noteq> JNull" "e \<in> set (check_value env path def w)"
    unfolding check_field_errors by blast
  then show ?case
  proof cases
    case lacking
    then show ?thesis
      using missing [of env schema fm path def v] 1(2) by (simp add: required_error_def fe_key_def)
  next
    case there
    then show ?thesis using 1 present by blast
  qed
next
  case (2 env path def v)
  note at = 2(4)
  from iffD1 [OF check_value_errors 2(5)] consider
      (badtype) reason where "type_result env def v = Err reason" "e = type_error env path def v reason"
    | (here) "type_result env def v = Ok ()" "e \<in> set (check_closed_keys path def v) \<union> set (check_permitted_values env path def v)"
    | (elem) items vs i where "type_result env def v = Ok ()" "fd_items def = Some items" "v = JArray vs" "i < length vs"
        "e \<in> set (check_value env (element_path path i) items (vs ! i))"
    | (below) name child where "(name, child) \<in> set (fd_fields def)"
        "e \<in> set (check_field env (path @ ''.'' @ name) child (fa_required (fd_attrs child)) (object_get name v))"
    by blast
  then show ?case
  proof cases
    case badtype
    then obtain ty where "fa_ty (fd_attrs def) = Some ty" "\<not> kd_accepts (kind ty) env v"
      by (auto simp: type_result_def check_type_def split: option.splits if_splits)
    then show ?thesis using mistyped [OF 2(4)] badtype by (simp add: type_error_def fe_key_def)
  next
    case here
    then consider "e \<in> set (check_closed_keys path def v)" | "e \<in> set (check_permitted_values env path def v)"
      by blast
    then show ?thesis
    proof cases
      case 1
      then have "fe_key e \<in> fe_key ` set (check_closed_keys path def v)" by (rule imageI)
      then obtain es key where v: "v = JObject es" and closed: "\<not> fa_open (fd_attrs def)"
        "fa_ty (fd_attrs def) \<in> {None, Some FObject}" "key \<in> fst ` set es" "key \<notin> fst ` set (fd_fields def)"
        and e: "fe_key e = (path @ ''.'' @ key, ''closed_object'', fst (origin_suffix def))"
        unfolding closed_keys by blast
      show ?thesis unfolding e by (rule undeclared [OF at [unfolded v] closed])
    next
      case 2
      then have "fe_key e \<in> fe_key ` set (check_permitted_values env path def v)" by (rule imageI)
      then obtain ps where e: "fe_key e = (path, ''allowed_value'', fst (origin_suffix def))"
        and ps: "fa_values (fd_attrs def) = Some ps" "\<not> values_ok env (fa_ty (fd_attrs def)) ps v"
        unfolding permitted_keys by blast
      show ?thesis unfolding e by (rule forbidden [OF at here(1) ps])
    qed
  next
    case elem
    have "value_at env schema fm (element_path path i) items (vs ! i)"
      using 2(4) elem by (auto intro: element)
    moreover have "(i, vs ! i) \<in> set (enumerate 0 vs)" using elem(4) by (simp add: in_set_enumerate_eq)
    ultimately show ?thesis using 2(1) elem by blast
  next
    case below
    then show ?thesis using 2(3) [OF below(1) refl] child_field [OF 2(4) below(1)] by blast
  qed
qed

section \<open>The walk reports every violation\<close>

lemma walk_complete:
  "field_at env schema fm path def required v \<Longrightarrow>
     set (check_field env path def required v) \<subseteq> set (tree_errors env fm schema)"
  "value_at env schema fm path' def' v' \<Longrightarrow> set (check_value env path' def' v') \<subseteq> set (tree_errors env fm schema)"
proof (induction rule: field_at_value_at.inducts)
  case (top_field name def)
  then show ?case by (auto simp: tree_errors_def)
next
  case (child_field path def v name child)
  then have "set (check_field env (path @ ''.'' @ name) child (fa_required (fd_attrs child)) (object_get name v))
      \<subseteq> set (check_value env path def v)"
    by (intro subsetI iffD2 [OF check_value_errors]) blast
  then show ?case using child_field by blast
next
  case (present path def required v)
  then show ?case by (auto simp: check_field_errors)
next
  case (element path def vs items i)
  then have "set (check_value env (element_path path i) items (vs ! i)) \<subseteq> set (check_value env path def (JArray vs))"
    by (intro subsetI iffD2 [OF check_value_errors]) blast
  then show ?case using element by blast
qed

lemma violation_reported:
  assumes "violation env schema fm k"
  shows "k \<in> fe_key ` set (tree_errors env fm schema)"
  using assms
proof cases
  case (missing path def v)
  then have "required_error path def \<in> set (check_field env path def True v)"
    by (simp add: check_field_errors)
  then have "required_error path def \<in> set (tree_errors env fm schema)" using walk_complete(1) missing by blast
  then show ?thesis unfolding missing by (rule image_eqI [rotated]) (simp add: required_error_def fe_key_def)
next
  case (mistyped path def v ty)
  then obtain reason where "type_result env def v = Err reason"
    by (auto simp: type_result_def check_type_def)
  then have "type_error env path def v reason \<in> set (check_value env path def v)"
    by (subst check_value_errors) simp
  then have "type_error env path def v reason \<in> set (tree_errors env fm schema)" using walk_complete(2) mistyped by blast
  then show ?thesis unfolding mistyped by (rule image_eqI [rotated]) (simp add: type_error_def fe_key_def)
next
  case (undeclared path def es key)
  then have "type_result env def (JObject es) = Ok ()" by (auto simp: type_result_def check_type_def)
  then have "set (check_closed_keys path def (JObject es)) \<subseteq> set (check_value env path def (JObject es))"
    by (intro subsetI iffD2 [OF check_value_errors]) blast
  moreover have "k \<in> fe_key ` set (check_closed_keys path def (JObject es))"
    unfolding closed_keys using undeclared by blast
  ultimately show ?thesis using walk_complete(2) undeclared by blast
next
  case (forbidden path def v permitted)
  then have "set (check_permitted_values env path def v) \<subseteq> set (check_value env path def v)"
    by (intro subsetI iffD2 [OF check_value_errors]) blast
  moreover have "k \<in> fe_key ` set (check_permitted_values env path def v)"
    unfolding permitted_keys using forbidden by blast
  ultimately show ?thesis using walk_complete(2) forbidden by blast
qed

lemma tree_errors_violations: "fe_key ` set (tree_errors env fm schema) = Collect (violation env schema fm)"
proof (intro equalityI subsetI)
  fix k
  assume "k \<in> fe_key ` set (tree_errors env fm schema)"
  then obtain e name def where "k = fe_key e" "(name, def) \<in> set (rs_tree (sc_fields schema))"
    "e \<in> set (check_field env name def (fa_required (fd_attrs def) \<and> \<not> is_derived schema name) (map_of fm name))"
    by (auto simp: tree_errors_def)
  then show "k \<in> Collect (violation env schema fm)" using walk_sound(1) [OF top_field] by simp
qed (simp add: violation_reported)

section \<open>Defaults\<close>

text \<open>Setting an absent field leaves every present value that is not an object on the way, and keeps what is blocked blocked.\<close>

lemma get_set_keeps_leaf:
  "get_segments ss m = Some v \<Longrightarrow> \<forall>es. v \<noteq> JObject es \<Longrightarrow> get_segments ts m = None \<Longrightarrow>
     get_segments ss (set_segments ts w m) = Some v"
proof (induction ts w m arbitrary: ss rule: set_segments.induct)
  case (2 t w m)
  then obtain s ss' where ss: "ss = s # ss'" by (cases ss) auto
  with 2 have "s \<noteq> t" by (cases ss') (auto split: option.splits json.splits)
  then show ?case using 2 by (simp add: ss get_insert_other)
next
  case (3 t u ts w m)
  then obtain s ss' where ss: "ss = s # ss'" by (cases ss) auto
  show ?case
  proof (cases "s = t")
    case False
    then show ?thesis using 3 by (auto simp: ss get_insert_other split: option.splits json.splits)
  next
    case True
    then show ?thesis
      using 3 by (cases ss') (auto simp: ss jobj_simps split: option.splits json.splits)
  qed
qed simp

lemma get_set_keeps_presence:
  "get_segments ss m \<noteq> None \<Longrightarrow> get_segments ts m = None \<Longrightarrow> get_segments ss (set_segments ts w m) \<noteq> None"
proof (induction ts w m arbitrary: ss rule: set_segments.induct)
  case (2 t w m)
  then obtain s ss' where ss: "ss = s # ss'" by (cases ss) auto
  with 2 have "s \<noteq> t" by (cases ss') (auto split: option.splits json.splits)
  then show ?case using 2 by (simp add: ss get_insert_other)
next
  case (3 t u ts w m)
  then obtain s ss' where ss: "ss = s # ss'" by (cases ss) auto
  show ?case
  proof (cases "s = t")
    case False
    then show ?thesis using 3 by (auto simp: ss get_insert_other split: option.splits json.splits)
  next
    case True
    then show ?thesis
      using 3 by (cases ss') (auto simp: ss jobj_simps split: option.splits json.splits)
  qed
qed simp

lemma settable_set_other:
  "\<not> settable_segments ss m \<Longrightarrow> get_segments ts m = None \<Longrightarrow> \<not> settable_segments ss (set_segments ts w m)"
proof (induction ts w m arbitrary: ss rule: set_segments.induct)
  case (2 t w m)
  then show ?case by (cases ss rule: remdups_adj.cases) (auto simp: jobj_simps split: option.splits json.splits if_splits)
next
  case (3 t u ts w m)
  then show ?case
    by (cases ss rule: remdups_adj.cases) (auto simp: jobj_simps split: option.splits json.splits if_splits)
qed simp

lemmas dotpath_defs = get_by_dotpath_def set_by_dotpath_def settable_def

definition filled :: "jobj \<Rightarrow> string \<Rightarrow> bool" where
  "filled m path \<longleftrightarrow> get_by_dotpath m path \<noteq> None \<or> \<not> settable m path"

lemma filled_set: "filled m p \<Longrightarrow> get_by_dotpath m q = None \<Longrightarrow> filled (set_by_dotpath m q d) p"
  unfolding filled_def dotpath_defs using get_set_keeps_presence settable_set_other by blast

lemma set_fills: "filled (set_by_dotpath m p d) p" if "get_by_dotpath m p = None"
proof (cases "settable m p")
  case True
  then show ?thesis by (simp add: filled_def dotpath.get_put)
next
  case False
  then show ?thesis using that filled_set [of m p p d] by (simp add: filled_def)
qed

lemma apply_default_filled:
  "filled m p \<Longrightarrow> filled (apply_default schema m e) p"
  "fa_default (fd_attrs def) \<noteq> None \<Longrightarrow> \<not> is_derived schema path \<Longrightarrow> filled (apply_default schema m (path, def)) path"
  by (cases e; auto simp: apply_default_def filled_set set_fills split: option.split)
    (auto simp: apply_default_def set_fills filled_def [of m] split: option.split)

lemma apply_default_keeps:
  "get_by_dotpath m p = Some v \<Longrightarrow> \<forall>es. v \<noteq> JObject es \<Longrightarrow> get_by_dotpath (apply_default schema m e) p = Some v"
  by (cases e) (auto simp: apply_default_def dotpath_defs get_set_keeps_leaf split: option.split)

lemma defaults_keep:
  "get_by_dotpath m p = Some v \<Longrightarrow> \<forall>es. v \<noteq> JObject es \<Longrightarrow> get_by_dotpath (foldl (apply_default schema) m ds) p = Some v"
  by (induction ds arbitrary: m) (simp_all add: apply_default_keeps)

lemma defaults_filled: "filled m p \<Longrightarrow> filled (foldl (apply_default schema) m ds) p"
  by (induction ds arbitrary: m) (simp_all add: apply_default_filled)

lemma defaults_fill:
  "(path, def) \<in> set ds \<Longrightarrow> fa_default (fd_attrs def) \<noteq> None \<Longrightarrow> \<not> is_derived schema path \<Longrightarrow>
     filled (foldl (apply_default schema) m ds) path"
  by (induction ds arbitrary: m) (auto simp: apply_default_filled defaults_filled)

text \<open>A field independent of every field with a default keeps its value, whatever it is.\<close>

lemma apply_default_fill:
  "apply_default schema m (path, def) =
     (case fa_default (fd_attrs def) of
        Some d \<Rightarrow> if is_derived schema path then m else dotpath.fill m path d
      | None \<Rightarrow> m)"
  by (simp add: apply_default_def dotpath.fill_def split: option.split)

lemma defaults_frame:
  "\<forall>(path, def)\<in>set ds. fa_default (fd_attrs def) \<noteq> None \<longrightarrow> apart path p \<Longrightarrow>
     get_by_dotpath (foldl (apply_default schema) m ds) p = get_by_dotpath m p"
proof (induction ds arbitrary: m)
  case (Cons e ds)
  obtain path def where e: "e = (path, def)" by (cases e)
  have "get_by_dotpath (apply_default schema m e) p = get_by_dotpath m p"
    using Cons.prems by (auto simp: e apply_default_fill dotpath.get_fill_other split: option.split)
  then show ?case using Cons by simp
qed simp

section \<open>Validated values fit the payload index\<close>

text \<open>
  What a payload index of a kind can hold; \<open>fits\<close> looks at the leaves of lists. A null is not indexed.
  \<open>indexable\<close>: the integers of the value fit an \<open>i64\<close>, outside which the payload keeps a number as
  written, and no leaf is an object, which an enum field accepts (\<open>enum_accepts_object\<close>).
\<close>

lemma enum_accepts_object: "check_type env FEnum (JObject es) = Ok ()"
  by (simp add: check_type_def)

fun fits :: "value_env \<Rightarrow> payload_index_kind \<Rightarrow> json \<Rightarrow> bool" where
  "fits env k JNull = True"
| "fits env k (JArray vs) = (\<forall>v\<in>set vs. fits env k v)"
| "fits env k (JObject es) = False"
| "fits env k (JString s) = (k = KeywordIndex \<or> k = DatetimeIndex \<and> is_timestamp env s)"
| "fits env k (JInt i) = (k = IntegerIndex \<and> i < 2 ^ 63 \<or> k = FloatIndex)"
| "fits env k (JFloat f) = (k = FloatIndex)"
| "fits env k (JBool b) = (k = BoolIndex)"

fun indexable :: "value_env \<Rightarrow> json \<Rightarrow> bool" where
  "indexable env (JArray vs) = (\<forall>v\<in>set vs. indexable env v)"
| "indexable env (JInt i) = (i < 2 ^ 63)"
| "indexable env (JFloat f) = (case float_int env f of Some i \<Rightarrow> - (2 ^ 63) \<le> i \<and> i < 2 ^ 63 | None \<Rightarrow> True)"
| "indexable env (JObject es) = False"
| "indexable env _ = True"

text \<open>What is relied on of the date library: a date or timestamp it parses it can print as an RFC 3339 timestamp.\<close>

definition instants_printed :: "value_env \<Rightarrow> bool" where
  "instants_printed env \<longleftrightarrow>
     (\<forall>s. is_date env s \<or> is_timestamp env s \<longrightarrow> (\<exists>u. to_utc_text env s = Some u \<and> is_timestamp env u))"

definition scalar_type :: "field_def \<Rightarrow> bool" where
  "scalar_type def \<longleftrightarrow>
     fd_items def = None \<and> (\<exists>ty. fa_ty (fd_attrs def) = Some ty \<and> ty \<notin> {FList, FObject})"

definition scalar_or_list_type :: "field_def \<Rightarrow> bool" where
  "scalar_or_list_type def \<longleftrightarrow>
     scalar_type def \<or> fa_ty (fd_attrs def) = Some FList \<and> (\<exists>items. fd_items def = Some items \<and> scalar_type items)"

lemma scalar_fits:
  assumes "kd_accepts (kind ty) env v" "\<not> is_container_value v" "instants_printed env" "indexable env v" "ty \<notin> {FList, FObject}"
  shows "fits env (kd_index (kind ty)) (payload_scalar env (kd_payload (kind ty)) v)"
  using assms
  by (cases ty; cases v) (auto simp: payload_scalar_def instants_printed_def split: option.split option.splits)

lemma enum_elements:
  assumes "fa_ty (fd_attrs def) = Some FEnum" "\<not> is_container_value v"
  shows "fits env KeywordIndex (payload_value env v (Some def))"
  using assms by (cases v) (simp_all add: payload_value.simps payload_scalar_def)

lemma scalar_type_fits:
  assumes "scalar_type def" "fa_ty (fd_attrs def) = Some ty" "kd_accepts (kind ty) env v"
    and "instants_printed env" "indexable env v"
  shows "fits env (kd_index (kind ty)) (payload_value env v (Some def))"
proof (cases "is_container_value v")
  case False
  then show ?thesis
    using assms scalar_fits [of ty env v]
    by (cases v) (simp_all add: scalar_type_def payload_value.simps)
next
  case True
  have ty: "ty \<notin> {FList, FObject}" "fd_items def = None" using assms by (auto simp: scalar_type_def)
  have enum: "ty = FEnum" using True ty(1) assms(3,5) by (cases ty; cases v) simp_all
  then have vs: "\<exists>vs. v = JArray vs \<and> (\<forall>x\<in>set vs. \<not> is_container_value x)"
    using True assms(3,5) by (cases v) simp_all
  have "element_node (Some def) = Some def"
    using ty assms(2) enum by (simp add: element_node_def)
  with vs enum show ?thesis
    using enum_elements [OF assms(2) [unfolded enum]] by (auto simp: payload_value.simps [of env "JArray _"])
qed

lemma validated_value_fits:
  assumes "check_value env path def v = []" "scalar_or_list_type def" "instants_printed env" "indexable env v"
  shows "fits env (index_kind_of def) (payload_value env v (Some def))"
proof -
  obtain a its chs where def: "def = FieldDef a its chs" by (cases def)
  have ok: "type_result env def v = Ok ()"
    using assms(1) checks_not_Panic(3) [of env def v]
    by (cases "type_result env def v") (auto simp: check_value.simps [of env path])
  show ?thesis
  proof (cases "scalar_type def")
    case True
    then obtain ty where ty: "fa_ty (fd_attrs def) = Some ty" "ty \<notin> {FList, FObject}" by (auto simp: scalar_type_def)
    then have "index_kind_of def = kd_index (kind ty)"
      by (auto simp: index_kind_of_def index_kind_def split: option.split field_type.split)
    then show ?thesis using scalar_type_fits [OF True ty(1)] ok ty assms by (simp add: type_result_Ok)
  next
    case False
    then obtain items where items: "fa_ty (fd_attrs def) = Some FList" "fd_items def = Some items" "scalar_type items"
      using assms(2) by (auto simp: scalar_or_list_type_def)
    then obtain ty where ty: "fa_ty (fd_attrs items) = Some ty" by (auto simp: scalar_type_def)
    obtain vs where v: "v = JArray vs" using ok items by (cases v) (simp_all add: type_result_Ok)
    have "fits env (kd_index (kind ty)) (payload_value env x (Some items))" if x: "x \<in> set vs" for x
    proof -
      obtain i where i: "i < length vs" "vs ! i = x" using x by (auto simp: in_set_conv_nth)
      have "set (check_value env (element_path path i) items (vs ! i)) \<subseteq> set (check_value env path def v)"
        using ok items i v by (intro subsetI iffD2 [OF check_value_errors]) blast
      then have "check_value env (element_path path i) items x = []" using assms(1) i by simp
      then have "type_result env items x = Ok ()"
        using checks_not_Panic(3) [of env items x]
        by (cases "type_result env items x") (auto simp: check_value.simps [of env "element_path path i"])
      then show ?thesis
        using scalar_type_fits [OF items(3) ty] ty assms(3,4) x by (simp add: type_result_Ok v)
    qed
    moreover have "index_kind_of def = kd_index (kind ty)"
      using items ty by (simp add: index_kind_of_def index_kind_def)
    ultimately show ?thesis using items by (simp add: v payload_value.simps [of env "JArray _"] element_node_def)
  qed
qed

section \<open>The broken-link report\<close>

definition report_pairs :: "broken_links_by_source list \<Rightarrow> (string \<times> string) list" where
  "report_pairs gs = concat (map (\<lambda>g. map (Pair (bl_source g)) (bl_targets g)) gs)"

text \<open>Grouping loses no pair and keeps the order; neighbouring groups are of different documents.\<close>

lemma push_broken_pairs: "report_pairs (push_broken gs pair) = report_pairs gs @ [pair]"
proof (cases gs rule: rev_cases)
  case Nil
  then show ?thesis by (cases pair) (simp add: push_broken_def report_pairs_def)
next
  case (snoc hs g)
  then show ?thesis by (cases pair) (auto simp: push_broken_def report_pairs_def)
qed

lemma foldl_push_broken_pairs: "report_pairs (foldl push_broken gs pairs) = report_pairs gs @ pairs"
  by (induction pairs arbitrary: gs) (simp_all add: push_broken_pairs)

lemma broken_links_report_pairs:
  "let report = broken_links_report_limited target_is_present pairs limit;
       live = filter (\<lambda>(_, target). \<not> target_is_present target) pairs
   in report_pairs (br_by_source report) = take limit live \<and> br_total report = length live
      \<and> (br_truncated report \<longleftrightarrow> take limit live \<noteq> live)"
  using foldl_push_broken_pairs [of "[]"]
  by (auto simp: broken_links_report_limited_def Let_def report_pairs_def take_all_iff)

section \<open>Properties\<close>


text \<open>
  C37. Defaults fill and never override. Applying the defaults of a schema keeps every value an author
  wrote (an object keeps its values, it may gain keys); afterwards every field with a default that is
  not derived from the document's location is present, unless a value that is not an object stands in
  its way; and a field on no path of a default is untouched.
\<close>

theorem defaults_fill_and_never_override:
  "let after = apply_defaults fm schema; flat = rs_flat (sc_fields schema) in
     (\<forall>p v. get_by_dotpath fm p = Some v \<and> (\<forall>es. v \<noteq> JObject es) \<longrightarrow> get_by_dotpath after p = Some v)
     \<and> (\<forall>path def. (path, def) \<in> set flat \<and> fa_default (fd_attrs def) \<noteq> None \<and> \<not> is_derived schema path \<longrightarrow>
          get_by_dotpath after path \<noteq> None \<or> \<not> settable after path)
     \<and> (\<forall>q. (\<forall>(path, def)\<in>set flat. fa_default (fd_attrs def) \<noteq> None \<longrightarrow> apart path q) \<longrightarrow>
          get_by_dotpath after q = get_by_dotpath fm q)"
  unfolding Let_def apply_defaults_def
proof (intro conjI allI impI; (elim conjE)?)
  fix p v
  assume "get_by_dotpath fm p = Some v" "\<forall>es. v \<noteq> JObject es"
  then show "get_by_dotpath (foldl (apply_default schema) fm (rs_flat (sc_fields schema))) p = Some v"
    by (rule defaults_keep)
next
  fix path def
  assume "(path, def) \<in> set (rs_flat (sc_fields schema))" "fa_default (fd_attrs def) \<noteq> None" "\<not> is_derived schema path"
  then show "get_by_dotpath (foldl (apply_default schema) fm (rs_flat (sc_fields schema))) path \<noteq> None
      \<or> \<not> settable (foldl (apply_default schema) fm (rs_flat (sc_fields schema))) path"
    by (rule defaults_fill [unfolded filled_def])
next
  fix q
  assume "\<forall>(path, def)\<in>set (rs_flat (sc_fields schema)). fa_default (fd_attrs def) \<noteq> None \<longrightarrow> apart path q"
  then show "get_by_dotpath (foldl (apply_default schema) fm (rs_flat (sc_fields schema))) q = get_by_dotpath fm q"
    by (rule defaults_frame)
qed

definition demo_schema :: resolved_schema where
  "demo_schema =
     empty_schema\<lparr>sc_fields := from_tree
       [(''prep'', FieldDef (implicit_attrs\<lparr>fa_ty := Some FInteger, fa_default := Some (JInt 5), fa_declared_in := Some ''/''\<rparr>) None []),
        (''tags'', FieldDef (implicit_attrs\<lparr>fa_ty := Some FList, fa_declared_in := Some ''/''\<rparr>)
           (Some (FieldDef (implicit_attrs\<lparr>fa_ty := Some FEnum, fa_values := Some [''a'', ''7'']\<rparr>) None [])) [])]\<rparr>"

definition demo_fm :: jobj where
  "demo_fm = [(''tags'', JArray [JString ''a'', JInt 7]), (''title'', JString ''t'')]"

lemma defaults_fill_and_never_override_witness:
  "get_by_dotpath (apply_defaults demo_fm demo_schema) ''title'' = Some (JString ''t'')"
proof -
  have "get_by_dotpath demo_fm ''title'' = Some (JString ''t'')" by code_simp
  then show ?thesis using defaults_fill_and_never_override [of demo_fm demo_schema] unfolding Let_def by blast
qed


lemma demo_instants_printed: "instants_printed demo_env"
  by (auto simp: instants_printed_def demo_env_def)


end
