(* ===== verification/GitText.thy ===== *)
theory GitText
  imports Headings
begin

text \<open>
  The text side of \<open>src/src/git.rs\<close>: what is parsed from the output of git, and what is written into its
  arguments: URLs with credentials and their redaction, the lists of changed paths, modification times,
  commit records with their provenance trailers, and the packing of path arguments. Of \<open>write.rs\<close>, the
  commit message the trailers are read back from. Output of git is taken to be valid UTF-8.
\<close>

section \<open>Scanning\<close>

definition nul :: char where
  "nul = CHR 0x00"

definition strip_prefix :: "string \<Rightarrow> string \<Rightarrow> string option" where
  "strip_prefix p s = (if starts_with s p then Some (drop (length p) s) else None)"

lemma strip_prefix_append [simp]: "strip_prefix p (p @ s) = Some s"
  by (simp add: strip_prefix_def starts_with_iff)

lemma strip_prefix_Some: "strip_prefix p s = Some r \<longleftrightarrow> s = p @ r"
  by (auto simp: strip_prefix_def starts_with_iff)

fun find_sub :: "string \<Rightarrow> string \<Rightarrow> nat option" where
  "find_sub p [] = (if p = [] then Some 0 else None)"
| "find_sub p (b # bs) = (if starts_with (b # bs) p then Some 0 else map_option Suc (find_sub p bs))"

lemma find_sub_bound: "find_sub p s = Some i \<Longrightarrow> i + length p \<le> length s"
proof (induction s arbitrary: i)
  case (Cons b bs)
  show ?case
  proof (cases "starts_with (b # bs) p")
    case True
    then obtain r where "b # bs = p @ r" by (auto simp: starts_with_iff)
    then have "length (b # bs) = length p + length r" by (metis length_append)
    then show ?thesis using Cons.prems True by auto
  qed (use Cons in auto)
qed (auto split: if_splits)

lemma find_sub_shorter:
  "find_sub p s = Some i \<Longrightarrow> p \<noteq> [] \<Longrightarrow> length s - (i + length p) < length s"
  using find_sub_bound [of p s i] by (cases p) auto

lemma find_sub_at: "find_sub p s = Some i \<Longrightarrow> s = take i s @ p @ drop (i + length p) s"
  by (induction s arbitrary: i) (auto split: if_splits simp: starts_with_iff)

text \<open>\<open>str::parse::<i64>\<close>.\<close>

definition is_digit :: "char \<Rightarrow> bool" where
  "is_digit c \<longleftrightarrow> 48 \<le> (of_char c :: nat) \<and> (of_char c :: nat) \<le> 57"

definition parse_digits :: "string \<Rightarrow> nat option" where
  "parse_digits s = (if s \<noteq> [] \<and> list_all is_digit s then Some (dec_value s) else None)"

definition parse_i64 :: "string \<Rightarrow> int option" where
  "parse_i64 s =
     (let signed = (case s of
          [] \<Rightarrow> None
        | c # rest \<Rightarrow>
            if c = CHR ''-'' then map_option (\<lambda>n. - int n) (parse_digits rest)
            else if c = CHR ''+'' then map_option int (parse_digits rest)
            else map_option int (parse_digits s))
      in case signed of
           Some i \<Rightarrow> if - (2 ^ 63) \<le> i \<and> i < 2 ^ 63 then Some i else None
         | None \<Rightarrow> None)"

section \<open>URLs\<close>

definition inject_token_into_url :: "string \<Rightarrow> string \<Rightarrow> string" where
  "inject_token_into_url url token =
     (case strip_prefix ''https://'' url of
        Some rest \<Rightarrow> ''https://'' @ token @ ''@'' @ rest
      | None \<Rightarrow>
          (case strip_prefix ''http://'' url of
             Some rest \<Rightarrow> ''http://'' @ token @ ''@'' @ rest
           | None \<Rightarrow> url))"

definition authenticated_url :: "string \<Rightarrow> string option \<Rightarrow> string" where
  "authenticated_url url token =
     (case token of
        Some t \<Rightarrow> if t \<noteq> [] then inject_token_into_url url t else url
      | None \<Rightarrow> url)"

text \<open>
  One pass of \<open>redact_url\<close> for one scheme, over what is left of the text from \<open>search_from\<close> on. The
  scheme is a non-empty constant.
\<close>

function redact_scheme :: "string \<Rightarrow> string \<Rightarrow> string" where
  "redact_scheme scheme s =
     (if scheme = [] then s
      else case find_sub scheme s of
        None \<Rightarrow> s
      | Some start \<Rightarrow>
          let after_scheme = start + length scheme; rest = drop after_scheme s
          in (case find_sub ''@'' rest of
                Some at_pos \<Rightarrow>
                  if CHR ''/'' \<notin> set (take at_pos rest) \<and> take at_pos rest \<noteq> []
                  then take after_scheme s @ ''***'' @ redact_scheme scheme (drop at_pos rest)
                  else take after_scheme s @ redact_scheme scheme rest
              | None \<Rightarrow> take after_scheme s @ redact_scheme scheme rest))"
  by pat_completeness auto
termination
  by (relation "measure (\<lambda>(scheme, s). length s)") (auto dest: find_sub_shorter intro: le_less_trans [OF diff_le_self])

declare redact_scheme.simps [simp del]

definition redact_url :: "string \<Rightarrow> string" where
  "redact_url s = redact_scheme ''http://'' (redact_scheme ''https://'' s)"

definition ls_remote_lists_branch :: "string \<Rightarrow> string \<Rightarrow> bool" where
  "ls_remote_lists_branch stdout branch =
     (let branch = (case strip_prefix ''refs/heads/'' branch of Some b \<Rightarrow> b | None \<Rightarrow> branch);
          wanted = ''refs/heads/'' @ branch
      in list_ex (\<lambda>line. case split_once (CHR 0x09) line of
            Some (_, refname) \<Rightarrow> trim_end refname = wanted
          | None \<Rightarrow> False) (str_lines stdout))"

definition is_non_fast_forward_rejection :: "string \<Rightarrow> bool" where
  "is_non_fast_forward_rejection stderr \<longleftrightarrow>
     contains stderr ''! [rejected]'' \<and> (contains stderr ''fetch first'' \<or> contains stderr ''non-fast-forward'')"

section \<open>Changed paths\<close>

text \<open>\<open>fields\<close> is what is left of the token stream.\<close>

fun diff_fields :: "string list \<Rightarrow> string list" where
  "diff_fields [] = []"
| "diff_fields (status # rest) =
     (if starts_with status ''A'' \<or> starts_with status ''M'' \<or> starts_with status ''D''
      then (case rest of [] \<Rightarrow> [] | path # rest \<Rightarrow> path # diff_fields rest)
      else if starts_with status ''R'' \<or> starts_with status ''C''
      then (case rest of
              old # new # rest \<Rightarrow> old # new # diff_fields rest
            | _ \<Rightarrow> [])
      else diff_fields rest)"

definition parse_diff_name_status :: "string \<Rightarrow> string list" where
  "parse_diff_name_status output = diff_fields (filter (\<lambda>s. s \<noteq> []) (split_on nul output))"

datatype net_change_kind = Added | Modified | Deleted | Renamed

record net_change =
  nc_kind :: net_change_kind
  nc_path :: string
  nc_old_path :: "string option"

fun net_fields :: "string list \<Rightarrow> net_change list" where
  "net_fields [] = []"
| "net_fields (status # rest) =
     (if status = [] then net_fields rest
      else if hd status = CHR ''R'' \<or> hd status = CHR ''C''
      then (case rest of
              old # new # rest' \<Rightarrow>
                (if hd status = CHR ''R'' then \<lparr>nc_kind = Renamed, nc_path = new, nc_old_path = Some old\<rparr>
                 else \<lparr>nc_kind = Added, nc_path = new, nc_old_path = None\<rparr>) # net_fields rest'
            | _ \<Rightarrow> [])
      else if hd status \<in> {CHR ''A'', CHR ''M'', CHR ''D'', CHR ''T''}
      then (case rest of
              path # rest' \<Rightarrow>
                \<lparr>nc_kind = (if hd status = CHR ''A'' then Added else if hd status = CHR ''D'' then Deleted else Modified),
                 nc_path = path, nc_old_path = None\<rparr> # net_fields rest'
            | [] \<Rightarrow> [])
      else (case rest of [] \<Rightarrow> [] | _ # rest' \<Rightarrow> net_fields rest'))"

definition parse_net_changes :: "string \<Rightarrow> net_change list" where
  "parse_net_changes raw = net_fields (split_on nul raw)"

section \<open>Modification times\<close>

definition or_insert :: "string \<Rightarrow> 'a \<Rightarrow> (string \<times> 'a) list \<Rightarrow> (string \<times> 'a) list" where
  "or_insert k v m = (if map_of m k = None then m @ [(k, v)] else m)"

definition mtime_token :: "int option \<times> (string \<times> int) list \<Rightarrow> string \<Rightarrow> int option \<times> (string \<times> int) list" where
  "mtime_token st token =
     (case st of (current_ts, m) \<Rightarrow>
        let token = (case strip_prefix [newline] token of Some t \<Rightarrow> t | None \<Rightarrow> token)
        in if token = [] then (current_ts, m)
           else if 2 \<le> length token \<and> hd token = CHR 0x02 \<and> last token = CHR 0x03
           then (parse_i64 (butlast (tl token)), m)
           else (case current_ts of Some ts \<Rightarrow> (current_ts, or_insert token ts m) | None \<Rightarrow> (current_ts, m)))"

definition parse_git_log_mtimes :: "string \<Rightarrow> (string \<times> int) list" where
  "parse_git_log_mtimes raw = snd (foldl mtime_token (None, []) (split_on nul raw))"

definition GIT_LOG_MTIMES_ARG_BUDGET_BYTES :: nat where
  "GIT_LOG_MTIMES_ARG_BUDGET_BYTES = 100000"

definition path_cost :: "string \<Rightarrow> nat" where
  "path_cost p = length p + 1"

text \<open>The loop keeps the chunk it is filling, \<open>paths[start..i]\<close>, and its cost \<open>used\<close>.\<close>

fun chunk_loop :: "string list \<Rightarrow> nat \<Rightarrow> string list \<Rightarrow> string list list" where
  "chunk_loop current used [] = (if current \<noteq> [] then [current] else [])"
| "chunk_loop current used (p # ps) =
     (if current \<noteq> [] \<and> GIT_LOG_MTIMES_ARG_BUDGET_BYTES < used + path_cost p
      then current # chunk_loop [p] (path_cost p) ps
      else chunk_loop (current @ [p]) (used + path_cost p) ps)"

definition chunk_paths_by_byte_budget :: "string list \<Rightarrow> string list list" where
  "chunk_paths_by_byte_budget paths = chunk_loop [] 0 paths"

section \<open>Commits\<close>

definition build_commit_message :: "string option \<Rightarrow> string \<Rightarrow> string \<Rightarrow> string" where
  "build_commit_message user_subject default_subject operation =
     (case user_subject of Some s \<Rightarrow> s | None \<Rightarrow> default_subject)
       @ [newline, newline] @ ''Tool: mcp-md-wiki'' @ [newline] @ ''Operation: '' @ operation"

fun trailer_line :: "string option \<times> string option \<Rightarrow> string \<Rightarrow> string option \<times> string option" where
  "trailer_line (tool, operation) line =
     (if tool = None \<and> starts_with line ''Tool: '' then (Some (trim (drop 6 line)), operation)
      else if operation = None \<and> starts_with line ''Operation: '' then (tool, Some (trim (drop 11 line)))
      else (tool, operation))"

definition parse_provenance_trailers :: "string \<Rightarrow> string option \<times> string option" where
  "parse_provenance_trailers body = foldl trailer_line (None, None) (str_lines body)"

record commit_info =
  ci_sha :: string
  ci_author_name :: string
  ci_author_email :: string
  ci_timestamp :: int
  ci_subject :: string
  ci_tool :: "string option"
  ci_operation :: "string option"

definition is_tool_authored :: "commit_info \<Rightarrow> bool" where
  "is_tool_authored c \<longleftrightarrow> ci_tool c \<noteq> None \<and> ci_operation c \<noteq> None"

text \<open>\<open>str::splitn\<close>: at most \<open>n\<close> pieces, the last one unsplit.\<close>

fun splitn :: "nat \<Rightarrow> char \<Rightarrow> string \<Rightarrow> string list" where
  "splitn 0 c s = []"
| "splitn (Suc 0) c s = [s]"
| "splitn (Suc (Suc n)) c s =
     (case split_once c s of Some (l, r) \<Rightarrow> l # splitn (Suc n) c r | None \<Rightarrow> [s])"

definition unit_separator :: char where
  "unit_separator = CHR 0x1F"

definition commit_record :: "string \<Rightarrow> commit_info option" where
  "commit_record record =
     (case splitn 5 unit_separator record of
        [sha, author_name, author_email, ts_str, body] \<Rightarrow>
          (case parse_i64 ts_str of
             Some timestamp \<Rightarrow>
               (case parse_provenance_trailers body of (tool, operation) \<Rightarrow>
                  Some \<lparr>ci_sha = sha, ci_author_name = author_name, ci_author_email = author_email,
                    ci_timestamp = timestamp,
                    ci_subject = (case str_lines body of l # _ \<Rightarrow> l | [] \<Rightarrow> []),
                    ci_tool = tool, ci_operation = operation\<rparr>)
           | None \<Rightarrow> None)
      | _ \<Rightarrow> None)"

definition parse_commit_log :: "string \<Rightarrow> commit_info list" where
  "parse_commit_log raw = List.map_filter commit_record (filter (\<lambda>r. r \<noteq> []) (split_on nul raw))"

definition limit_commits :: "nat \<Rightarrow> string \<Rightarrow> commit_info list \<times> bool" where
  "limit_commits limit raw =
     (let commits = parse_commit_log raw in (take limit commits, limit < length commits))"

definition MAX_COMMIT_MESSAGE_LEN :: nat where
  "MAX_COMMIT_MESSAGE_LEN = 1000"

definition validate_commit_message :: "string option \<Rightarrow> (string, unit) outcome" where
  "validate_commit_message message =
     (case message of
        None \<Rightarrow> Ok ()
      | Some msg \<Rightarrow>
          if newline \<in> set msg then Err ''commit message must not contain newlines''
          else if MAX_COMMIT_MESSAGE_LEN < length msg
          then Err (''commit message too long ('' @ dec (length msg) @ '' chars); maximum is '' @ dec MAX_COMMIT_MESSAGE_LEN)
          else Ok ())"

section \<open>Redaction\<close>

lemma find_sub_char:
  "c \<notin> set xs \<Longrightarrow> find_sub [c] (xs @ c # ys) = Some (length xs)"
  by (induction xs) auto

lemma find_sub_first: "find_sub [c] xs = Some k \<Longrightarrow> c \<notin> set (take k xs)"
  by (induction xs arbitrary: k) (auto split: if_splits)

lemma find_sub_char_None: "find_sub [c] xs = None \<longleftrightarrow> c \<notin> set xs"
  by (induction xs) auto

lemma starts_with_append_right: "starts_with s p \<Longrightarrow> starts_with (s @ t) p"
  by (auto simp: starts_with_iff)

text \<open>A marker whose first character occurs in it only once is found at its first occurrence, across any boundary.\<close>

lemma starts_with_boundary:
  assumes "m \<notin> set ms" "xs \<noteq> []" "starts_with (xs @ (m # ms) @ t) (m # ms)"
  shows "starts_with xs (m # ms)"
proof -
  obtain r where r: "xs @ (m # ms) @ t = (m # ms) @ r" using assms(3) by (auto simp: starts_with_iff)
  have "length (m # ms) \<le> length xs"
  proof (rule ccontr)
    assume short: "\<not> ?thesis"
    have "(xs @ (m # ms) @ t) ! length xs = m" by simp
    moreover have "((m # ms) @ r) ! length xs = ms ! (length xs - 1)"
      using short assms(2) by (cases xs) (simp_all add: nth_append)
    ultimately have "m = ms ! (length xs - 1)" by (simp only: r)
    moreover have "length xs - 1 < length ms" using assms(2) short by (cases xs) auto
    ultimately have "m \<in> set ms" by simp
    then show False using assms(1) by simp
  qed
  then have "xs = (m # ms) @ drop (length (m # ms)) xs"
    using arg_cong [OF r, of "take (length (m # ms))"] by (metis append_eq_append_conv_if append_take_drop_id r take_all_iff)
  then show ?thesis by (auto simp: starts_with_iff)
qed

lemma find_sub_marker:
  assumes "m \<notin> set ms"
  shows "find_sub (m # ms) (xs @ (m # ms) @ t)
    = Some (case find_sub (m # ms) xs of Some i \<Rightarrow> i | None \<Rightarrow> length xs)"
proof (induction xs)
  case Nil
  have "starts_with ((m # ms) @ t) (m # ms)" by (simp add: starts_with_iff del: append_Cons)
  then show ?case by simp
next
  case (Cons x xs)
  have "starts_with ((x # xs) @ (m # ms) @ t) (m # ms) \<longleftrightarrow> starts_with (x # xs) (m # ms)"
    using starts_with_boundary [OF assms, of "x # xs" t] starts_with_append_right [of "x # xs" "m # ms"] by blast
  then show ?case using Cons by (simp split: option.split)
qed

lemma redact_step:
  assumes "scheme \<noteq> []" "find_sub scheme s = Some (length a)" "s = a @ scheme @ rest"
  shows "redact_scheme scheme s =
    (case find_sub ''@'' rest of
       Some k \<Rightarrow>
         if CHR ''/'' \<notin> set (take k rest) \<and> take k rest \<noteq> []
         then a @ scheme @ ''***'' @ redact_scheme scheme (drop k rest)
         else a @ scheme @ redact_scheme scheme rest
     | None \<Rightarrow> a @ scheme @ redact_scheme scheme rest)"
proof -
  have cut: "take (length a + length scheme) s = a @ scheme" "drop (length a + length scheme) s = rest"
    using assms(3) by simp_all
  show ?thesis
    by (subst redact_scheme.simps) (simp add: assms(1,2) Let_def cut split: option.split)
qed

text \<open>One pass hides what stands between its scheme and the next \<open>@\<close>, whatever text surrounds it.\<close>

lemma redact_scheme_hides:
  assumes "scheme = m # ms" "m \<notin> set ms" "CHR ''@'' \<notin> set scheme" "CHR ''/'' \<in> set scheme"
    and tok: "tok \<noteq> []" "CHR ''/'' \<notin> set tok" "CHR ''@'' \<notin> set tok"
    and tok': "tok' \<noteq> []" "CHR ''/'' \<notin> set tok'" "CHR ''@'' \<notin> set tok'"
  shows "redact_scheme scheme (pre @ scheme @ tok @ ''@'' @ post) = redact_scheme scheme (pre @ scheme @ tok' @ ''@'' @ post)"
proof (induction "length pre" arbitrary: pre rule: less_induct)
  case less
  have found: "find_sub scheme (pre @ scheme @ u @ ''@'' @ post)
      = Some (case find_sub scheme pre of Some i \<Rightarrow> i | None \<Rightarrow> length pre)" for u
    unfolding assms(1) by (rule find_sub_marker [OF assms(2)])
  have ne: "scheme \<noteq> []" using assms(1) by simp
  show ?case
  proof (cases "find_sub scheme pre")
    case None
    have "redact_scheme scheme (pre @ scheme @ u @ ''@'' @ post)
        = pre @ scheme @ ''***'' @ redact_scheme scheme (''@'' @ post)"
      if u: "u \<noteq> []" "CHR ''/'' \<notin> set u" "CHR ''@'' \<notin> set u" for u
    proof -
      have "find_sub ''@'' (u @ ''@'' @ post) = Some (length u)" using find_sub_char [OF u(3)] by simp
      then show ?thesis
        using redact_step [OF ne, of "pre @ scheme @ u @ ''@'' @ post" pre] found [of u] None u by simp
    qed
    then show ?thesis using tok tok' by simp
  next
    case (Some i)
    define a where "a = take i pre"
    define b where "b = drop (i + length scheme) pre"
    have pre: "pre = a @ scheme @ b" "length a = i"
      using find_sub_at [OF Some] find_sub_bound [OF Some] by (simp_all add: a_def b_def)
    have step: "redact_scheme scheme (pre @ scheme @ u @ ''@'' @ post)
        = (case find_sub ''@'' b of
             Some k \<Rightarrow>
               if CHR ''/'' \<notin> set (take k b) \<and> take k b \<noteq> []
               then a @ scheme @ ''***'' @ redact_scheme scheme (drop k b @ scheme @ u @ ''@'' @ post)
               else a @ scheme @ redact_scheme scheme (b @ scheme @ u @ ''@'' @ post)
           | None \<Rightarrow> a @ scheme @ redact_scheme scheme (b @ scheme @ u @ ''@'' @ post))"
      if u: "CHR ''@'' \<notin> set u" for u
    proof -
      let ?rest = "b @ scheme @ u @ ''@'' @ post"
      have whole: "redact_scheme scheme (pre @ scheme @ u @ ''@'' @ post)
          = (case find_sub ''@'' ?rest of
               Some k \<Rightarrow>
                 if CHR ''/'' \<notin> set (take k ?rest) \<and> take k ?rest \<noteq> []
                 then a @ scheme @ ''***'' @ redact_scheme scheme (drop k ?rest)
                 else a @ scheme @ redact_scheme scheme ?rest
             | None \<Rightarrow> a @ scheme @ redact_scheme scheme ?rest)"
      proof (rule redact_step [OF ne])
        show "find_sub scheme (pre @ scheme @ u @ ''@'' @ post) = Some (length a)" using found [of u] Some pre(2) by simp
        show "pre @ scheme @ u @ ''@'' @ post = a @ scheme @ ?rest" by (simp only: pre(1) append_assoc)
      qed
      show ?thesis
      proof (cases "find_sub ''@'' b")
        case None
        then have "CHR ''@'' \<notin> set (b @ scheme @ u)" using u assms(3) by (simp add: find_sub_char_None)
        then have "find_sub ''@'' ((b @ scheme @ u) @ CHR ''@'' # post) = Some (length (b @ scheme @ u))"
          by (rule find_sub_char)
        then show ?thesis unfolding whole using None assms(4) by simp
      next
        case (Some k)
        have k: "b = take k b @ ''@'' @ drop (k + 1) b" "k < length b" "CHR ''@'' \<notin> set (take k b)"
          using find_sub_at [OF Some] find_sub_bound [OF Some] Some
          by (simp_all add: find_sub_first)
        have "find_sub ''@'' (take k b @ CHR ''@'' # (drop (k + 1) b @ scheme @ u @ ''@'' @ post)) = Some (length (take k b))"
          by (rule find_sub_char [OF k(3)])
        moreover have "?rest = take k b @ CHR ''@'' # (drop (k + 1) b @ scheme @ u @ ''@'' @ post)"
          by (subst k(1)) simp
        ultimately have "find_sub ''@'' ?rest = Some (length (take k b))" by (simp only:)
        then have "find_sub ''@'' ?rest = Some k" using k(2) by simp
        then show ?thesis unfolding whole using Some k(2) by simp
      qed
    qed
    have shorter: "length b < length pre" "\<And>k. length (drop k b) < length pre"
      using pre ne by (auto simp: less_Suc_eq_le intro: le_less_trans [OF diff_le_self])
    show ?thesis
      unfolding step [OF tok(3)] step [OF tok'(3)] using less [OF shorter(1)] less [OF shorter(2)]
      by (simp split: option.split)
  qed
qed

section \<open>Path lists\<close>

text \<open>What \<open>git diff --name-status -z\<close> prints: a status token, then one path or, for renames and copies, two.\<close>

datatype diff_entry = OnePath string string | TwoPaths string string string

fun entry_fields :: "diff_entry \<Rightarrow> string list" where
  "entry_fields (OnePath status path) = [status, path]"
| "entry_fields (TwoPaths status old new) = [status, old, new]"

fun entry_paths :: "diff_entry \<Rightarrow> string list" where
  "entry_paths (OnePath status path) = [path]"
| "entry_paths (TwoPaths status old new) = [old, new]"

fun known_entry :: "diff_entry \<Rightarrow> bool" where
  "known_entry (OnePath status path) \<longleftrightarrow> status \<noteq> [] \<and> hd status \<in> {CHR ''A'', CHR ''M'', CHR ''D''}"
| "known_entry (TwoPaths status old new) \<longleftrightarrow> status \<noteq> [] \<and> hd status \<in> {CHR ''R'', CHR ''C''}"

definition printable_entry :: "diff_entry \<Rightarrow> bool" where
  "printable_entry e \<longleftrightarrow> (\<forall>f\<in>set (entry_fields e). f \<noteq> [] \<and> nul \<notin> set f)"

definition print_diff :: "diff_entry list \<Rightarrow> string" where
  "print_diff es = concat (map (\<lambda>f. f @ [nul]) (concat (map entry_fields es)))"

lemma split_on_terminated:
  "\<forall>f\<in>set fs. c \<notin> set f \<Longrightarrow> split_on c (concat (map (\<lambda>f. f @ [c]) fs)) = fs @ [[]]"
  by (induction fs) (simp_all add: split_on_append)

lemma diff_fields_entry: "known_entry e \<Longrightarrow> diff_fields (entry_fields e @ rest) = entry_paths e @ diff_fields rest"
  by (cases e) (auto simp: starts_with_iff neq_Nil_conv)

lemma diff_fields_entries:
  "\<forall>e\<in>set es. known_entry e \<Longrightarrow> diff_fields (concat (map entry_fields es)) = concat (map entry_paths es)"
  by (induction es) (simp_all add: diff_fields_entry)

lemma print_diff_fields:
  assumes "\<forall>e\<in>set es. printable_entry e"
  shows "filter (\<lambda>s. s \<noteq> []) (split_on nul (print_diff es)) = concat (map entry_fields es)"
proof -
  have "\<forall>f\<in>set (concat (map entry_fields es)). f \<noteq> [] \<and> nul \<notin> set f"
    using assms by (auto simp: printable_entry_def)
  then show ?thesis
    unfolding print_diff_def by (subst split_on_terminated) (auto intro: filter_True)
qed

text \<open>
  A type change (\<open>T\<close>, a file replaced by a symbolic link) is not a known status and its path is not
  consumed: when the path begins with a status letter, the next entry is lost.
\<close>

lemma type_change_desynchronises:
  "parse_diff_name_status (print_diff [OnePath ''T'' ''Docs/a.md'', OnePath ''M'' ''b.md'']) = [''M'']"
  by code_simp

section \<open>Packing path arguments\<close>

lemma concat_chunk_loop: "concat (chunk_loop current used ps) = current @ ps"
  by (induction current used ps rule: chunk_loop.induct) simp_all

lemma chunk_loop_fits:
  assumes "c \<in> set (chunk_loop current used ps)" "used = sum_list (map path_cost current)"
    and "current \<noteq> [] \<Longrightarrow> length current = 1 \<or> used \<le> GIT_LOG_MTIMES_ARG_BUDGET_BYTES"
  shows "c \<noteq> [] \<and> (length c = 1 \<or> sum_list (map path_cost c) \<le> GIT_LOG_MTIMES_ARG_BUDGET_BYTES)"
  using assms
proof (induction current used ps rule: chunk_loop.induct)
  case (1 current used)
  then show ?case by (auto split: if_splits)
next
  case (2 current used p ps)
  show ?case
  proof (cases "current \<noteq> [] \<and> GIT_LOG_MTIMES_ARG_BUDGET_BYTES < used + path_cost p")
    case True
    then have "c = current \<or> c \<in> set (chunk_loop [p] (path_cost p) ps)" using "2.prems"(1) by simp
    then show ?thesis
    proof
      assume "c = current"
      then show ?thesis using True "2.prems"(2,3) by simp
    next
      assume "c \<in> set (chunk_loop [p] (path_cost p) ps)"
      then show ?thesis by (rule "2.IH"(1) [OF True]) simp_all
    qed
  next
    case False
    show ?thesis
    proof (rule "2.IH"(2) [OF False])
      show "c \<in> set (chunk_loop (current @ [p]) (used + path_cost p) ps)" using "2.prems"(1) False by simp
      show "used + path_cost p = sum_list (map path_cost (current @ [p]))" using "2.prems"(2) by simp
      show "length (current @ [p]) = 1 \<or> used + path_cost p \<le> GIT_LOG_MTIMES_ARG_BUDGET_BYTES"
        using False by (cases current) auto
    qed
  qed
qed

section \<open>Provenance\<close>

lemma split_inclusive_line: "newline \<notin> set l \<Longrightarrow> split_inclusive (l @ newline # rest) = (l @ [newline]) # split_inclusive rest"
  by (induction l) auto

lemma split_inclusive_unterminated: "newline \<notin> set l \<Longrightarrow> l \<noteq> [] \<Longrightarrow> split_inclusive l = [l]"
proof (induction l)
  case (Cons a l)
  then show ?case by (cases "l = []") auto
qed simp

lemma str_lines_line:
  "newline \<notin> set l \<Longrightarrow> str_lines (l @ newline # rest) = strip_line (l @ [newline]) # str_lines rest"
  by (simp add: str_lines_def split_inclusive_line)

lemma str_lines_last:
  assumes "newline \<notin> set l" "l \<noteq> []"
  shows "str_lines l = [l]"
proof -
  have "last l \<noteq> newline" using assms by (metis last_in_set)
  then show ?thesis using assms by (simp add: str_lines_def split_inclusive_unterminated strip_line_def)
qed

lemma strip_line_plain:
  "strip_line (l @ [newline]) = (if l \<noteq> [] \<and> last l = CHR 0x0D then butlast l else l)"
  by (simp add: strip_line_def Let_def)

lemma starts_with_butlast: "\<not> starts_with l p \<Longrightarrow> \<not> starts_with (butlast l) p"
  by (cases l rule: rev_cases) (auto dest: starts_with_append_right)

text \<open>A message built for an operation is read back as written by the tool, whatever its subject is about.\<close>

lemma trailers_of_message:
  assumes "newline \<notin> set s" "\<not> starts_with s ''Tool: ''" "\<not> starts_with s ''Operation: ''"
    and "newline \<notin> set operation"
  shows "parse_provenance_trailers (s @ [newline, newline] @ ''Tool: mcp-md-wiki'' @ [newline] @ ''Operation: '' @ operation)
    = (Some ''mcp-md-wiki'', Some (trim operation))"
proof -
  have tool: "trim ''mcp-md-wiki'' = ''mcp-md-wiki''" by code_simp
  have ends: "strip_line [newline] = []" "strip_line (''Tool: mcp-md-wiki'' @ [newline]) = ''Tool: mcp-md-wiki''"
    by code_simp+
  have n: "newline \<notin> set ''Tool: mcp-md-wiki''" "newline \<notin> set (''Operation: '' @ operation)"
    using assms(4) by auto
  have first: "str_lines (s @ newline # newline # ''Tool: mcp-md-wiki'' @ newline # ''Operation: '' @ operation)
      = strip_line (s @ [newline]) # [] # ''Tool: mcp-md-wiki'' # [''Operation: '' @ operation]"
    using str_lines_line [OF assms(1)] str_lines_line [of "[]"] str_lines_line [OF n(1)] str_lines_last [OF n(2)]
    by (simp add: ends [simplified])
  have "\<not> starts_with (strip_line (s @ [newline])) ''Tool: ''" "\<not> starts_with (strip_line (s @ [newline])) ''Operation: ''"
    using assms(2,3) by (simp_all add: strip_line_plain starts_with_butlast)
  then have subject: "trailer_line (None, None) (strip_line (s @ [newline])) = (None, None)" by simp
  have blank: "trailer_line (None, None) [] = (None, None)" by simp
  have tool_line: "trailer_line (None, None) ''Tool: mcp-md-wiki'' = (Some ''mcp-md-wiki'', None)"
    by (simp add: tool)
  have op_line: "trailer_line (Some ''mcp-md-wiki'', None) (''Operation: '' @ operation)
      = (Some ''mcp-md-wiki'', Some (trim operation))"
    by (simp add: starts_with_iff)
  have message: "s @ [newline, newline] @ ''Tool: mcp-md-wiki'' @ [newline] @ ''Operation: '' @ operation
      = s @ newline # newline # ''Tool: mcp-md-wiki'' @ newline # ''Operation: '' @ operation"
    by simp
  show ?thesis
    unfolding parse_provenance_trailers_def message first foldl.simps subject blank tool_line op_line by (rule refl)
qed

text \<open>A caller's subject that looks like a trailer is taken for one.\<close>

lemma subject_forges_operation:
  "parse_provenance_trailers (build_commit_message (Some ''Operation: review'') ''docs: update a.md'' ''edit_document'')
     = (Some ''mcp-md-wiki'', Some ''review'')"
  by code_simp

lemma dec_not_Nil [simp]: "dec n \<noteq> []"
  by (subst dec.simps) simp

lemma dec_all_digits: "list_all is_digit (dec n)"
  using dec_digits by (simp add: list_all_iff is_digit_def)

lemma parse_i64_dec: "int n < 2 ^ 63 \<Longrightarrow> parse_i64 (dec n) = Some (int n)"
proof -
  assume n: "int n < 2 ^ 63"
  obtain c s where d: "dec n = c # s" by (cases "dec n") auto
  then have "is_digit c" using dec_all_digits [of n] by simp
  then have "c \<noteq> CHR ''-''" "c \<noteq> CHR ''+''" by (auto simp: is_digit_def)
  moreover have "parse_digits (c # s) = Some n" using dec_all_digits [of n] dec_value_dec [of n] by (simp add: parse_digits_def d)
  ultimately show ?thesis using n by (simp add: parse_i64_def d)
qed

definition print_commit :: "string \<Rightarrow> string \<Rightarrow> string \<Rightarrow> nat \<Rightarrow> string \<Rightarrow> string" where
  "print_commit sha name email ts message = join [unit_separator] [sha, name, email, dec ts, message]"

definition header_field :: "string \<Rightarrow> bool" where
  "header_field s \<longleftrightarrow> unit_separator \<notin> set s \<and> nul \<notin> set s"

lemma split_once_sep: "c \<notin> set s \<Longrightarrow> split_once c (s @ c # r) = Some (s, r)"
  by (simp add: split_once_def takeWhile_append2 dropWhile_append2) (auto simp: takeWhile_tail takeWhile_append)

lemma splitn_record:
  assumes "header_field sha" "header_field name" "header_field email"
  shows "splitn 5 unit_separator (print_commit sha name email ts message) = [sha, name, email, dec ts, message]"
proof -
  have "unit_separator \<notin> set (dec ts)"
    using dec_digits [of unit_separator ts] by (auto simp: unit_separator_def)
  then show ?thesis
    using assms by (simp add: eval_nat_numeral print_commit_def header_field_def split_once_sep)
qed

section \<open>Properties\<close>

text \<open>
  C7. Error texts do not depend on the credential. Wherever the authenticated URL of an HTTPS remote
  occurs in a text, the redacted text is the same for every token of the usual form (no \<open>/\<close> and no
  \<open>@\<close>), so it carries nothing of the token.
\<close>

theorem redaction_hides_token:
  assumes "tok \<noteq> []" "CHR ''/'' \<notin> set tok" "CHR ''@'' \<notin> set tok"
    and "tok' \<noteq> []" "CHR ''/'' \<notin> set tok'" "CHR ''@'' \<notin> set tok'"
  shows "redact_url (pre @ authenticated_url (''https://'' @ host) (Some tok) @ post)
    = redact_url (pre @ authenticated_url (''https://'' @ host) (Some tok') @ post)"
proof -
  have "redact_scheme ''https://'' (pre @ ''https://'' @ tok @ ''@'' @ host @ post)
      = redact_scheme ''https://'' (pre @ ''https://'' @ tok' @ ''@'' @ host @ post)"
    by (rule redact_scheme_hides [OF refl]) (use assms in simp_all)
  moreover have "authenticated_url (''https://'' @ host) (Some u) = ''https://'' @ u @ ''@'' @ host" if "u \<noteq> []" for u
    using that by (simp add: authenticated_url_def inject_token_into_url_def strip_prefix_def)
  ultimately show ?thesis using assms by (simp add: redact_url_def)
qed

lemma redaction_hides_token_witness:
  "redact_url (''fetch '' @ authenticated_url (''https://'' @ ''git.example/kb'') (Some ''ghp_secret'') @ '': timed out'')
     = ''fetch https://***@git.example/kb: timed out''"
proof -
  have "redact_url (''fetch '' @ authenticated_url (''https://'' @ ''git.example/kb'') (Some ''ghp_secret'') @ '': timed out'')
      = redact_url (''fetch '' @ authenticated_url (''https://'' @ ''git.example/kb'') (Some ''x'') @ '': timed out'')"
    by (rule redaction_hides_token) simp_all
  also have "\<dots> = ''fetch https://***@git.example/kb: timed out''" by code_simp
  finally show ?thesis .
qed

text \<open>A credential with an \<open>@\<close> of its own is hidden only up to it.\<close>

lemma redaction_stops_at_first_at:
  "redact_url (authenticated_url ''https://h/kb'' (Some ''u:p@ss'')) = ''https://***@ss@h/kb''"
  by code_simp



text \<open>
  Path arguments are packed without loss. The chunks handed to git, put together, are the given
  paths in order; none is empty, and each costs at most the argument budget unless it is one path.
\<close>

theorem path_chunks_partition:
  "concat (chunk_paths_by_byte_budget paths) = paths \<and>
   list_all (\<lambda>c. c \<noteq> [] \<and> (length c = 1 \<or> sum_list (map path_cost c) \<le> GIT_LOG_MTIMES_ARG_BUDGET_BYTES))
     (chunk_paths_by_byte_budget paths)"
  unfolding chunk_paths_by_byte_budget_def list_all_iff
  using chunk_loop_fits [of _ "[]" 0 paths] by (auto simp: concat_chunk_loop)



end
