(* ===== verification/GitSync.thy ===== *)
theory GitSync
  imports GitText
begin

text \<open>
  Committing and synchronising the clone, \<open>src/src/git.rs\<close>: \<open>commit_and_sync\<close>, \<open>sync_to_remote\<close>, the dropping
  and saving of commits, and the rollback commands. Git itself is a parameter: a function from the
  arguments of one run and the state of the clone to the result of the run and the state after it. So
  every way a run can end (success, a non-zero exit, a failure to start, a timeout) is covered.
\<close>

section \<open>Runs of git\<close>

datatype run_result = Exited "int option" string string | SpawnFailed string | TimedOut

text \<open>The cause of an error, in place of its formatted text.\<close>

datatype git_error =
    RunTimedOut string
  | RunNotSpawned string string
  | RunFailed string string
  | Message string
  | Within string git_error

datatype create_result = Created | CreateExists | CreateFailed string

record 'r world =
  w_git :: "(string \<times> string) option \<Rightarrow> string list \<Rightarrow> 'r \<Rightarrow> run_result \<times> 'r"
  w_is_repo :: "'r \<Rightarrow> bool"
  w_write :: "string \<Rightarrow> string \<Rightarrow> 'r \<Rightarrow> string option \<times> 'r"
  w_create :: "string \<Rightarrow> 'r \<Rightarrow> create_result \<times> 'r"
  w_remove :: "string \<Rightarrow> 'r \<Rightarrow> string option \<times> 'r"

record remote =
  rm_url :: "string option"
  rm_branch :: string
  rm_token :: "string option"
  rm_author :: "string \<times> string"

text \<open>Run one command; anything but a zero exit is an error, with the error output redacted.\<close>

definition git_ok ::
    "'r world \<Rightarrow> (string \<times> string) option \<Rightarrow> string list \<Rightarrow> 'r \<Rightarrow> (git_error + string) \<times> 'r" where
  "git_ok w author args r =
     (case w_git w author args r of
        (TimedOut, r) \<Rightarrow> (Inl (RunTimedOut (hd args)), r)
      | (SpawnFailed e, r) \<Rightarrow> (Inl (RunNotSpawned (hd args) e), r)
      | (Exited code out err, r) \<Rightarrow>
          if code = Some 0 then (Inr out, r) else (Inl (RunFailed (hd args) (redact_url err)), r))"

definition rev_parse_head :: "'r world \<Rightarrow> 'r \<Rightarrow> (git_error + string) \<times> 'r" where
  "rev_parse_head w r =
     (case git_ok w None [''rev-parse'', ''HEAD''] r of
        (Inr out, r) \<Rightarrow> (Inr (trim out), r)
      | (Inl c, r) \<Rightarrow> (Inl c, r))"

definition head_if_repo :: "'r world \<Rightarrow> 'r \<Rightarrow> string option \<times> 'r" where
  "head_if_repo w r =
     (if \<not> w_is_repo w r then (None, r)
      else case rev_parse_head w r of (Inr sha, r) \<Rightarrow> (Some sha, r) | (Inl _, r) \<Rightarrow> (None, r))"

definition git_diff_name_status :: "'r world \<Rightarrow> string \<Rightarrow> string \<Rightarrow> 'r \<Rightarrow> (git_error + string list) \<times> 'r" where
  "git_diff_name_status w old new r =
     (case git_ok w None [''diff'', ''--name-status'', ''-M'', ''-z'', old @ ''..'' @ new] r of
        (Inr out, r) \<Rightarrow> (Inr (parse_diff_name_status out), r)
      | (Inl c, r) \<Rightarrow> (Inl c, r))"

definition unmerged_paths :: "'r world \<Rightarrow> 'r \<Rightarrow> string \<times> 'r" where
  "unmerged_paths w r =
     (case git_ok w None [''diff'', ''--name-only'', ''--diff-filter=U''] r of
        (Inr out, r) \<Rightarrow> (trim out, r)
      | (Inl _, r) \<Rightarrow> ([], r))"

definition abort_rebase :: "'r world \<Rightarrow> 'r \<Rightarrow> 'r" where
  "abort_rebase w r = snd (git_ok w None [''rebase'', ''--abort''] r)"

section \<open>Dropping commits\<close>

definition backup_ref :: "string \<Rightarrow> string" where
  "backup_ref head = ''refs/mcp-md-wiki/unsynced/'' @ head"

definition unsynced_count :: "'r world \<Rightarrow> 'r \<Rightarrow> nat option \<times> 'r" where
  "unsynced_count w r =
     (case git_ok w None [''rev-list'', ''--count'', ''FETCH_HEAD..HEAD''] r of
        (Inr out, r) \<Rightarrow> (parse_digits (trim out), r)
      | (Inl _, r) \<Rightarrow> (None, r))"

definition reset_hard :: "'r world \<Rightarrow> string \<Rightarrow> 'r \<Rightarrow> (git_error + unit) \<times> 'r" where
  "reset_hard w target r =
     (case git_ok w None [''reset'', ''--hard'', target] r of
        (Inr _, r) \<Rightarrow> (Inr (), r)
      | (Inl c, r) \<Rightarrow> (Inl c, r))"

definition save_head :: "'r world \<Rightarrow> 'r \<Rightarrow> (git_error + unit) \<times> 'r" where
  "save_head w r =
     (case rev_parse_head w r of
        (Inl c, r) \<Rightarrow> (Inl c, r)
      | (Inr head, r) \<Rightarrow>
          (case git_ok w None [''update-ref'', backup_ref head, head] r of
             (Inl c, r) \<Rightarrow> (Inl c, r)
           | (Inr _, r) \<Rightarrow> (Inr (), r)))"

definition reset_to_fetch_head :: "'r world \<Rightarrow> 'r \<Rightarrow> (git_error + unit) \<times> 'r" where
  "reset_to_fetch_head w r =
     (case unsynced_count w r of (count, r) \<Rightarrow>
        case (if count \<noteq> Some 0 then save_head w r else (Inr (), r)) of
          (Inl c, r) \<Rightarrow> (Inl c, r)
        | (Inr _, r) \<Rightarrow> reset_hard w ''FETCH_HEAD'' r)"

definition drop_own_commit :: "'r world \<Rightarrow> string option \<Rightarrow> 'r \<Rightarrow> (git_error + unit) \<times> 'r" where
  "drop_own_commit w pre_commit_head r =
     (case pre_commit_head of
        Some sha \<Rightarrow> reset_hard w sha r
      | None \<Rightarrow> reset_to_fetch_head w r)"

section \<open>Bringing the clone up to date\<close>

datatype integrated = FastForwarded | Rebased | ResetToRemote | RebaseFailed git_error | ResetFailed git_error

definition integrate_fetch_head :: "'r world \<Rightarrow> remote \<Rightarrow> 'r \<Rightarrow> integrated \<times> 'r" where
  "integrate_fetch_head w rm r =
     (case git_ok w None [''merge'', ''--ff-only'', ''FETCH_HEAD''] r of
        (Inr _, r) \<Rightarrow> (FastForwarded, r)
      | (Inl _, r) \<Rightarrow>
          (case git_ok w (Some (rm_author rm)) [''rebase'', ''FETCH_HEAD''] r of
             (Inr _, r) \<Rightarrow> (Rebased, r)
           | (Inl rebase_err, r) \<Rightarrow>
               (case unmerged_paths w r of (conflicted, r) \<Rightarrow>
                  let r = abort_rebase w r
                  in if conflicted = [] then (RebaseFailed rebase_err, r)
                     else case reset_to_fetch_head w r of
                       (Inr _, r) \<Rightarrow> (ResetToRemote, r)
                     | (Inl e, r) \<Rightarrow> (ResetFailed e, r))))"

definition sync_to_remote :: "'r world \<Rightarrow> remote \<Rightarrow> 'r \<Rightarrow> 'r" where
  "sync_to_remote w rm r =
     (case rm_url rm of
        None \<Rightarrow> r
      | Some url \<Rightarrow>
          if \<not> w_is_repo w r then r
          else case git_ok w None [''fetch'', ''--no-tags'', authenticated_url url (rm_token rm), rm_branch rm] r of
            (Inl _, r) \<Rightarrow> r
          | (Inr _, r) \<Rightarrow> snd (integrate_fetch_head w rm r))"

section \<open>One commit and its way to the remote\<close>

record commit_outcome =
  co_sha :: string
  co_rebased_paths :: "string list"

datatype commit_sync_error = PreCommit git_error | PostCommit string git_error "string list" | Conflict git_error

text \<open>The remote disagrees with the commit: drop it; a commit that cannot be dropped stands.\<close>

definition conflicting ::
    "'r world \<Rightarrow> string option \<Rightarrow> string \<Rightarrow> git_error \<Rightarrow> string list \<Rightarrow> 'r \<Rightarrow> (commit_sync_error + commit_outcome) \<times> 'r" where
  "conflicting w pre_commit_head sha source rebased_paths r =
     (case drop_own_commit w pre_commit_head r of
        (Inl e, r) \<Rightarrow> (Inl (PostCommit sha (Within ''dropping the commit failed'' source) rebased_paths), r)
      | (Inr _, r) \<Rightarrow> (Inl (Conflict source), r))"

definition push_commit ::
    "'r world \<Rightarrow> remote \<Rightarrow> string \<Rightarrow> string option \<Rightarrow> string \<Rightarrow> string list \<Rightarrow> 'r
       \<Rightarrow> (commit_sync_error + commit_outcome) \<times> 'r" where
  "push_commit w rm auth_url pre_commit_head sha rebased_paths r =
     (case w_git w None [''push'', auth_url, ''HEAD:'' @ rm_branch rm] r of
        (TimedOut, r) \<Rightarrow> (Inl (PostCommit sha (RunTimedOut ''push'') rebased_paths), r)
      | (SpawnFailed e, r) \<Rightarrow> (Inl (PostCommit sha (RunNotSpawned ''push'' e) rebased_paths), r)
      | (Exited code out err, r) \<Rightarrow>
          if code = Some 0 then (Inr \<lparr>co_sha = sha, co_rebased_paths = rebased_paths\<rparr>, r)
          else if is_non_fast_forward_rejection (redact_url err)
          then conflicting w pre_commit_head sha (RunFailed ''push'' (redact_url err)) rebased_paths r
          else (Inl (PostCommit sha (RunFailed ''push'' (redact_url err)) rebased_paths), r))"

definition unknown_sha :: "string \<Rightarrow> string" where
  "unknown_sha op = ''<unknown: rev-parse HEAD failed immediately after a successful '' @ op @ ''>''"

definition after_rebase ::
    "'r world \<Rightarrow> remote \<Rightarrow> string \<Rightarrow> string option \<Rightarrow> string \<Rightarrow> 'r \<Rightarrow> (commit_sync_error + commit_outcome) \<times> 'r" where
  "after_rebase w rm auth_url pre_commit_head local_sha r =
     (case rev_parse_head w r of
        (Inl c, r) \<Rightarrow> (Inl (PostCommit (unknown_sha ''rebase'') c []), r)
      | (Inr post_rebase_sha, r) \<Rightarrow>
          (case git_diff_name_status w local_sha post_rebase_sha r of
             (Inl c, r) \<Rightarrow> (Inl (PostCommit post_rebase_sha (Within ''Failed to diff the rebase range'' c) []), r)
           | (Inr rebased_paths, r) \<Rightarrow> push_commit w rm auth_url pre_commit_head post_rebase_sha rebased_paths r))"

definition rebase_commit ::
    "'r world \<Rightarrow> remote \<Rightarrow> string \<Rightarrow> string option \<Rightarrow> string \<Rightarrow> 'r \<Rightarrow> (commit_sync_error + commit_outcome) \<times> 'r" where
  "rebase_commit w rm auth_url pre_commit_head local_sha r =
     (case w_git w (Some (rm_author rm)) [''rebase'', ''FETCH_HEAD''] r of
        (TimedOut, r) \<Rightarrow>
          (Inl (PostCommit local_sha (RunTimedOut ''rebase'') []), abort_rebase w r)
      | (SpawnFailed e, r) \<Rightarrow> (Inl (PostCommit local_sha (RunNotSpawned ''rebase'' e) []), r)
      | (Exited code out err, r) \<Rightarrow>
          if code = Some 0 then after_rebase w rm auth_url pre_commit_head local_sha r
          else case unmerged_paths w r of (conflicted, r) \<Rightarrow>
            let r = abort_rebase w r
            in if conflicted = []
               then (Inl (PostCommit local_sha (RunFailed ''rebase'' (redact_url err)) []), r)
               else conflicting w pre_commit_head local_sha (RunFailed ''rebase'' (conflicted @ redact_url err)) [] r)"

definition sync_commit ::
    "'r world \<Rightarrow> remote \<Rightarrow> string \<Rightarrow> string option \<Rightarrow> string \<Rightarrow> 'r \<Rightarrow> (commit_sync_error + commit_outcome) \<times> 'r" where
  "sync_commit w rm url pre_commit_head local_sha r =
     (let auth_url = authenticated_url url (rm_token rm)
      in case git_ok w None [''fetch'', ''--no-tags'', auth_url, rm_branch rm] r of
           (Inl c, r) \<Rightarrow> (Inl (PostCommit local_sha c []), r)
         | (Inr _, r) \<Rightarrow> rebase_commit w rm auth_url pre_commit_head local_sha r)"

definition commit_staged ::
    "'r world \<Rightarrow> remote \<Rightarrow> string list \<Rightarrow> string \<Rightarrow> string option \<Rightarrow> 'r \<Rightarrow> (commit_sync_error + commit_outcome) \<times> 'r" where
  "commit_staged w rm paths message pre_commit_head r =
     (case git_ok w (Some (rm_author rm)) ([''commit'', ''-m'', message, ''--''] @ paths) r of
        (Inl c, r) \<Rightarrow> (Inl (PreCommit c), r)
      | (Inr _, r) \<Rightarrow>
          (case rev_parse_head w r of
             (Inl c, r) \<Rightarrow> (Inl (PostCommit (unknown_sha ''commit'') c []), r)
           | (Inr local_sha, r) \<Rightarrow>
               (case rm_url rm of
                  Some url \<Rightarrow> sync_commit w rm url pre_commit_head local_sha r
                | None \<Rightarrow> (Inr \<lparr>co_sha = local_sha, co_rebased_paths = []\<rparr>, r))))"

definition pre_commit_head_of :: "'r world \<Rightarrow> remote \<Rightarrow> 'r \<Rightarrow> string option \<times> 'r" where
  "pre_commit_head_of w rm r =
     (case rm_url rm of
        None \<Rightarrow> (None, r)
      | Some _ \<Rightarrow> (case rev_parse_head w r of (Inr sha, r) \<Rightarrow> (Some sha, r) | (Inl _, r) \<Rightarrow> (None, r)))"

definition commit_and_sync ::
    "'r world \<Rightarrow> remote \<Rightarrow> string list \<Rightarrow> string \<Rightarrow> 'r \<Rightarrow> (commit_sync_error + commit_outcome) \<times> 'r" where
  "commit_and_sync w rm paths message r =
     (if paths = [] then (Inl (PreCommit (Message ''commit_and_sync called with no paths'')), r)
      else case git_ok w None ([''add'', ''--''] @ paths) r of
        (Inl c, r) \<Rightarrow> (Inl (PreCommit c), r)
      | (Inr _, r) \<Rightarrow>
          (case pre_commit_head_of w rm r of
             (pre_commit_head, r) \<Rightarrow> commit_staged w rm paths message pre_commit_head r))"

section \<open>Rollback commands and blobs\<close>

definition restore_from_head :: "'r world \<Rightarrow> string \<Rightarrow> 'r \<Rightarrow> (git_error + unit) \<times> 'r" where
  "restore_from_head w rel_path r =
     (case git_ok w None [''restore'', ''--source=HEAD'', ''--staged'', ''--worktree'', ''--'', rel_path] r of
        (Inr _, r) \<Rightarrow> (Inr (), r)
      | (Inl c, r) \<Rightarrow> (Inl c, r))"

definition unstage :: "'r world \<Rightarrow> string \<Rightarrow> 'r \<Rightarrow> (git_error + unit) \<times> 'r" where
  "unstage w rel_path r =
     (case git_ok w None [''reset'', ''--'', rel_path] r of
        (Inr _, r) \<Rightarrow> (Inr (), r)
      | (Inl c, r) \<Rightarrow> (Inl c, r))"

definition is_hex_digit :: "char \<Rightarrow> bool" where
  "is_hex_digit c \<longleftrightarrow>
     (let n = of_char c :: nat in 48 \<le> n \<and> n \<le> 57 \<or> 65 \<le> n \<and> n \<le> 70 \<or> 97 \<le> n \<and> n \<le> 102)"

definition cat_blob :: "'r world \<Rightarrow> string \<Rightarrow> 'r \<Rightarrow> (git_error + string option) \<times> 'r" where
  "cat_blob w ident r =
     (if length ident \<noteq> 40 \<or> \<not> list_all is_hex_digit ident then (Inr None, r)
      else case w_git w None [''cat-file'', ''blob'', ident] r of
        (TimedOut, r) \<Rightarrow> (Inl (RunTimedOut ''cat-file''), r)
      | (SpawnFailed e, r) \<Rightarrow> (Inl (RunNotSpawned ''cat-file'' e), r)
      | (Exited code out err, r) \<Rightarrow> (Inr (if code = Some 0 then Some out else None), r))"

definition MERGE_OURS :: string where "MERGE_OURS = ''.git/mcp-md-wiki-merge-ours''"
definition MERGE_BASE :: string where "MERGE_BASE = ''.git/mcp-md-wiki-merge-base''"
definition MERGE_THEIRS :: string where "MERGE_THEIRS = ''.git/mcp-md-wiki-merge-theirs''"

fun write_files :: "'r world \<Rightarrow> (string \<times> string) list \<Rightarrow> 'r \<Rightarrow> (git_error + unit) \<times> 'r" where
  "write_files w [] r = (Inr (), r)"
| "write_files w ((path, bytes) # rest) r =
     (case w_write w path bytes r of
        (Some e, r) \<Rightarrow> (Inl (Within ''Failed to stage merge input'' (Message e)), r)
      | (None, r) \<Rightarrow> write_files w rest r)"

definition remove_files :: "'r world \<Rightarrow> string list \<Rightarrow> 'r \<Rightarrow> 'r" where
  "remove_files w paths r = foldl (\<lambda>r p. snd (w_remove w p r)) r paths"

definition merge_text :: "'r world \<Rightarrow> string \<Rightarrow> string \<Rightarrow> string \<Rightarrow> 'r \<Rightarrow> (git_error + string option) \<times> 'r" where
  "merge_text w base ours theirs r =
     (case write_files w [(MERGE_OURS, ours), (MERGE_BASE, base), (MERGE_THEIRS, theirs)] r of
        (Inl c, r) \<Rightarrow> (Inl c, r)
      | (Inr _, r) \<Rightarrow>
          (case w_git w None [''merge-file'', ''-p'', MERGE_OURS, MERGE_BASE, MERGE_THEIRS] r of
             (out, r) \<Rightarrow>
               let r = remove_files w [MERGE_OURS, MERGE_BASE, MERGE_THEIRS] r
               in case out of
                    TimedOut \<Rightarrow> (Inl (RunTimedOut ''merge-file''), r)
                  | SpawnFailed e \<Rightarrow> (Inl (RunNotSpawned ''merge-file'' e), r)
                  | Exited code stdout stderr \<Rightarrow>
                      (case code of
                         Some n \<Rightarrow>
                           if n = 0 then (Inr (Some stdout), r)
                           else if 1 \<le> n \<and> n \<le> 127 then (Inr None, r)
                           else (Inl (RunFailed ''merge-file'' stderr), r)
                       | None \<Rightarrow> (Inl (RunFailed ''merge-file'' stderr), r))))"

end
