(* ===== verification/GitLaws.thy ===== *)
theory GitLaws
  imports GitSync
begin

text \<open>
  What the code relies on of git and of the file system, as laws over a view of the clone: the commit at
  HEAD, the files of the working copy, and the tree of every commit. The laws are named hypotheses; they
  say nothing about which run succeeds. From them: what each outcome of \<open>commit_and_sync\<close> says about
  the clone is true.
\<close>

section \<open>The view and the laws\<close>

type_synonym files = "string \<Rightarrow> string option"

record 'r clone_view =
  cv_head :: "'r \<Rightarrow> string"
  cv_work :: "'r \<Rightarrow> files"
  cv_tree :: "string \<Rightarrow> files"
  cv_fetched :: "'r \<Rightarrow> string"
  cv_saved :: "'r \<Rightarrow> string \<times> files"

definition committed :: "'r clone_view \<Rightarrow> 'r \<Rightarrow> files" where
  "committed v r = cv_tree v (cv_head v r)"

definition clean :: "'r clone_view \<Rightarrow> 'r \<Rightarrow> string \<Rightarrow> bool" where
  "clean v r p \<longleftrightarrow> cv_work v r p = committed v r p"

definition same_view :: "'r clone_view \<Rightarrow> 'r \<Rightarrow> 'r \<Rightarrow> bool" where
  "same_view v r r' \<longleftrightarrow> cv_head v r' = cv_head v r \<and> cv_work v r' = cv_work v r \<and> cv_saved v r' = cv_saved v r"

text \<open>Commands that move neither HEAD nor a file of the working copy.\<close>

definition quiet :: "string list \<Rightarrow> bool" where
  "quiet args \<longleftrightarrow>
     take 1 args \<in> {[''add''], [''rev-parse''], [''fetch''], [''diff''], [''push''], [''rev-list''], [''update-ref''],
       [''cat-file''], [''merge-file'']} \<or> take 2 args = [''reset'', ''--'']"

definition law_quiet :: "'r world \<Rightarrow> 'r clone_view \<Rightarrow> bool" where
  "law_quiet w v \<longleftrightarrow> (\<forall>author args r. quiet args \<longrightarrow> same_view v r (snd (w_git w author args r)))"

definition law_rev_parse :: "'r world \<Rightarrow> 'r clone_view \<Rightarrow> bool" where
  "law_rev_parse w v \<longleftrightarrow>
     (\<forall>r out err r'. w_git w None [''rev-parse'', ''HEAD''] r = (Exited (Some 0) out err, r') \<longrightarrow>
        trim out = cv_head v r \<and> cv_head v r \<noteq> ''FETCH_HEAD'')"

definition succeeded :: "run_result \<Rightarrow> bool" where
  "succeeded res \<longleftrightarrow> (\<exists>out err. res = Exited (Some 0) out err)"

text \<open>A commit takes the given paths from the working copy; one that does not report success changed nothing.\<close>

definition law_commit :: "'r world \<Rightarrow> 'r clone_view \<Rightarrow> bool" where
  "law_commit w v \<longleftrightarrow>
     (\<forall>author message paths r res r'. w_git w author ([''commit'', ''-m'', message, ''--''] @ paths) r = (res, r') \<longrightarrow>
        (if succeeded res
         then cv_work v r' = cv_work v r
           \<and> (\<forall>p. committed v r' p = (if p \<in> set paths then cv_work v r p else committed v r p))
         else same_view v r r'))"

text \<open>A hard reset moves HEAD and makes every tracked file that of the target, or changes nothing.\<close>

definition law_reset :: "'r world \<Rightarrow> 'r clone_view \<Rightarrow> bool" where
  "law_reset w v \<longleftrightarrow>
     (\<forall>author target r res r'. w_git w author [''reset'', ''--hard'', target] r = (res, r') \<longrightarrow>
        (if succeeded res
         then cv_head v r' = (if target = ''FETCH_HEAD'' then cv_fetched v r else target)
           \<and> (\<forall>p. cv_work v r' p =
                (if committed v r p = None \<and> committed v r' p = None then cv_work v r p else committed v r' p))
         else same_view v r r'))"

text \<open>
  A fast-forward or a rebase that succeeds keeps clean files clean. \<open>cv_saved\<close> is where an abort goes: to
  HEAD and the working copy before a rebase that stopped, and to where they are when none is in progress.
  That it gets there is assumed; the code logs an abort that did not.
\<close>

definition law_rebase :: "'r world \<Rightarrow> 'r clone_view \<Rightarrow> bool" where
  "law_rebase w v \<longleftrightarrow>
     (\<forall>author r res r'. w_git w author [''rebase'', ''FETCH_HEAD''] r = (res, r') \<longrightarrow>
        (if succeeded res then \<forall>p. clean v r p \<longrightarrow> clean v r' p
         else cv_saved v r' = (cv_head v r, cv_work v r)
           \<and> (case res of SpawnFailed _ \<Rightarrow> cv_head v r' = cv_head v r \<and> cv_work v r' = cv_work v r | _ \<Rightarrow> True)))"

definition law_abort :: "'r world \<Rightarrow> 'r clone_view \<Rightarrow> bool" where
  "law_abort w v \<longleftrightarrow>
     (\<forall>author r res r'. w_git w author [''rebase'', ''--abort''] r = (res, r') \<longrightarrow>
        (cv_head v r', cv_work v r') = cv_saved v r)"

definition law_merge_ff :: "'r world \<Rightarrow> 'r clone_view \<Rightarrow> bool" where
  "law_merge_ff w v \<longleftrightarrow>
     (\<forall>author r res r'. w_git w author [''merge'', ''--ff-only'', ''FETCH_HEAD''] r = (res, r') \<longrightarrow>
        (if succeeded res then \<forall>p. clean v r p \<longrightarrow> clean v r' p else same_view v r r'))"

definition law_restore :: "'r world \<Rightarrow> 'r clone_view \<Rightarrow> bool" where
  "law_restore w v \<longleftrightarrow>
     (\<forall>author p r res r'.
        w_git w author [''restore'', ''--source=HEAD'', ''--staged'', ''--worktree'', ''--'', p] r = (res, r') \<longrightarrow>
        cv_head v r' = cv_head v r \<and> (succeeded res \<longrightarrow> cv_work v r' = (cv_work v r)(p := committed v r p)))"

text \<open>The list of changed paths between two commits names every path whose content differs.\<close>

definition law_diff :: "'r world \<Rightarrow> 'r clone_view \<Rightarrow> bool" where
  "law_diff w v \<longleftrightarrow>
     (\<forall>old new r out err r' p.
        w_git w None [''diff'', ''--name-status'', ''-M'', ''-z'', old @ ''..'' @ new] r = (Exited (Some 0) out err, r') \<longrightarrow>
        p \<notin> set (parse_diff_name_status out) \<longrightarrow> cv_tree v new p = cv_tree v old p)"

definition git_laws :: "'r world \<Rightarrow> 'r clone_view \<Rightarrow> bool" where
  "git_laws w v \<longleftrightarrow>
     law_quiet w v \<and> law_rev_parse w v \<and> law_commit w v \<and> law_reset w v \<and> law_rebase w v \<and> law_abort w v
     \<and> law_merge_ff w v \<and> law_restore w v \<and> law_diff w v"

lemma git_lawsD:
  assumes "git_laws w v"
  shows "law_quiet w v" "law_rev_parse w v" "law_commit w v" "law_reset w v" "law_rebase w v" "law_abort w v"
    "law_merge_ff w v" "law_restore w v" "law_diff w v"
  using assms by (simp_all add: git_laws_def)

section \<open>One command\<close>

lemma same_view_refl [simp]: "same_view v r r"
  by (simp add: same_view_def)

lemma same_view_trans: "same_view v r s \<Longrightarrow> same_view v s t \<Longrightarrow> same_view v r t"
  by (simp add: same_view_def)

lemma same_viewD:
  assumes "same_view v r s"
  shows "cv_head v s = cv_head v r" "cv_work v s = cv_work v r" "cv_saved v s = cv_saved v r"
    "committed v s = committed v r" "clean v s p = clean v r p"
  using assms by (simp_all add: same_view_def committed_def clean_def)

lemma git_ok_cases:
  assumes "git_ok w author args r = (x, r')"
  obtains (success) out err where "x = Inr out" "w_git w author args r = (Exited (Some 0) out err, r')"
  | (failure) c res where "x = Inl c" "w_git w author args r = (res, r')" "\<not> succeeded res"
proof (cases "w_git w author args r")
  case (Pair res s)
  then show ?thesis
    using assms that by (cases res) (auto simp: git_ok_def succeeded_def split: if_splits)
qed

lemma git_ok_quiet:
  assumes "git_laws w v" "quiet args" "git_ok w author args r = (x, r')"
  shows "same_view v r r'"
proof -
  have "same_view v r (snd (w_git w author args r))"
    using git_lawsD(1) [OF assms(1)] assms(2) by (simp add: law_quiet_def)
  then show ?thesis using assms(3) by (cases rule: git_ok_cases [OF assms(3)]) auto
qed

lemma rev_parse_head_view:
  assumes "git_laws w v" "rev_parse_head w r = (x, r')"
  shows "same_view v r r'" and "x = Inr sha \<Longrightarrow> sha = cv_head v r \<and> sha \<noteq> ''FETCH_HEAD''"
proof -
  obtain y where y: "git_ok w None [''rev-parse'', ''HEAD''] r = (y, r')"
    and x: "x = (case y of Inr out \<Rightarrow> Inr (trim out) | Inl c \<Rightarrow> Inl c)"
    using assms(2) by (auto simp: rev_parse_head_def split: prod.splits sum.splits)
  show "same_view v r r'" by (rule git_ok_quiet [OF assms(1) _ y]) (simp add: quiet_def)
  assume "x = Inr sha"
  then obtain out where "y = Inr out" "sha = trim out" using x by (cases y) auto
  moreover obtain err where "w_git w None [''rev-parse'', ''HEAD''] r = (Exited (Some 0) out err, r')"
    using \<open>y = Inr out\<close> by (cases rule: git_ok_cases [OF y]) auto
  ultimately show "sha = cv_head v r \<and> sha \<noteq> ''FETCH_HEAD''"
    using git_lawsD(2) [OF assms(1), unfolded law_rev_parse_def] by metis
qed

lemma unmerged_paths_view:
  assumes "git_laws w v" "unmerged_paths w r = (c, r')"
  shows "same_view v r r'"
proof -
  obtain y where y: "git_ok w None [''diff'', ''--name-only'', ''--diff-filter=U''] r = (y, r')"
    using assms(2) by (auto simp: unmerged_paths_def split: prod.splits sum.splits)
  show ?thesis by (rule git_ok_quiet [OF assms(1) _ y]) (simp add: quiet_def)
qed

lemma git_diff_view:
  assumes "git_laws w v" "git_diff_name_status w old new r = (x, r')"
  shows "same_view v r r'" and "x = Inr ps \<Longrightarrow> p \<notin> set ps \<Longrightarrow> cv_tree v new p = cv_tree v old p"
proof -
  obtain y where y: "git_ok w None [''diff'', ''--name-status'', ''-M'', ''-z'', old @ ''..'' @ new] r = (y, r')"
    and x: "x = (case y of Inr out \<Rightarrow> Inr (parse_diff_name_status out) | Inl c \<Rightarrow> Inl c)"
    using assms(2) by (auto simp: git_diff_name_status_def split: prod.splits sum.splits)
  show "same_view v r r'" by (rule git_ok_quiet [OF assms(1) _ y]) (simp add: quiet_def)
  assume "x = Inr ps" "p \<notin> set ps"
  then obtain out where "y = Inr out" "p \<notin> set (parse_diff_name_status out)" using x by (cases y) auto
  moreover obtain err where
    "w_git w None [''diff'', ''--name-status'', ''-M'', ''-z'', old @ ''..'' @ new] r = (Exited (Some 0) out err, r')"
    using \<open>y = Inr out\<close> by (cases rule: git_ok_cases [OF y]) auto
  ultimately show "cv_tree v new p = cv_tree v old p"
    using git_lawsD(9) [OF assms(1), unfolded law_diff_def] by blast
qed

lemma abort_rebase_view:
  assumes "git_laws w v"
  shows "(cv_head v (abort_rebase w r), cv_work v (abort_rebase w r)) = cv_saved v r"
proof -
  obtain x r' where g: "git_ok w None [''rebase'', ''--abort''] r = (x, r')" by fastforce
  have "(cv_head v r', cv_work v r') = cv_saved v r"
    using git_lawsD(6) [OF assms] by (cases rule: git_ok_cases [OF g]) (auto simp: law_abort_def)
  then show ?thesis by (simp add: abort_rebase_def g)
qed

section \<open>Resets keep clean files clean\<close>

lemma reset_hard_view:
  assumes "git_laws w v" "reset_hard w target r = (x, r')"
  shows "x = Inr () \<Longrightarrow> cv_head v r' = (if target = ''FETCH_HEAD'' then cv_fetched v r else target)"
    and "x = Inl c \<Longrightarrow> same_view v r r'"
    and "clean v r p \<Longrightarrow> clean v r' p"
proof -
  obtain y where y: "git_ok w None [''reset'', ''--hard'', target] r = (y, r')"
    and x: "x = (case y of Inr _ \<Rightarrow> Inr () | Inl c \<Rightarrow> Inl c)"
    using assms(2) by (auto simp: reset_hard_def split: prod.splits sum.splits)
  note law = git_lawsD(4) [OF assms(1), unfolded law_reset_def]
  show "x = Inr () \<Longrightarrow> cv_head v r' = (if target = ''FETCH_HEAD'' then cv_fetched v r else target)"
    using x law by (cases rule: git_ok_cases [OF y]) (auto simp: succeeded_def)
  show "x = Inl c \<Longrightarrow> same_view v r r'"
    using x law by (cases rule: git_ok_cases [OF y]) (auto simp: succeeded_def)
  assume p: "clean v r p"
  show "clean v r' p"
  proof (cases rule: git_ok_cases [OF y])
    case (1 out err)
    then have "\<forall>p. cv_work v r' p =
        (if committed v r p = None \<and> committed v r' p = None then cv_work v r p else committed v r' p)"
      using law by (auto simp: succeeded_def)
    then show ?thesis using p by (simp add: clean_def)
  next
    case (2 c res)
    then have "same_view v r r'" using law by auto
    then show ?thesis using p by (simp add: same_viewD)
  qed
qed

lemma reset_to_fetch_head_clean:
  assumes "git_laws w v" "reset_to_fetch_head w r = (x, r')" "clean v r p"
  shows "clean v r' p"
proof -
  obtain count r1 where c: "unsynced_count w r = (count, r1)" by fastforce
  obtain y where "git_ok w None [''rev-list'', ''--count'', ''FETCH_HEAD..HEAD''] r = (y, r1)"
    using c by (auto simp: unsynced_count_def split: prod.splits sum.splits)
  then have v1: "same_view v r r1" by (rule git_ok_quiet [OF assms(1), rotated]) (simp add: quiet_def)
  obtain z r2 where s: "(if count \<noteq> Some 0 then save_head w r1 else (Inr (), r1)) = (z, r2)" by fastforce
  have v2: "same_view v r1 r2"
  proof (cases "count \<noteq> Some 0")
    case True
    obtain h r3 where h: "rev_parse_head w r1 = (h, r3)" by fastforce
    note v3 = rev_parse_head_view(1) [OF assms(1) h]
    show ?thesis
    proof (cases h)
      case (Inl c)
      then show ?thesis using s True h v3 by (simp add: save_head_def)
    next
      case (Inr head)
      obtain u r4 where u: "git_ok w None [''update-ref'', backup_ref head, head] r3 = (u, r4)" by fastforce
      have "same_view v r3 r4" by (rule git_ok_quiet [OF assms(1) _ u]) (simp add: quiet_def)
      then show ?thesis
        using s True h v3 Inr u by (auto simp: save_head_def intro: same_view_trans split: sum.splits)
    qed
  qed (use s in simp)
  have "clean v r2 p" using assms(3) v1 v2 by (simp add: same_viewD)
  moreover have "r' = r2 \<or> (\<exists>y. reset_hard w ''FETCH_HEAD'' r2 = (y, r'))"
    using assms(2) by (auto simp: reset_to_fetch_head_def c s split: sum.splits)
  ultimately show ?thesis using reset_hard_view(3) [OF assms(1)] by blast
qed

section \<open>After the commit has landed\<close>

text \<open>
  What is known at the end of a call whose commit put the contents \<open>contents\<close> of \<open>paths\<close> into HEAD:
  those files are clean; a conflict is back at the head before the commit; a success reports HEAD, which
  has the contents committed except where the rebase says it changed them.
\<close>

definition landed ::
    "'r clone_view \<Rightarrow> string option \<Rightarrow> files \<Rightarrow> string list \<Rightarrow> (commit_sync_error + commit_outcome) \<Rightarrow> 'r \<Rightarrow> bool" where
  "landed v pre contents paths res r' \<longleftrightarrow>
     (\<forall>p\<in>set paths. clean v r' p)
     \<and> (case res of
          Inl (PreCommit _) \<Rightarrow> False
        | Inl (PostCommit _ _ _) \<Rightarrow> True
        | Inl (Conflict _) \<Rightarrow> (case pre of Some sha \<Rightarrow> cv_head v r' = sha | None \<Rightarrow> True)
        | Inr oc \<Rightarrow>
            co_sha oc = cv_head v r'
            \<and> (\<forall>p\<in>set paths. p \<notin> set (co_rebased_paths oc) \<longrightarrow> committed v r' p = contents p))"

lemma landed_post: "\<forall>p\<in>set paths. clean v r' p \<Longrightarrow> landed v pre contents paths (Inl (PostCommit sha c ps)) r'"
  by (simp add: landed_def)

lemma conflicting_landed:
  assumes "git_laws w v" "conflicting w pre sha source ps r = (res, r')" "\<forall>p\<in>set paths. clean v r p"
    and "pre \<noteq> Some ''FETCH_HEAD''"
  shows "landed v pre contents paths res r'"
proof -
  obtain x where x: "drop_own_commit w pre r = (x, r')"
    and res: "res = (case x of Inl e \<Rightarrow> Inl (PostCommit sha (Within ''dropping the commit failed'' source) ps)
      | Inr _ \<Rightarrow> Inl (Conflict source))"
    using assms(2) by (auto simp: conflicting_def split: prod.splits sum.splits)
  have "\<forall>p\<in>set paths. clean v r' p"
    using x reset_hard_view(3) [OF assms(1)] reset_to_fetch_head_clean [OF assms(1)] assms(3)
    by (auto simp: drop_own_commit_def split: option.splits)
  moreover have "cv_head v r' = s" if "x = Inr ()" "pre = Some s" for s
    using x that assms(4) reset_hard_view(1) [OF assms(1)] by (auto simp: drop_own_commit_def)
  ultimately show ?thesis using res by (cases x) (auto simp: landed_def split: option.split)
qed

lemma push_commit_landed:
  assumes "git_laws w v" "push_commit w rm url pre sha ps r = (res, r')" "\<forall>p\<in>set paths. clean v r p"
    and "pre \<noteq> Some ''FETCH_HEAD''" "sha = cv_head v r" "\<forall>p\<in>set paths. p \<notin> set ps \<longrightarrow> committed v r p = contents p"
  shows "landed v pre contents paths res r'"
proof -
  obtain x r1 where x: "w_git w None [''push'', url, ''HEAD:'' @ rm_branch rm] r = (x, r1)" by fastforce
  have same: "same_view v r r1"
    using git_lawsD(1) [OF assms(1)] x by (auto simp: law_quiet_def quiet_def dest!: spec [of _ None])
      (metis (no_types, lifting) One_nat_def snd_conv take0 take_Suc_Cons)
  then have clean: "\<forall>p\<in>set paths. clean v r1 p" using assms(3) by (simp add: same_viewD)
  show ?thesis
  proof (cases "\<exists>code out err. x = Exited code out err \<and> code \<noteq> Some 0 \<and> is_non_fast_forward_rejection (redact_url err)")
    case True
    then obtain c where "conflicting w pre sha c ps r1 = (res, r')"
      using assms(2) x by (auto simp: push_commit_def)
    then show ?thesis by (rule conflicting_landed [OF assms(1) _ clean assms(4)])
  next
    case False
    then show ?thesis
      using assms(2) x clean same assms(5,6)
      by (auto simp: push_commit_def landed_def same_viewD split: run_result.splits if_splits)
  qed
qed

lemma after_rebase_landed:
  assumes "git_laws w v" "after_rebase w rm url pre local_sha r = (res, r')" "\<forall>p\<in>set paths. clean v r p"
    and "pre \<noteq> Some ''FETCH_HEAD''" "\<forall>p\<in>set paths. cv_tree v local_sha p = contents p"
  shows "landed v pre contents paths res r'"
proof -
  obtain h r1 where h: "rev_parse_head w r = (h, r1)" by fastforce
  note v1 = rev_parse_head_view [OF assms(1) h]
  show ?thesis
  proof (cases h)
    case (Inl c)
    then show ?thesis using assms(2,3) h v1(1) by (auto simp: after_rebase_def landed_post same_viewD)
  next
    case (Inr sha)
    obtain d r2 where d: "git_diff_name_status w local_sha sha r1 = (d, r2)" by fastforce
    note v2 = git_diff_view [OF assms(1) d]
    have same: "same_view v r r2" using v1(1) v2(1) by (rule same_view_trans)
    then have clean: "\<forall>p\<in>set paths. clean v r2 p" using assms(3) by (simp add: same_viewD)
    have sha: "sha = cv_head v r2" using v1(2) [OF Inr] same by (simp add: same_viewD)
    show ?thesis
    proof (cases d)
      case (Inl c)
      then show ?thesis using assms(2) h Inr d clean by (auto simp: after_rebase_def landed_post)
    next
      case ps: (Inr ps)
      have "\<forall>p\<in>set paths. p \<notin> set ps \<longrightarrow> committed v r2 p = contents p"
        using v2(2) [OF ps] assms(5) sha by (simp add: committed_def)
      moreover have "push_commit w rm url pre sha ps r2 = (res, r')"
        using assms(2) h Inr d ps by (simp add: after_rebase_def)
      ultimately show ?thesis using push_commit_landed [OF assms(1) _ clean assms(4) sha] by blast
    qed
  qed
qed

lemma rebase_commit_landed:
  assumes "git_laws w v" "rebase_commit w rm url pre local_sha r = (res, r')" "\<forall>p\<in>set paths. clean v r p"
    and "pre \<noteq> Some ''FETCH_HEAD''" "local_sha = cv_head v r" "\<forall>p\<in>set paths. committed v r p = contents p"
  shows "landed v pre contents paths res r'"
proof -
  obtain x r1 where x: "w_git w (Some (rm_author rm)) [''rebase'', ''FETCH_HEAD''] r = (x, r1)" by fastforce
  note law = git_lawsD(5) [OF assms(1), unfolded law_rebase_def, rule_format, OF x]
  have aborted: "clean v (abort_rebase w r2) p"
    if "same_view v r1 r2" "cv_saved v r1 = (cv_head v r, cv_work v r)" "clean v r p" for r2 p
    using abort_rebase_view [OF assms(1), of r2] that by (simp add: same_view_def clean_def committed_def)
  show ?thesis
  proof (cases x)
    case (Exited code out err)
    show ?thesis
    proof (cases "code = Some 0")
      case True
      then have "\<forall>p\<in>set paths. clean v r1 p" using law Exited assms(3) by (simp add: succeeded_def)
      moreover have "after_rebase w rm url pre local_sha r1 = (res, r')"
        using assms(2) x Exited True by (simp add: rebase_commit_def)
      moreover have "\<forall>p\<in>set paths. cv_tree v local_sha p = contents p" using assms(5,6) by (simp add: committed_def)
      ultimately show ?thesis using after_rebase_landed [OF assms(1) _ _ assms(4)] by blast
    next
      case False
      then have saved: "cv_saved v r1 = (cv_head v r, cv_work v r)" using law Exited by (simp add: succeeded_def)
      obtain cs r2 where u: "unmerged_paths w r1 = (cs, r2)" by fastforce
      have clean: "\<forall>p\<in>set paths. clean v (abort_rebase w r2) p"
        using aborted [OF unmerged_paths_view [OF assms(1) u] saved] assms(3) by blast
      show ?thesis
      proof (cases "cs = []")
        case True
        then show ?thesis
          using assms(2) x Exited False u clean by (auto simp: rebase_commit_def Let_def landed_post)
      next
        case conflict: False
        then have "conflicting w pre local_sha (RunFailed ''rebase'' (cs @ redact_url err)) [] (abort_rebase w r2) = (res, r')"
          using assms(2) x Exited False u by (simp add: rebase_commit_def Let_def)
        then show ?thesis by (rule conflicting_landed [OF assms(1) _ clean assms(4)])
      qed
    qed
  next
    case (SpawnFailed e)
    then have "cv_head v r1 = cv_head v r" "cv_work v r1 = cv_work v r" using law by (simp_all add: succeeded_def)
    then have "\<forall>p\<in>set paths. clean v r1 p" using assms(3) by (simp add: clean_def committed_def)
    then show ?thesis using assms(2) x SpawnFailed by (auto simp: rebase_commit_def landed_post)
  next
    case TimedOut
    then have saved: "cv_saved v r1 = (cv_head v r, cv_work v r)" using law by (simp add: succeeded_def)
    have "\<forall>p\<in>set paths. clean v (abort_rebase w r1) p" using aborted [OF same_view_refl saved] assms(3) by blast
    then show ?thesis using assms(2) x TimedOut by (auto simp: rebase_commit_def landed_post)
  qed
qed

lemma commit_staged_landed:
  assumes "git_laws w v" "commit_staged w rm paths message pre r = (res, r')" "pre \<noteq> Some ''FETCH_HEAD''"
    and qs: "\<forall>q\<in>set qs. q \<in> set paths \<or> clean v r q"
  shows "(\<exists>c. res = Inl (PreCommit c)) \<and> same_view v r r' \<or> landed v pre (cv_work v r) qs res r'"
proof -
  obtain x r1 where x: "git_ok w (Some (rm_author rm)) ([''commit'', ''-m'', message, ''--''] @ paths) r = (x, r1)" by fastforce
  note law = git_lawsD(3) [OF assms(1), unfolded law_commit_def, rule_format]
  show ?thesis
  proof (cases rule: git_ok_cases [OF x])
    case (2 c out)
    then have "same_view v r r1" using law [OF 2(2)] by simp
    then show ?thesis using assms(2) x 2 by (auto simp: commit_staged_def)
  next
    case (1 out err)
    have work: "cv_work v r1 = cv_work v r"
      and "\<forall>p. committed v r1 p = (if p \<in> set paths then cv_work v r p else committed v r p)"
      using law [OF 1(2)] by (simp_all add: succeeded_def)
    then have tree: "\<forall>p\<in>set qs. committed v r1 p = cv_work v r p" using qs by (auto simp: clean_def)
    obtain h r2 where h: "rev_parse_head w r1 = (h, r2)" by fastforce
    note v2 = rev_parse_head_view [OF assms(1) h]
    have clean: "\<forall>p\<in>set qs. clean v r2 p" and tree2: "\<forall>p\<in>set qs. committed v r2 p = cv_work v r p"
      using work tree v2(1) by (simp_all add: clean_def same_viewD)
    show ?thesis
    proof (cases h)
      case (Inl c)
      then show ?thesis using assms(2) x 1 h clean by (auto simp: commit_staged_def landed_post)
    next
      case (Inr sha)
      have sha: "sha = cv_head v r2" using v2 Inr by (simp add: same_viewD)
      show ?thesis
      proof (cases "rm_url rm")
        case None
        then show ?thesis using assms(2) x 1 h Inr clean tree2 sha by (auto simp: commit_staged_def landed_def)
      next
        case (Some url)
        let ?auth = "authenticated_url url (rm_token rm)"
        have sync: "sync_commit w rm url pre sha r2 = (res, r')"
          using assms(2) x 1 h Inr Some by (simp add: commit_staged_def)
        obtain f r3 where f: "git_ok w None [''fetch'', ''--no-tags'', ?auth, rm_branch rm] r2 = (f, r3)" by fastforce
        have same: "same_view v r2 r3" by (rule git_ok_quiet [OF assms(1) _ f]) (simp add: quiet_def)
        have clean3: "\<forall>p\<in>set qs. clean v r3 p" using clean same by (simp add: same_viewD)
        show ?thesis
        proof (cases f)
          case (Inl c)
          then show ?thesis using sync f clean3 by (auto simp: sync_commit_def Let_def landed_post)
        next
          case (Inr out)
          then have "rebase_commit w rm ?auth pre sha r3 = (res, r')" using sync f by (simp add: sync_commit_def Let_def)
          then have "landed v pre (cv_work v r) qs res r'"
            using rebase_commit_landed [OF assms(1) _ clean3 assms(3)] sha tree2 same by (simp add: same_viewD)
          then show ?thesis ..
        qed
      qed
    qed
  qed
qed

lemma commit_and_sync_view:
  assumes "git_laws w v" "commit_and_sync w rm paths message r = (res, r')"
    and qs: "\<forall>q\<in>set qs. q \<in> set paths \<or> clean v r q"
  shows "(\<exists>c. res = Inl (PreCommit c)) \<and> same_view v r r'
    \<or> (\<exists>pre. (pre = None \<or> pre = Some (cv_head v r)) \<and> landed v pre (cv_work v r) qs res r')"
proof (cases "paths = []")
  case True
  then show ?thesis using assms(2) by (auto simp: commit_and_sync_def)
next
  case False
  obtain x r1 where x: "git_ok w None ([''add'', ''--''] @ paths) r = (x, r1)" by fastforce
  have v1: "same_view v r r1" by (rule git_ok_quiet [OF assms(1) _ x]) (simp add: quiet_def)
  show ?thesis
  proof (cases x)
    case (Inl c)
    then show ?thesis using assms(2) False x v1 by (auto simp: commit_and_sync_def)
  next
    case (Inr out)
    obtain pre r2 where pre: "pre_commit_head_of w rm r1 = (pre, r2)" by fastforce
    obtain h s where h: "rev_parse_head w r1 = (h, s)" by fastforce
    have p: "same_view v r1 r2" "pre = None \<or> pre = Some (cv_head v r1)" "pre \<noteq> Some ''FETCH_HEAD''"
      using pre h rev_parse_head_view [OF assms(1) h]
      by (auto simp: pre_commit_head_of_def split: option.splits sum.splits)
    have "commit_staged w rm paths message pre r2 = (res, r')"
      using assms(2) False x Inr pre by (simp add: commit_and_sync_def)
    moreover have "\<forall>q\<in>set qs. q \<in> set paths \<or> clean v r2 q"
      using qs same_viewD(5) [OF same_view_trans [OF v1 p(1)]] by auto
    ultimately show ?thesis
      using commit_staged_landed [OF assms(1) _ p(3), of rm paths message r2 res r' qs] p(1,2) v1
      by (auto simp: same_view_def)
  qed
qed

section \<open>Properties\<close>


text \<open>
  A git that holds one document and no remote, and two commits of it: \<open>c0\<close> with the text \<open>old\<close> and \<open>c1\<close>
  with the text \<open>new\<close>. A commit of any other text is refused.
\<close>

record demo_clone =
  dc_new :: bool
  dc_work :: "string option"
  dc_saved :: "bool \<times> string option"

definition one_file :: "string option \<Rightarrow> files" where
  "one_file c = (\<lambda>p. if p = ''a.md'' then c else None)"

definition demo_sha :: "bool \<Rightarrow> string" where
  "demo_sha new = (if new then ''c1'' else ''c0'')"

definition demo_tree :: "string \<Rightarrow> files" where
  "demo_tree sha = one_file (Some (if sha = ''c1'' then ''new'' else ''old''))"

definition demo_view :: "demo_clone clone_view" where
  "demo_view =
     \<lparr>cv_head = (\<lambda>r. demo_sha (dc_new r)), cv_work = (\<lambda>r. one_file (dc_work r)), cv_tree = demo_tree,
      cv_fetched = (\<lambda>r. demo_sha (dc_new r)), cv_saved = (\<lambda>r. (demo_sha (fst (dc_saved r)), one_file (snd (dc_saved r))))\<rparr>"

definition refused :: run_result where
  "refused = Exited (Some 1) [] ''refused''"

definition demo_diff :: string where
  "demo_diff = ''M'' @ nul # ''a.md'' @ [nul]"

definition demo_commit :: "demo_clone \<Rightarrow> run_result \<times> demo_clone" where
  "demo_commit r =
     (if dc_work r = Some ''new'' then (Exited (Some 0) [] [], r\<lparr>dc_new := True\<rparr>)
      else if dc_work r = Some ''old'' then (Exited (Some 0) [] [], r\<lparr>dc_new := False\<rparr>)
      else (refused, r))"

definition demo_git :: "(string \<times> string) option \<Rightarrow> string list \<Rightarrow> demo_clone \<Rightarrow> run_result \<times> demo_clone" where
  "demo_git author args r =
     (if args = [''add'', ''--'', ''a.md''] then (Exited (Some 0) [] [], r)
      else if take 1 args = [''rev-parse''] then (Exited (Some 0) (demo_sha (dc_new r)) [], r)
      else if take 1 args = [''diff''] then (Exited (Some 0) demo_diff [], r)
      else if length args = 5 \<and> take 2 args = [''commit'', ''-m''] \<and> drop 3 args = [''--'', ''a.md''] then demo_commit r
      else if args = [''rebase'', ''FETCH_HEAD''] then (refused, r\<lparr>dc_saved := (dc_new r, dc_work r)\<rparr>)
      else if args = [''rebase'', ''--abort'']
      then (refused, r\<lparr>dc_new := fst (dc_saved r), dc_work := snd (dc_saved r)\<rparr>)
      else (refused, r))"

definition demo_world :: "demo_clone world" where
  "demo_world =
     \<lparr>w_git = demo_git, w_is_repo = (\<lambda>_. True),
      w_write = (\<lambda>p c r. if p = ''a.md'' then (None, r\<lparr>dc_work := Some c\<rparr>) else (Some ''refused'', r)),
      w_create = (\<lambda>p r. (CreateFailed ''refused'', r)), w_remove = (\<lambda>p r. (Some ''refused'', r))\<rparr>"

lemma trim_demo: "trim ''c0'' = ''c0''" "trim ''c1'' = ''c1''"
  by code_simp+

lemma demo_sha_trim: "trim (demo_sha new) = demo_sha new" "demo_sha new \<noteq> ''FETCH_HEAD''"
  by (simp_all add: demo_sha_def trim_demo)

lemma demo_diff_paths: "parse_diff_name_status demo_diff = [''a.md'']"
  by code_simp

lemma demo_git_laws: "git_laws demo_world demo_view"
  unfolding git_laws_def
proof (intro conjI)
  note defs = demo_world_def demo_view_def demo_git_def refused_def succeeded_def same_view_def committed_def clean_def
  have no_commit: "take 2 args \<noteq> [''commit'', ''-m'']" "args \<noteq> [''rebase'', ''FETCH_HEAD'']" "args \<noteq> [''rebase'', ''--abort'']"
    if "quiet args" for args
  proof -
    show "take 2 args \<noteq> [''commit'', ''-m'']"
    proof
      assume e: "take 2 args = [''commit'', ''-m'']"
      obtain x y rest where "args = x # y # rest" using e by (cases args; cases "tl args") auto
      with e that show False by (simp add: quiet_def)
    qed
    show "args \<noteq> [''rebase'', ''FETCH_HEAD'']" "args \<noteq> [''rebase'', ''--abort'']" using that by (auto simp: quiet_def)
  qed
  show "law_quiet demo_world demo_view"
    unfolding law_quiet_def using no_commit by (auto simp: defs)
  show "law_rev_parse demo_world demo_view"
    by (auto simp: law_rev_parse_def defs demo_sha_trim split: if_splits)
  have commit: "demo_git author ([''commit'', ''-m'', message, ''--''] @ paths) r = (if paths = [''a.md''] then demo_commit r else (refused, r))"
    for author message paths r
    by (cases paths) (auto simp: demo_git_def)
  show "law_commit demo_world demo_view"
    unfolding law_commit_def demo_world_def world.simps commit
    by (auto simp: demo_commit_def refused_def succeeded_def committed_def demo_view_def demo_sha_def demo_tree_def
        one_file_def split: if_splits)
  show "law_reset demo_world demo_view" by (auto simp: law_reset_def defs)
  show "law_rebase demo_world demo_view" by (auto simp: law_rebase_def defs)
  show "law_abort demo_world demo_view" by (auto simp: law_abort_def defs)
  show "law_merge_ff demo_world demo_view" by (auto simp: law_merge_ff_def defs)
  show "law_restore demo_world demo_view" by (auto simp: law_restore_def defs)
  show "law_diff demo_world demo_view"
    by (auto simp: law_diff_def defs demo_diff_paths demo_tree_def one_file_def)
qed

definition demo_remote :: remote where
  "demo_remote = \<lparr>rm_url = None, rm_branch = ''main'', rm_token = None, rm_author = (''kb'', ''kb@example.org'')\<rparr>"

definition demo_before :: demo_clone where
  "demo_before = \<lparr>dc_new = False, dc_work = Some ''new'', dc_saved = (False, None)\<rparr>"

definition demo_after :: demo_clone where
  "demo_after = demo_before\<lparr>dc_new := True\<rparr>"


end
