(* ===== verification/WritePipeline.thy ===== *)
theory WritePipeline
  imports GitSync Paths Reindex Validate
begin

text \<open>
  The create and edit pipeline of \<open>src/src/write.rs\<close>: \<open>apply_change\<close>, \<open>write_or_undo\<close> and \<open>write_document\<close> with
  its attempts, over the git operations of \<open>GitSync\<close>, the queue of \<open>Reindex\<close>, the path inspection and
  filters of \<open>Paths\<close> and the validation of \<open>Validate\<close>. The state is the clone, the re-index queue and a flag
  set by the error logs that ask for operator attention. Paths given to the file system are relative to
  the data root. The schemas are those of the cache the call sees.
\<close>

section \<open>Requests, errors and results\<close>

datatype write_error =
    SchemaFileRefused string
  | ValidationFailed validation_result
  | DedupHit string string string
  | InvalidCommitMessage string
  | UnsafePath string
  | InternalErr string
  | AlreadyExists
  | NotFoundErr
  | EditedElsewhere
  | VersionRequired
  | InvalidEdit string
  | PreCommitFailed bool "git_error list"
  | IoErr string

datatype write_outcome = Synced | CommittedPendingSync

record write_success =
  ws_outcome :: write_outcome
  ws_sha :: string
  ws_rebased_paths :: "string list"
  ws_diff :: string
  ws_merged :: bool
  ws_version :: "string option"
  ws_related :: "(string \<times> string) list"
  ws_rewritten :: "string list"
  ws_referencing :: "string list"
  ws_status_set :: bool

datatype doc_change =
    Create string
  | Replace string
  | Relative "string \<Rightarrow> string + string"
  | Keep

fun is_create :: "doc_change \<Rightarrow> bool" where
  "is_create (Create _) = True"
| "is_create _ = False"

fun is_keep :: "doc_change \<Rightarrow> bool" where
  "is_keep Keep = True"
| "is_keep _ = False"

fun is_absolute :: "doc_change \<Rightarrow> bool" where
  "is_absolute (Replace _) = True"
| "is_absolute Keep = True"
| "is_absolute _ = False"

record applied =
  ap_content :: string
  ap_merged :: bool

record write_request =
  wr_rel_path :: string
  wr_change :: doc_change
  wr_message :: "string option"
  wr_default_verb :: string
  wr_force_new :: "bool option"
  wr_operation :: string
  wr_expected_version :: "string option"

datatype path_safety_error = Rejected string | InternalPath string

datatype read_result = ReadContent string | ReadMissing | ReadFailed string

text \<open>
  What the pipeline is given. Parameters for code outside: the symlink-free view of the clone and the
  resolution behind links (\<open>wd_tree\<close>, \<open>wd_follow\<close>), the canonical-ancestor check, reading a file, creating
  parent directories, the frontmatter parser, the lint run, the nearest-neighbour search with the value
  of a score, git's blob id and the diff renderer.
\<close>

record 'r write_deps =
  wd_world :: "'r world"
  wd_remote :: remote
  wd_globs :: globs
  wd_include_patterns :: "string list"
  wd_indexing :: indexing_config
  wd_tree :: "'r \<Rightarrow> node"
  wd_follow :: "string \<Rightarrow> string list \<Rightarrow> stat"
  wd_inside :: "string \<Rightarrow> 'r \<Rightarrow> string + bool"
  wd_read :: "string \<Rightarrow> 'r \<Rightarrow> read_result"
  wd_mkdirs :: "string \<Rightarrow> 'r \<Rightarrow> string option \<times> 'r"
  wd_scopes :: "(string list \<times> resolved_schema) list"
  wd_root_schema :: resolved_schema
  wd_values :: value_env
  wd_parse_raw :: "string \<Rightarrow> jobj \<times> string"
  wd_lint :: "string list \<Rightarrow> lint_run"
  wd_validation :: validation_config
  wd_prepend_description :: bool
  wd_dedup_enabled :: bool
  wd_dedup_threshold :: string
  wd_related_min_score :: string
  wd_related_limit :: nat
  wd_search :: "string \<Rightarrow> nat \<Rightarrow> (string \<times> string) list option"
  wd_score :: "string \<Rightarrow> int"
  wd_version :: "string \<Rightarrow> string"
  wd_diff :: "string \<Rightarrow> string \<Rightarrow> string \<Rightarrow> string"

record 'r pipe =
  pi_repo :: 'r
  pi_queue :: reindex_queue
  pi_attention :: bool

definition MAX_WRITE_ATTEMPTS :: nat where
  "MAX_WRITE_ATTEMPTS = 3"

definition MAX_CONTENT_LEN :: nat where
  "MAX_CONTENT_LEN = 512 * 1024"

section \<open>Guards\<close>

definition quote_path :: "string \<Rightarrow> string" where
  "quote_path p = ''path '' @ CHR 39 # p @ [CHR 39]"

definition check_not_schema_file :: "string \<Rightarrow> (write_error, unit) outcome" where
  "check_not_schema_file rel_path =
     (if is_schema_file_path rel_path then Err (SchemaFileRefused rel_path) else Ok ())"

definition check_include_pattern_against ::
    "globs \<Rightarrow> string list \<Rightarrow> indexing_config \<Rightarrow> string \<Rightarrow> (write_error, unit) outcome" where
  "check_include_pattern_against lib include_patterns indexing rel_path =
     (let normalized = kb_root_relative rel_path
      in if \<not> set_matches lib include_patterns normalized
         then Err (UnsafePath (quote_path rel_path @ '' does not match any indexable include pattern ''
           @ ''(e.g. must be a markdown file under an included path)''))
         else case path_filter_from_config lib indexing of
           Ok f \<Rightarrow>
             if \<not> is_indexable lib f normalized
             then Err (UnsafePath (quote_path rel_path
               @ '' is excluded from indexing (it matches an exclusion rule), so a document written there would never be searchable''))
             else Ok ()
         | _ \<Rightarrow> Ok ())"

definition check_include_pattern :: "'r write_deps \<Rightarrow> string \<Rightarrow> (write_error, unit) outcome" where
  "check_include_pattern d rel_path =
     check_include_pattern_against (wd_globs d) (wd_include_patterns d) (wd_indexing d) rel_path"

text \<open>
  \<open>inside\<close> says whether the canonical form of the deepest existing ancestor lies under the canonical root,
  or why it could not be computed. The lexical check before it cannot fail: a relative path without \<open>..\<close>
  joined to the root starts with the root.
\<close>

definition resolve_safe_write_path ::
    "(string \<Rightarrow> (kb_path_error, kb_entry) outcome) \<Rightarrow> (string \<Rightarrow> string + bool) \<Rightarrow> string
       \<Rightarrow> (path_safety_error, string) outcome" where
  "resolve_safe_write_path inspect inside rel_path =
     (let rel = kb_root_relative rel_path
      in if RootDir \<in> set (components rel) then Err (Rejected ''path must be relative to the knowledge base root'')
         else if ParentDir \<in> set (components rel)
         then Err (Rejected (''path must not contain '' @ CHR 39 # ''..'' @ CHR 39 # '' components''))
         else case inspect rel of
           Ok Other \<Rightarrow> Err (Rejected ''path is not a regular file or directory'')
         | Ok _ \<Rightarrow>
             (case inside rel of
                Inl e \<Rightarrow> Err (InternalPath e)
              | Inr within \<Rightarrow>
                  if within then Ok rel
                  else Err (Rejected ''path escapes the knowledge base root (symlink detected)''))
         | Err GitDir \<Rightarrow> Err (Rejected ''path names a reserved directory'')
         | Err Symlink \<Rightarrow> Err (Rejected ''path must not be or pass through a symlink'')
         | Err NotRelative \<Rightarrow> Err (Rejected ''path must be relative to the knowledge base root'')
         | Err Io \<Rightarrow> Err (InternalPath (''cannot inspect '' @ rel))
         | Panic \<Rightarrow> Panic)"

definition safe_write_path :: "'r write_deps \<Rightarrow> string \<Rightarrow> 'r \<Rightarrow> (write_error, string) outcome" where
  "safe_write_path d rel_path r =
     map_err (\<lambda>e. case e of
         Rejected msg \<Rightarrow> UnsafePath (''Invalid path: '' @ msg)
       | InternalPath msg \<Rightarrow> InternalErr (''Invalid path: '' @ msg))
       (resolve_safe_write_path (inspect_kb_path (wd_follow d) (wd_tree d r)) (\<lambda>p. wd_inside d p r) rel_path)"

definition check_commit_message :: "string option \<Rightarrow> (write_error, unit) outcome" where
  "check_commit_message message = map_err InvalidCommitMessage (validate_commit_message message)"

section \<open>Validation and the duplicate gate\<close>

definition schema_of :: "'r write_deps \<Rightarrow> string \<Rightarrow> resolved_schema" where
  "schema_of d rel_path = resolve_for (wd_scopes d) (wd_root_schema d) (map component_str (components rel_path))"

definition authored_derived_field :: "jobj \<Rightarrow> resolved_schema \<Rightarrow> (string \<times> string) option" where
  "authored_derived_field frontmatter schema =
     map_option (\<lambda>field. (field, CHR 0x60 # field @ CHR 0x60
         # '' is set from the document'' @ CHR 39 # ''s folder; remove it from the frontmatter''))
       (find (\<lambda>field. map_of frontmatter field \<noteq> None) (map fst (sc_derived schema)))"

definition validate_document ::
    "'r write_deps \<Rightarrow> string \<Rightarrow> string \<Rightarrow> write_error + (jobj \<times> string) option" where
  "validate_document d rel_path content =
     (let schema = schema_of d rel_path in
      case validate_content (wd_values d) (wd_parse_raw d) (wd_lint d) rel_path content schema (wd_validation d) of
        (result, validated) \<Rightarrow>
          let result =
            (case if vc_enabled (wd_validation d)
                  then authored_derived_field (fst (wd_parse_raw d content)) schema else None of
               None \<Rightarrow> result
             | Some (field, message) \<Rightarrow>
                 result\<lparr>vr_valid := False, vr_errors := vr_errors result @ [message],
                   vr_field_errors := vr_field_errors result @
                     [\<lparr>fe_field = field, fe_rule = ''derived'', fe_message = message, fe_got = None, fe_expected = None,
                       fe_schema_origin = None\<rparr>]\<rparr>)
          in if vr_valid result then Inr validated else Inl (ValidationFailed result))"

text \<open>
  A score is kept as its text and compared by its value, in units of the least positive \<open>f32\<close>; the
  service returns no not-a-number. The sort is stable and descending.
\<close>

definition DEDUP_QUERY_CHAR_LIMIT :: nat where
  "DEDUP_QUERY_CHAR_LIMIT = 2000"

definition build_dedup_query :: "string \<Rightarrow> string option \<Rightarrow> bool \<Rightarrow> string" where
  "build_dedup_query body description prepend_description =
     concat (take DEDUP_QUERY_CHAR_LIMIT
       (chars (case (prepend_description, description) of
          (True, Some desc) \<Rightarrow> desc @ [newline, newline] @ body
        | _ \<Rightarrow> body)))"

definition dedup_verdict ::
    "(string \<Rightarrow> int) \<Rightarrow> (string \<times> string) option \<Rightarrow> string \<Rightarrow> (string \<times> string) option" where
  "dedup_verdict value nearest threshold =
     (case nearest of
        Some (path, score) \<Rightarrow> if value threshold \<le> value score then Some (path, score) else None
      | None \<Rightarrow> None)"

definition relate_hit ::
    "(string \<Rightarrow> int) \<Rightarrow> string \<Rightarrow> string \<Rightarrow> nat \<Rightarrow> (string \<times> string) list \<Rightarrow> string \<times> string \<Rightarrow> (string \<times> string) list" where
  "relate_hit value own min_score limit out hit =
     (case hit of (path, score) \<Rightarrow>
        if limit \<le> length out then out
        else if path = [] \<or> value score < value min_score \<or> kb_root_relative path = own
          \<or> list_ex (\<lambda>r. fst r = path) out then out
        else out @ [(path, score)])"

definition related_from_hits ::
    "(string \<Rightarrow> int) \<Rightarrow> (string \<times> string) list \<Rightarrow> string \<Rightarrow> string \<Rightarrow> nat \<Rightarrow> (string \<times> string) list" where
  "related_from_hits value hits own_path min_score limit =
     foldl (relate_hit value (kb_root_relative own_path) min_score limit) []
       (sort_key (\<lambda>hit. - value (snd hit)) hits)"

definition effective_dedup :: "'r write_deps \<Rightarrow> resolved_schema \<Rightarrow> bool \<times> string" where
  "effective_dedup d schema =
     ((case sc_dedup_enabled schema of Some b \<Rightarrow> b | None \<Rightarrow> wd_dedup_enabled d),
      (case sc_dedup_threshold schema of Some t \<Rightarrow> t | None \<Rightarrow> wd_dedup_threshold d))"

definition effective_related :: "'r write_deps \<Rightarrow> resolved_schema \<Rightarrow> nat \<times> string" where
  "effective_related d schema =
     ((case sc_related_limit schema of Some n \<Rightarrow> n | None \<Rightarrow> wd_related_limit d),
      (case sc_related_min_score schema of Some m \<Rightarrow> m | None \<Rightarrow> wd_related_min_score d))"

definition dedup_query :: "'r write_deps \<Rightarrow> (jobj \<times> string) option \<Rightarrow> string" where
  "dedup_query d validated =
     (case validated of
        None \<Rightarrow> []
      | Some (frontmatter, body) \<Rightarrow>
          build_dedup_query body
            (case map_of frontmatter ''description'' of Some (JString s) \<Rightarrow> Some s | _ \<Rightarrow> None)
            (wd_prepend_description d))"

definition dedup_gate ::
    "'r write_deps \<Rightarrow> string \<Rightarrow> (jobj \<times> string) option \<Rightarrow> bool option \<Rightarrow> write_error + (string \<times> string) list" where
  "dedup_gate d rel_path validated force_new =
     (case effective_dedup d (schema_of d rel_path) of
        (dedup_enabled, dedup_threshold) \<Rightarrow>
          (case effective_related d (schema_of d rel_path) of
             (related_limit, related_min_score) \<Rightarrow>
               if \<not> dedup_enabled \<or> force_new = Some True then Inr []
               else
                 let query_text = dedup_query d validated
                 in if trim query_text = [] then Inr []
                    else case wd_search d query_text (max related_limit 1) of
                      None \<Rightarrow> Inr []
                    | Some hits \<Rightarrow>
                        (case dedup_verdict (wd_score d) (case hits of [] \<Rightarrow> None | h # _ \<Rightarrow> Some h) dedup_threshold of
                           Some (path, score) \<Rightarrow> Inl (DedupHit path score dedup_threshold)
                         | None \<Rightarrow>
                             Inr (related_from_hits (wd_score d) hits rel_path related_min_score related_limit))))"

section \<open>The new content\<close>

definition versions_match :: "'r write_deps \<Rightarrow> string \<Rightarrow> string \<Rightarrow> bool" where
  "versions_match d expected current \<longleftrightarrow> eq_ignore_ascii_case (trim expected) (wd_version d current)"

definition plain :: "string \<Rightarrow> applied" where
  "plain content = \<lparr>ap_content = content, ap_merged = False\<rparr>"

definition merge_stale ::
    "'r write_deps \<Rightarrow> string \<Rightarrow> string \<Rightarrow> string \<Rightarrow> 'r \<Rightarrow> (write_error + applied) \<times> 'r" where
  "merge_stale d e current content r =
     (case cat_blob (wd_world d) (map ascii_lower (trim e)) r of
        (Inl _, r) \<Rightarrow> (Inl EditedElsewhere, r)
      | (Inr None, r) \<Rightarrow> (Inl EditedElsewhere, r)
      | (Inr (Some base), r) \<Rightarrow>
          (case merge_text (wd_world d) base current content r of
             (Inl _, r) \<Rightarrow> (Inl EditedElsewhere, r)
           | (Inr (Some merged), r) \<Rightarrow> (Inr \<lparr>ap_content = merged, ap_merged = True\<rparr>, r)
           | (Inr None, r) \<Rightarrow> (Inl EditedElsewhere, r)))"

fun apply_change ::
    "'r write_deps \<Rightarrow> doc_change \<Rightarrow> string \<Rightarrow> string option \<Rightarrow> string option \<Rightarrow> 'r \<Rightarrow> (write_error + applied) \<times> 'r" where
  "apply_change d (Create content) current expected pre_read r = (Inr (plain content), r)"
| "apply_change d Keep current expected pre_read r =
     (case expected of
        None \<Rightarrow> (Inl VersionRequired, r)
      | Some e \<Rightarrow> if versions_match d e current then (Inr (plain current), r) else (Inl EditedElsewhere, r))"
| "apply_change d (Replace content) current expected pre_read r =
     (case expected of
        None \<Rightarrow> (Inl VersionRequired, r)
      | Some e \<Rightarrow>
          if versions_match d e current then (Inr (plain content), r) else merge_stale d e current content r)"
| "apply_change d (Relative edit) current expected pre_read r =
     (case edit current of
        Inr content \<Rightarrow>
          if MAX_CONTENT_LEN < length content \<and> length current < length content
          then (Inl (InvalidEdit (''the edited document would be too large ('' @ dec (length content)
                  @ '' bytes); maximum is '' @ dec MAX_CONTENT_LEN @ '' bytes'')), r)
          else (Inr \<lparr>ap_content = content,
                  ap_merged = (case expected of Some e \<Rightarrow> \<not> versions_match d e current | None \<Rightarrow> False)\<rparr>, r)
      | Inl msg \<Rightarrow>
          (let stale = (case expected of
               Some e \<Rightarrow> \<not> versions_match d e current
             | None \<Rightarrow>
                 (case pre_read of
                    Some p \<Rightarrow> p \<noteq> current \<and> (case edit p of Inr _ \<Rightarrow> True | Inl _ \<Rightarrow> False)
                  | None \<Rightarrow> False))
           in (Inl (if stale then EditedElsewhere else InvalidEdit msg), r)))"

section \<open>Steps on the state\<close>

definition on_repo :: "('r \<Rightarrow> 'a \<times> 'r) \<Rightarrow> 'r pipe \<Rightarrow> 'a \<times> 'r pipe" where
  "on_repo f s = (case f (pi_repo s) of (a, r) \<Rightarrow> (a, s\<lparr>pi_repo := r\<rparr>))"

definition mark_dirty :: "'r write_deps \<Rightarrow> string list \<Rightarrow> 'r pipe \<Rightarrow> 'r pipe" where
  "mark_dirty d paths s =
     s\<lparr>pi_queue := mark_paths (fst (partition_indexable (wd_globs d) (wd_indexing d) paths))
         (snd (mark_schema_changes (wd_globs d) (wd_indexing d) paths (pi_queue s)))\<rparr>"

definition ask_attention :: "'r pipe \<Rightarrow> 'r pipe" where
  "ask_attention s = s\<lparr>pi_attention := True\<rparr>"

definition sync_clone :: "'r write_deps \<Rightarrow> string option \<Rightarrow> 'r pipe \<Rightarrow> string option \<times> 'r pipe" where
  "sync_clone d since s =
     (case (case since of Some sha \<Rightarrow> (Some sha, s) | None \<Rightarrow> on_repo (head_if_repo (wd_world d)) s) of
        (before, s) \<Rightarrow>
          let s = s\<lparr>pi_repo := sync_to_remote (wd_world d) (wd_remote d) (pi_repo s)\<rparr>
          in case on_repo (head_if_repo (wd_world d)) s of
            (after, s) \<Rightarrow>
              (case (before, after) of
                 (Some b, Some a) \<Rightarrow>
                   if b = a then (after, s)
                   else (case on_repo (git_diff_name_status (wd_world d) b a) s of
                     (Inr paths, s) \<Rightarrow> (after, mark_dirty d paths s)
                   | (Inl _, s) \<Rightarrow> (after, s\<lparr>pi_queue := mark_full (pi_queue s)\<rparr>))
               | _ \<Rightarrow> (after, s)))"

definition undo_write :: "'r write_deps \<Rightarrow> string \<Rightarrow> string option \<Rightarrow> 'r pipe \<Rightarrow> 'r pipe" where
  "undo_write d path previous s =
     (case on_repo (case previous of
          Some content \<Rightarrow> w_write (wd_world d) path content
        | None \<Rightarrow> w_remove (wd_world d) path) s of
        (None, s) \<Rightarrow> s
      | (Some _, s) \<Rightarrow> ask_attention s)"

definition write_or_undo ::
    "'r write_deps \<Rightarrow> string \<Rightarrow> string option \<Rightarrow> string \<Rightarrow> 'r pipe \<Rightarrow> write_error option \<times> 'r pipe" where
  "write_or_undo d path previous content s =
     (case on_repo (w_write (wd_world d) path content) s of
        (None, s) \<Rightarrow> (None, s)
      | (Some e, s) \<Rightarrow> (Some (IoErr (''Failed to write file: '' @ e)), undo_write d path previous s))"

text \<open>Paths are compared by their components.\<close>

definition rebase_touched :: "string list \<Rightarrow> string list \<Rightarrow> bool" where
  "rebase_touched rebased own = list_ex (\<lambda>p. list_ex (\<lambda>q. components q = components p) own) rebased"

definition rollback :: "'r write_deps \<Rightarrow> bool \<Rightarrow> string \<Rightarrow> string \<Rightarrow> 'r \<Rightarrow> (git_error + unit) \<times> 'r" where
  "rollback d creating abs_path rel_path r =
     (if creating
      then (case w_remove (wd_world d) abs_path r of
          (None, r) \<Rightarrow> unstage (wd_world d) rel_path r
        | (Some e, r) \<Rightarrow> (Inl (Within ''Failed to remove newly-written file during rollback'' (Message e)), r))
      else restore_from_head (wd_world d) rel_path r)"

section \<open>One attempt\<close>

type_synonym write_result = "(write_error, write_success) outcome"

datatype attempt = Finished write_result | TryAgain

text \<open>Writing the new content: what was there before and what was applied, or the end of the request.\<close>

definition write_created ::
    "'r write_deps \<Rightarrow> string \<Rightarrow> string \<Rightarrow> 'r pipe \<Rightarrow> (write_result + string \<times> applied) \<times> 'r pipe" where
  "write_created d abs_path content s =
     (case on_repo (w_create (wd_world d) abs_path) s of
        (CreateExists, s) \<Rightarrow> (Inl (Err AlreadyExists), s)
      | (CreateFailed e, s) \<Rightarrow> (Inl (Err (IoErr (''Failed to create file: '' @ e))), s)
      | (Created, s) \<Rightarrow>
          (case write_or_undo d abs_path None content s of
             (Some e, s) \<Rightarrow> (Inl (Err e), s)
           | (None, s) \<Rightarrow> (Inr ([], plain content), s)))"

definition unchanged_success ::
    "'r write_deps \<Rightarrow> (string \<times> string) list \<Rightarrow> string option \<Rightarrow> string \<Rightarrow> bool \<Rightarrow> write_success" where
  "unchanged_success d related head current merged =
     \<lparr>ws_outcome = Synced, ws_sha = (case head of Some h \<Rightarrow> h | None \<Rightarrow> []), ws_rebased_paths = [], ws_diff = [],
      ws_merged = merged, ws_version = Some (wd_version d current), ws_related = related,
      ws_rewritten = [], ws_referencing = [], ws_status_set = False\<rparr>"

definition write_changed ::
    "'r write_deps \<Rightarrow> write_request \<Rightarrow> (string \<times> string) list \<Rightarrow> string option \<Rightarrow> string option \<Rightarrow> string \<Rightarrow> 'r pipe
       \<Rightarrow> (write_result + string \<times> applied) \<times> 'r pipe" where
  "write_changed d req related pre_read head abs_path s =
     (case wd_read d abs_path (pi_repo s) of
        ReadFailed e \<Rightarrow> (Inl (Err (IoErr (''Failed to read existing file: '' @ e))), s)
      | ReadMissing \<Rightarrow> (Inl (Err NotFoundErr), s)
      | ReadContent current \<Rightarrow>
          (case on_repo (apply_change d (wr_change req) current (wr_expected_version req) pre_read) s of
             (Inl e, s) \<Rightarrow> (Inl (Err e), s)
           | (Inr ap, s) \<Rightarrow>
               (case validate_document d (wr_rel_path req) (ap_content ap) of
                  Inl e \<Rightarrow> (Inl (Err e), s)
                | Inr _ \<Rightarrow>
                    if ap_content ap = current
                    then (Inl (Ok (unchanged_success d related head current (ap_merged ap))), s)
                    else (case write_or_undo d abs_path (Some current) (ap_content ap) s of
                      (Some e, s) \<Rightarrow> (Inl (Err e), s)
                    | (None, s) \<Rightarrow> (Inr (current, ap), s)))))"

definition landed_success ::
    "'r write_deps \<Rightarrow> (string \<times> string) list \<Rightarrow> write_outcome \<Rightarrow> string \<Rightarrow> string list \<Rightarrow> string \<Rightarrow> bool \<Rightarrow> string option
       \<Rightarrow> write_success" where
  "landed_success d related outcome sha rebased_paths diff merged version =
     \<lparr>ws_outcome = outcome, ws_sha = sha, ws_rebased_paths = rebased_paths, ws_diff = diff, ws_merged = merged,
      ws_version = version, ws_related = related,
      ws_rewritten = [], ws_referencing = [], ws_status_set = False\<rparr>"

definition commit_written ::
    "'r write_deps \<Rightarrow> write_request \<Rightarrow> (string \<times> string) list \<Rightarrow> string \<Rightarrow> string \<times> applied \<Rightarrow> 'r pipe
       \<Rightarrow> attempt \<times> 'r pipe" where
  "commit_written d req related abs_path written s =
     (case written of (old_content, ap) \<Rightarrow>
        let rel_path = wr_rel_path req;
            commit_message = build_commit_message (wr_message req)
              (''docs: '' @ wr_default_verb req @ '' '' @ rel_path) (wr_operation req);
            diff = wd_diff d old_content (ap_content ap) rel_path
        in case on_repo (commit_and_sync (wd_world d) (wd_remote d) [rel_path] commit_message) s of
          (Inl (PreCommit source), s) \<Rightarrow>
            (case on_repo (rollback d (is_create (wr_change req)) abs_path rel_path) s of
               (Inr _, s) \<Rightarrow> (Finished (Err (PreCommitFailed True [source])), s)
             | (Inl e, s) \<Rightarrow> (Finished (Err (PreCommitFailed False [source, e])), ask_attention s))
        | (Inl (PostCommit sha source rebased_paths), s) \<Rightarrow>
            (Finished (Ok (landed_success d related CommittedPendingSync sha [] diff (ap_merged ap)
               (Some (wd_version d (ap_content ap))))),
             mark_dirty d (rel_path # rebased_paths) s)
        | (Inl (Conflict source), s) \<Rightarrow> (TryAgain, s)
        | (Inr oc, s) \<Rightarrow>
            let s = mark_dirty d (rel_path # co_rebased_paths oc) s;
                rebase_merged = rebase_touched (co_rebased_paths oc) [rel_path];
                version = (if rebase_merged
                  then (case wd_read d abs_path (pi_repo s) of ReadContent c \<Rightarrow> Some (wd_version d c) | _ \<Rightarrow> None)
                  else Some (wd_version d (ap_content ap)))
            in (Finished (Ok (landed_success d related Synced (co_sha oc) (co_rebased_paths oc) diff
                  (ap_merged ap \<or> rebase_merged) version)), s))"

definition write_attempt ::
    "'r write_deps \<Rightarrow> write_request \<Rightarrow> (string \<times> string) list \<Rightarrow> string option \<Rightarrow> string option \<Rightarrow> 'r pipe
       \<Rightarrow> attempt \<times> 'r pipe" where
  "write_attempt d req related pre_read head s =
     (case safe_write_path d (wr_rel_path req) (pi_repo s) of
        Err e \<Rightarrow> (Finished (Err e), s)
      | Panic \<Rightarrow> (Finished Panic, s)
      | Ok path \<Rightarrow>
          (case on_repo (wd_mkdirs d path) s of
             (Some e, s) \<Rightarrow> (Finished (Err (IoErr (''Failed to create parent directories: '' @ e))), s)
           | (None, s) \<Rightarrow>
               (case safe_write_path d (wr_rel_path req) (pi_repo s) of
                  Err e \<Rightarrow> (Finished (Err e), s)
                | Panic \<Rightarrow> (Finished Panic, s)
                | Ok abs_path \<Rightarrow>
                    (case (case wr_change req of
                        Create content \<Rightarrow> write_created d abs_path content s
                      | _ \<Rightarrow> write_changed d req related pre_read head abs_path s) of
                       (Inl res, s) \<Rightarrow> (Finished res, s)
                     | (Inr written, s) \<Rightarrow> commit_written d req related abs_path written s))))"

fun write_attempts ::
    "nat \<Rightarrow> 'r write_deps \<Rightarrow> write_request \<Rightarrow> (string \<times> string) list \<Rightarrow> string option \<Rightarrow> string option \<Rightarrow> 'r pipe
       \<Rightarrow> write_result \<times> 'r pipe" where
  "write_attempts 0 d req related pre_read head s = (Err EditedElsewhere, s)"
| "write_attempts (Suc n) d req related pre_read head s =
     (case write_attempt d req related pre_read head s of
        (Finished res, s) \<Rightarrow> (res, s)
      | (TryAgain, s) \<Rightarrow>
          (case sync_clone d head s of (head, s) \<Rightarrow> write_attempts n d req related pre_read head s))"

section \<open>The whole request\<close>

definition request_guards :: "'r write_deps \<Rightarrow> write_request \<Rightarrow> 'r \<Rightarrow> (write_error, unit) outcome" where
  "request_guards d req r =
     bind_outcome (check_not_schema_file (wr_rel_path req)) (\<lambda>_.
     bind_outcome (check_include_pattern d (wr_rel_path req)) (\<lambda>_.
     bind_outcome (safe_write_path d (wr_rel_path req) r) (\<lambda>_.
       if is_keep (wr_change req)
       then Err (InternalErr ''write_document called with no content change and no destination'')
       else if is_absolute (wr_change req) \<and> wr_expected_version req = None then Err VersionRequired
       else if is_create (wr_change req) \<and> wr_expected_version req \<noteq> None then Err NotFoundErr
       else Ok ())))"

definition create_gate :: "'r write_deps \<Rightarrow> write_request \<Rightarrow> (write_error, (string \<times> string) list) outcome" where
  "create_gate d req =
     (case wr_change req of
        Create content \<Rightarrow>
          (case validate_document d (wr_rel_path req) content of
             Inl e \<Rightarrow> Err e
           | Inr validated \<Rightarrow>
               (case dedup_gate d (wr_rel_path req) validated (wr_force_new req) of
                  Inl e \<Rightarrow> Err e
                | Inr related \<Rightarrow> Ok related))
      | _ \<Rightarrow> Ok [])"

definition pre_read_of :: "'r write_deps \<Rightarrow> write_request \<Rightarrow> 'r \<Rightarrow> (write_error, string option) outcome" where
  "pre_read_of d req r =
     (if is_create (wr_change req) then Ok None
      else bind_outcome (safe_write_path d (wr_rel_path req) r) (\<lambda>path.
        case wd_read d path r of
          ReadContent c \<Rightarrow> Ok (Some c)
        | ReadMissing \<Rightarrow> Ok None
        | ReadFailed e \<Rightarrow> Err (IoErr (''Failed to read existing file: '' @ e))))"

definition before_lock ::
    "'r write_deps \<Rightarrow> write_request \<Rightarrow> 'r \<Rightarrow> (write_error, (string \<times> string) list \<times> string option) outcome" where
  "before_lock d req r =
     bind_outcome (request_guards d req r) (\<lambda>_.
     bind_outcome (create_gate d req) (\<lambda>related.
     bind_outcome (check_commit_message (wr_message req)) (\<lambda>_.
     bind_outcome (pre_read_of d req r) (\<lambda>pre_read. Ok (related, pre_read)))))"

definition write_document :: "'r write_deps \<Rightarrow> write_request \<Rightarrow> 'r pipe \<Rightarrow> write_result \<times> 'r pipe" where
  "write_document d req s =
     (case before_lock d req (pi_repo s) of
        Err e \<Rightarrow> (Err e, s)
      | Panic \<Rightarrow> (Panic, s)
      | Ok (related, pre_read) \<Rightarrow>
          (case sync_clone d None s of
             (head, s) \<Rightarrow> write_attempts MAX_WRITE_ATTEMPTS d req related pre_read head s))"

end
