(* ===== verification/WriteSpec.thy ===== *)
theory WriteSpec
  imports WritePipeline GitLaws
begin

text \<open>
  What a write leaves behind. The laws of the file system are stated over the view of \<open>GitLaws\<close>, as
  named hypotheses; like the laws of git they do not say which operation succeeds. Shown: the document
  is never left with an uncommitted change, the version reported is the version of what HEAD holds, and
  the re-index queue learns of every path whose committed content changed.
\<close>

section \<open>The laws of the file system\<close>

definition document_path :: "string \<Rightarrow> bool" where
  "document_path p \<longleftrightarrow> collect_names (components p) \<noteq> Err GitDir"

definition same_files :: "'r clone_view \<Rightarrow> 'r \<Rightarrow> 'r \<Rightarrow> bool" where
  "same_files v r r' \<longleftrightarrow> cv_head v r' = cv_head v r \<and> cv_work v r' = cv_work v r"

text \<open>Only the file at the path may differ.\<close>

definition same_but :: "'r clone_view \<Rightarrow> string \<Rightarrow> 'r \<Rightarrow> 'r \<Rightarrow> bool" where
  "same_but v p r r' \<longleftrightarrow> cv_head v r' = cv_head v r \<and> (\<forall>q. q \<noteq> p \<longrightarrow> cv_work v r' q = cv_work v r q)"

definition law_write :: "'r world \<Rightarrow> 'r clone_view \<Rightarrow> bool" where
  "law_write w v \<longleftrightarrow>
     (\<forall>p c r x r'. w_write w p c r = (x, r') \<longrightarrow>
        (if document_path p then same_but v p r r' \<and> (x = None \<longrightarrow> cv_work v r' p = Some c) else same_files v r r'))"

definition law_create :: "'r world \<Rightarrow> 'r clone_view \<Rightarrow> bool" where
  "law_create w v \<longleftrightarrow>
     (\<forall>p r x r'. document_path p \<longrightarrow> w_create w p r = (x, r') \<longrightarrow>
        (if x = Created then same_but v p r r' \<and> cv_work v r p = None else same_files v r r'))"

definition law_remove :: "'r world \<Rightarrow> 'r clone_view \<Rightarrow> bool" where
  "law_remove w v \<longleftrightarrow>
     (\<forall>p r x r'. w_remove w p r = (x, r') \<longrightarrow>
        (if document_path p \<and> x = None then same_but v p r r' \<and> cv_work v r' p = None else same_files v r r'))"

definition law_mkdirs :: "'r write_deps \<Rightarrow> 'r clone_view \<Rightarrow> bool" where
  "law_mkdirs d v \<longleftrightarrow> (\<forall>p r. same_files v r (snd (wd_mkdirs d p r)))"

definition law_read :: "'r write_deps \<Rightarrow> 'r clone_view \<Rightarrow> bool" where
  "law_read d v \<longleftrightarrow> (\<forall>p r c. wd_read d p r = ReadContent c \<longrightarrow> cv_work v r p = Some c)"

definition file_laws :: "'r write_deps \<Rightarrow> 'r clone_view \<Rightarrow> bool" where
  "file_laws d v \<longleftrightarrow>
     law_write (wd_world d) v \<and> law_create (wd_world d) v \<and> law_remove (wd_world d) v \<and> law_mkdirs d v \<and> law_read d v"

lemma file_lawsD:
  assumes "file_laws d v"
  shows "law_write (wd_world d) v" "law_create (wd_world d) v" "law_remove (wd_world d) v" "law_mkdirs d v" "law_read d v"
  using assms by (simp_all add: file_laws_def)

lemma same_files_refl [simp]: "same_files v r r"
  by (simp add: same_files_def)

lemma same_files_trans: "same_files v r s \<Longrightarrow> same_files v s t \<Longrightarrow> same_files v r t"
  by (simp add: same_files_def)

lemma same_view_files: "same_view v r s \<Longrightarrow> same_files v r s"
  by (simp add: same_view_def same_files_def)

lemma same_filesD:
  assumes "same_files v r s"
  shows "cv_head v s = cv_head v r" "cv_work v s = cv_work v r" "committed v s = committed v r" "clean v s p = clean v r p"
  using assms by (simp_all add: same_files_def committed_def clean_def)

lemma same_butD:
  assumes "same_but v p r s"
  shows "cv_head v s = cv_head v r" "committed v s = committed v r"
  using assms by (simp_all add: same_but_def committed_def)

lemma same_files_but: "same_files v r s \<Longrightarrow> same_but v p r s"
  by (simp add: same_files_def same_but_def)

lemma merge_scratch: "\<not> document_path MERGE_OURS" "\<not> document_path MERGE_BASE" "\<not> document_path MERGE_THEIRS"
  by code_simp+

section \<open>Steps that keep the files\<close>

lemma write_files_scratch:
  assumes "law_write w v" "list_all (\<lambda>(p, _). \<not> document_path p) ws"
  shows "same_files v r (snd (write_files w ws r))"
  using assms(2)
proof (induction ws arbitrary: r)
  case (Cons f ws)
  obtain p c where f: "f = (p, c)" by fastforce
  obtain x s where x: "w_write w p c r = (x, s)" by fastforce
  have "same_files v r s" using assms(1) x Cons.prems f by (auto simp: law_write_def)
  then show ?case using Cons x f by (auto intro: same_files_trans split: option.split)
qed simp

lemma remove_files_scratch:
  assumes "law_remove w v" "list_all (\<lambda>p. \<not> document_path p) ps"
  shows "same_files v r (remove_files w ps r)"
  using assms(2)
proof (induction ps arbitrary: r)
  case (Cons p ps)
  obtain x s where x: "w_remove w p r = (x, s)" by fastforce
  have "same_files v r s" using assms(1) x Cons.prems by (auto simp: law_remove_def)
  then show ?case using Cons.IH [of s] Cons.prems x by (auto simp: remove_files_def intro: same_files_trans)
qed (simp add: remove_files_def)

lemma law_quiet_files:
  assumes "git_laws w v" "quiet args" "w_git w author args r = (x, r')"
  shows "same_files v r r'"
proof -
  have "same_view v r (snd (w_git w author args r))"
    using git_lawsD(1) [OF assms(1)] assms(2) by (simp add: law_quiet_def)
  then show ?thesis using assms(3) by (simp add: same_view_files)
qed

lemma merge_text_files:
  assumes "git_laws w v" "law_write w v" "law_remove w v" "merge_text w base ours theirs r = (x, r')"
  shows "same_files v r r'"
proof -
  obtain y s where y: "write_files w [(MERGE_OURS, ours), (MERGE_BASE, base), (MERGE_THEIRS, theirs)] r = (y, s)" by fastforce
  have s: "same_files v r s"
    using write_files_scratch [OF assms(2), of "[(MERGE_OURS, ours), (MERGE_BASE, base), (MERGE_THEIRS, theirs)]" r] y
    by (simp add: merge_scratch)
  obtain out t where t: "w_git w None [''merge-file'', ''-p'', MERGE_OURS, MERGE_BASE, MERGE_THEIRS] s = (out, t)" by fastforce
  have "same_files v s t" by (rule law_quiet_files [OF assms(1) _ t]) (simp add: quiet_def)
  moreover have "same_files v t (remove_files w [MERGE_OURS, MERGE_BASE, MERGE_THEIRS] t)"
    by (rule remove_files_scratch [OF assms(3)]) (simp add: merge_scratch)
  moreover have "r' = s \<or> r' = remove_files w [MERGE_OURS, MERGE_BASE, MERGE_THEIRS] t"
    using assms(4) y t by (auto simp: merge_text_def Let_def split: sum.splits run_result.splits option.splits if_splits)
  ultimately show ?thesis using s by (auto intro: same_files_trans)
qed

lemma cat_blob_files:
  assumes "git_laws w v" "cat_blob w ident r = (x, r')"
  shows "same_files v r r'"
proof (cases "length ident \<noteq> 40 \<or> \<not> list_all is_hex_digit ident")
  case True
  then show ?thesis using assms(2) by (auto simp: cat_blob_def)
next
  case False
  obtain y s where y: "w_git w None [''cat-file'', ''blob'', ident] r = (y, s)" by fastforce
  have "same_files v r s" by (rule law_quiet_files [OF assms(1) _ y]) (simp add: quiet_def)
  then show ?thesis using assms(2) False y by (auto simp: cat_blob_def split: run_result.splits)
qed

lemma merge_stale_files:
  assumes "git_laws (wd_world d) v" "file_laws d v" "merge_stale d e current content r = (x, r')"
  shows "same_files v r r'"
proof -
  obtain y s where y: "cat_blob (wd_world d) (map ascii_lower (trim e)) r = (y, s)" by fastforce
  note s = cat_blob_files [OF assms(1) y]
  show ?thesis
  proof (cases "\<exists>base. y = Inr (Some base)")
    case True
    then obtain base where base: "y = Inr (Some base)" ..
    obtain z t where z: "merge_text (wd_world d) base current content s = (z, t)" by fastforce
    have t: "same_files v s t" by (rule merge_text_files [OF assms(1) file_lawsD(1,3) [OF assms(2)] z])
    have "snd (merge_stale d e current content r) = t"
      by (simp add: merge_stale_def y base z split: sum.split option.split)
    then have "r' = t" using assms(3) by simp
    then show ?thesis using same_files_trans [OF s t] by simp
  next
    case False
    then have "snd (merge_stale d e current content r) = s"
      by (auto simp: merge_stale_def y split: sum.split option.split)
    then have "r' = s" using assms(3) by simp
    then show ?thesis using s by simp
  qed
qed

lemma apply_change_files:
  assumes "git_laws (wd_world d) v" "file_laws d v" "apply_change d change current expected pre_read r = (x, r')"
  shows "same_files v r r'"
proof (cases change)
  case (Replace content)
  then show ?thesis
    using assms(3) merge_stale_files [OF assms(1,2)] by (cases expected) (auto split: if_splits)
next
  case (Relative edit)
  have "snd (apply_change d change current expected pre_read r) = r"
    by (simp add: Relative Let_def split: sum.split)
  then show ?thesis using assms(3) by simp
next
  case Keep
  then show ?thesis using assms(3) by (cases expected) (auto split: if_splits)
qed (use assms(3) in simp)

lemma resolve_safe_Ok:
  assumes "resolve_safe_write_path inspect inside rel = Ok p"
  shows "p = kb_root_relative rel" "\<exists>e. inspect p = Ok e"
proof -
  let ?p = "kb_root_relative rel"
  have n1: "RootDir \<notin> set (components ?p)"
    using assms by (cases "RootDir \<in> set (components ?p)") (simp_all add: resolve_safe_write_path_def Let_def)
  have n2: "ParentDir \<notin> set (components ?p)"
    using assms n1 by (cases "ParentDir \<in> set (components ?p)") (simp_all add: resolve_safe_write_path_def Let_def)
  note n = n1 n2
  show "p = kb_root_relative rel"
  proof (cases "inspect ?p")
    case (Ok e)
    then show ?thesis
      using assms n by (cases e; cases "inside ?p") (auto simp: resolve_safe_write_path_def Let_def split: if_splits)
  next
    case (Err e)
    then show ?thesis using assms n by (cases e) (auto simp: resolve_safe_write_path_def Let_def)
  qed (use assms n in \<open>simp add: resolve_safe_write_path_def Let_def\<close>)
  then show "\<exists>e. inspect p = Ok e"
  proof (cases "inspect ?p")
    case (Err e)
    then show ?thesis using assms n by (cases e) (auto simp: resolve_safe_write_path_def Let_def)
  qed (use assms n in \<open>simp_all add: resolve_safe_write_path_def Let_def\<close>)
qed

lemma safe_write_path_document:
  assumes "safe_write_path d rel r = Ok p"
  shows "p = kb_root_relative rel" "document_path p"
proof -
  have res: "resolve_safe_write_path (inspect_kb_path (wd_follow d) (wd_tree d r)) (\<lambda>p. wd_inside d p r) rel = Ok p"
    using assms by (cases "resolve_safe_write_path (inspect_kb_path (wd_follow d) (wd_tree d r)) (\<lambda>p. wd_inside d p r) rel")
      (simp_all add: safe_write_path_def)
  show "p = kb_root_relative rel" using resolve_safe_Ok(1) [OF res] .
  from resolve_safe_Ok(2) [OF res] show "document_path p" by (auto simp: document_path_def inspect_kb_path_def)
qed

section \<open>Synchronising keeps clean files clean\<close>

lemma integrate_clean:
  assumes "git_laws w v" "clean v r p"
  shows "clean v (snd (integrate_fetch_head w rm r)) p"
proof -
  obtain y r1 where y: "git_ok w None [''merge'', ''--ff-only'', ''FETCH_HEAD''] r = (y, r1)" by fastforce
  note ff = git_lawsD(7) [OF assms(1), unfolded law_merge_ff_def, rule_format]
  show ?thesis
  proof (cases rule: git_ok_cases [OF y])
    case (1 out err)
    then show ?thesis using ff [OF 1(2)] y assms(2) by (simp add: integrate_fetch_head_def succeeded_def)
  next
    case (2 c res)
    have v1: "same_view v r r1" using ff [OF 2(2)] 2(3) by simp
    obtain z r2 where z: "git_ok w (Some (rm_author rm)) [''rebase'', ''FETCH_HEAD''] r1 = (z, r2)" by fastforce
    note law = git_lawsD(5) [OF assms(1), unfolded law_rebase_def, rule_format]
    have c1: "clean v r1 p" using v1 assms(2) by (simp add: same_viewD)
    show ?thesis
    proof (cases rule: git_ok_cases [OF z])
      case 1: (1 out err)
      then show ?thesis using law [OF 1(2)] c1 y \<open>y = Inl c\<close> z by (simp add: integrate_fetch_head_def succeeded_def)
    next
      case f: (2 c' res')
      obtain cs r3 where u: "unmerged_paths w r2 = (cs, r3)" by fastforce
      have "cv_saved v r2 = (cv_head v r1, cv_work v r1)" using law [OF f(2)] f(3) by (cases res') auto
      then have c3: "clean v (abort_rebase w r3) p"
        using abort_rebase_view [OF assms(1), of r3] unmerged_paths_view [OF assms(1) u] c1
        by (simp add: same_view_def clean_def committed_def)
      obtain e r4 where e: "reset_to_fetch_head w (abort_rebase w r3) = (e, r4)" by fastforce
      have "snd (integrate_fetch_head w rm r) = (if cs = [] then abort_rebase w r3 else r4)"
        using y \<open>y = Inl c\<close> z f(1) u e by (cases e) (simp_all add: integrate_fetch_head_def Let_def)
      then show ?thesis using c3 reset_to_fetch_head_clean [OF assms(1) e c3] by simp
    qed
  qed
qed

lemma sync_to_remote_clean:
  assumes "git_laws w v" "clean v r p"
  shows "clean v (sync_to_remote w rm r) p"
proof (cases "rm_url rm")
  case (Some url)
  let ?args = "[''fetch'', ''--no-tags'', authenticated_url url (rm_token rm), rm_branch rm]"
  obtain y r1 where y: "git_ok w None ?args r = (y, r1)" by fastforce
  have "same_view v r r1" by (rule git_ok_quiet [OF assms(1) _ y]) (simp add: quiet_def)
  then have "clean v r1 p" using assms(2) by (simp add: same_viewD)
  then have "clean v (snd (integrate_fetch_head w rm r1)) p" by (rule integrate_clean [OF assms(1)])
  then show ?thesis using Some y assms(2) \<open>clean v r1 p\<close> by (cases y) (simp_all add: sync_to_remote_def)
qed (use assms(2) in \<open>simp add: sync_to_remote_def\<close>)

lemma head_if_repo_view:
  assumes "git_laws w v" "head_if_repo w r = (h, r')"
  shows "same_view v r r'" and "h = Some sha \<Longrightarrow> sha = cv_head v r"
proof -
  obtain x s where x: "rev_parse_head w r = (x, s)" by fastforce
  note v1 = rev_parse_head_view [OF assms(1) x]
  show "same_view v r r'"
    using assms(2) v1(1) x by (cases x) (auto simp: head_if_repo_def split: if_splits)
  show "sha = cv_head v r" if "h = Some sha"
    using assms(2) v1(2) x that by (cases x) (auto simp: head_if_repo_def split: if_splits)
qed

lemma on_repo_eq:
  "on_repo f s = (a, s') \<longleftrightarrow> fst (f (pi_repo s)) = a \<and> s' = s\<lparr>pi_repo := snd (f (pi_repo s))\<rparr>"
  by (auto simp: on_repo_def split: prod.split)

lemma mark_dirty_simps [simp]:
  "pi_repo (mark_dirty d ps s) = pi_repo s" "pi_attention (mark_dirty d ps s) = pi_attention s"
  by (simp_all add: mark_dirty_def)

lemma ask_attention_simps [simp]:
  "pi_repo (ask_attention s) = pi_repo s" "pi_attention (ask_attention s)" "pi_queue (ask_attention s) = pi_queue s"
  by (simp_all add: ask_attention_def)

text \<open>The steps of a synchronisation: the states between and what was marked.\<close>

definition sync_marks :: "'r write_deps \<Rightarrow> string option \<Rightarrow> string option \<Rightarrow> 'r pipe \<Rightarrow> 'r pipe" where
  "sync_marks d before after s =
     (case (before, after) of
        (Some b, Some a) \<Rightarrow>
          if b = a then s
          else (case on_repo (git_diff_name_status (wd_world d) b a) s of
            (Inr paths, s) \<Rightarrow> mark_dirty d paths s
          | (Inl _, s) \<Rightarrow> s\<lparr>pi_queue := mark_full (pi_queue s)\<rparr>)
      | _ \<Rightarrow> s)"

lemma sync_clone_steps:
  assumes "sync_clone d since s = (h, s')"
  obtains before s1 s2 where
    "(case since of Some sha \<Rightarrow> (Some sha, s) | None \<Rightarrow> on_repo (head_if_repo (wd_world d)) s) = (before, s1)"
    "on_repo (head_if_repo (wd_world d)) (s1\<lparr>pi_repo := sync_to_remote (wd_world d) (wd_remote d) (pi_repo s1)\<rparr>) = (h, s2)"
    "s' = sync_marks d before h s2"
proof -
  obtain before s1 where 1: "(case since of Some sha \<Rightarrow> (Some sha, s) | None \<Rightarrow> on_repo (head_if_repo (wd_world d)) s) = (before, s1)"
    by fastforce
  obtain g s2 where 2: "on_repo (head_if_repo (wd_world d)) (s1\<lparr>pi_repo := sync_to_remote (wd_world d) (wd_remote d) (pi_repo s1)\<rparr>) = (g, s2)"
    by fastforce
  have "sync_clone d since s = (g, sync_marks d before g s2)"
    unfolding sync_clone_def 1
    by (simp add: 2 sync_marks_def Let_def split: option.split prod.split sum.split)
  then show ?thesis using assms that [OF 1] 2 by simp
qed

lemma sync_marks_view:
  assumes "git_laws (wd_world d) v"
  shows "same_view v (pi_repo s) (pi_repo (sync_marks d before after s))"
    and "pi_attention (sync_marks d before after s) = pi_attention s"
proof -
  show "same_view v (pi_repo s) (pi_repo (sync_marks d before after s))"
  proof (cases "\<exists>b a. before = Some b \<and> after = Some a \<and> b \<noteq> a")
    case True
    then obtain b a where ba: "before = Some b" "after = Some a" "b \<noteq> a" by blast
    obtain x r where x: "git_diff_name_status (wd_world d) b a (pi_repo s) = (x, r)" by fastforce
    show ?thesis
      using git_diff_view(1) [OF assms x] ba x by (cases x) (simp_all add: sync_marks_def on_repo_def)
  qed (auto simp: sync_marks_def split: option.split)
  show "pi_attention (sync_marks d before after s) = pi_attention s"
    by (auto simp: sync_marks_def on_repo_def split: option.split prod.split sum.split)
qed

lemma sync_clone_clean:
  assumes "git_laws (wd_world d) v" "sync_clone d since s = (h, s')"
  shows "clean v (pi_repo s) p \<Longrightarrow> clean v (pi_repo s') p"
    and "pi_attention s' = pi_attention s"
    and "h = Some sha \<Longrightarrow> sha = cv_head v (pi_repo s')"
proof -
  obtain before s1 s2 where
    1: "(case since of Some sha \<Rightarrow> (Some sha, s) | None \<Rightarrow> on_repo (head_if_repo (wd_world d)) s) = (before, s1)" and
    2: "on_repo (head_if_repo (wd_world d)) (s1\<lparr>pi_repo := sync_to_remote (wd_world d) (wd_remote d) (pi_repo s1)\<rparr>) = (h, s2)" and
    3: "s' = sync_marks d before h s2"
    using sync_clone_steps [OF assms(2)] .
  obtain b r0 where r0: "head_if_repo (wd_world d) (pi_repo s) = (b, r0)" by fastforce
  have s1: "same_view v (pi_repo s) (pi_repo s1)" "pi_attention s1 = pi_attention s"
    using 1 r0 head_if_repo_view(1) [OF assms(1) r0] by (auto simp: on_repo_def split: option.splits)
  let ?r = "sync_to_remote (wd_world d) (wd_remote d) (pi_repo s1)"
  obtain g r2 where r2: "head_if_repo (wd_world d) ?r = (g, r2)" by fastforce
  note h2 = head_if_repo_view [OF assms(1) r2]
  have s2: "pi_repo s2 = r2" "pi_attention s2 = pi_attention s1" "h = g" using 2 r2 by (auto simp: on_repo_def)
  note m = sync_marks_view [OF assms(1), where s = s2 and before = before and after = h]
  show "clean v (pi_repo s') p" if "clean v (pi_repo s) p"
  proof -
    have "clean v ?r p" using that s1(1) by (intro sync_to_remote_clean [OF assms(1)]) (simp add: same_viewD)
    then show ?thesis using h2(1) s2 m(1) 3 by (simp add: same_viewD)
  qed
  show "pi_attention s' = pi_attention s" using 3 m(2) s1(2) s2(2) by simp
  show "sha = cv_head v (pi_repo s')" if "h = Some sha"
    using that 3 m(1) s2 h2 by (simp add: same_viewD)
qed

section \<open>Writing the document\<close>

definition settled :: "'r clone_view \<Rightarrow> string \<Rightarrow> 'r pipe \<Rightarrow> bool" where
  "settled v p s \<longleftrightarrow> clean v (pi_repo s) p \<or> pi_attention s"

lemma write_or_undo_files:
  assumes "file_laws d v" "document_path p" "write_or_undo d p previous content s = (x, s')"
    and "cv_work v (pi_repo s) p = previous \<or> previous = None"
  shows "same_but v p (pi_repo s) (pi_repo s')"
    and "x = None \<Longrightarrow> cv_work v (pi_repo s') p = Some content \<and> pi_attention s' = pi_attention s"
    and "x = Some e \<Longrightarrow> pi_attention s' \<or> cv_work v (pi_repo s') p = previous"
proof -
  note W = file_lawsD(1) [OF assms(1), unfolded law_write_def, rule_format]
  note R = file_lawsD(3) [OF assms(1), unfolded law_remove_def, rule_format]
  obtain y r1 where y: "w_write (wd_world d) p content (pi_repo s) = (y, r1)" by fastforce
  have w1: "same_but v p (pi_repo s) r1" "y = None \<Longrightarrow> cv_work v r1 p = Some content"
    using W [OF y] assms(2) by simp_all
  obtain z r2 where z: "(case previous of Some c \<Rightarrow> w_write (wd_world d) p c | None \<Rightarrow> w_remove (wd_world d) p) r1 = (z, r2)"
    by fastforce
  have w2: "same_but v p r1 r2" "z = None \<Longrightarrow> cv_work v r2 p = previous"
  proof -
    show "same_but v p r1 r2"
      using z W [of p _ r1 z r2] R [of p r1 z r2] assms(2)
      by (auto simp: same_but_def same_files_def split: option.splits if_splits)
    show "cv_work v r2 p = previous" if "z = None"
      using that z W [of p _ r1 z r2] R [of p r1 z r2] assms(2) by (auto split: option.splits)
  qed
  have w12: "same_but v p (pi_repo s) r2" using w1(1) w2(1) by (simp add: same_but_def)
  have eq: "(x, s') = (case y of None \<Rightarrow> (None, s\<lparr>pi_repo := r1\<rparr>)
      | Some e \<Rightarrow> (Some (IoErr (''Failed to write file: '' @ e)),
          if z = None then s\<lparr>pi_repo := r2\<rparr> else ask_attention (s\<lparr>pi_repo := r2\<rparr>)))"
    using assms(3) y z by (auto simp: write_or_undo_def undo_write_def on_repo_def split: option.splits)
  show "same_but v p (pi_repo s) (pi_repo s')" using eq w1(1) w12 by (auto split: option.splits if_splits)
  show "x = None \<Longrightarrow> cv_work v (pi_repo s') p = Some content \<and> pi_attention s' = pi_attention s"
    using eq w1(2) by (auto split: option.splits)
  show "x = Some e \<Longrightarrow> pi_attention s' \<or> cv_work v (pi_repo s') p = previous"
    using eq w2(2) by (auto split: option.splits if_splits)
qed

text \<open>
  A success that is synced reports HEAD and the version of the document in it. Only a change that leaves
  the document as it was reports no commit, when HEAD could not be read.
\<close>

definition reports_head :: "'r write_deps \<Rightarrow> 'r clone_view \<Rightarrow> string \<Rightarrow> 'r \<Rightarrow> write_success \<Rightarrow> bool" where
  "reports_head d v p r ws \<longleftrightarrow>
     ws_sha ws \<in> {[], cv_head v r}
     \<and> (\<forall>ver. ws_version ws = Some ver \<longrightarrow> (\<exists>c. committed v r p = Some c \<and> wd_version d c = ver))"

definition honest :: "'r write_deps \<Rightarrow> 'r clone_view \<Rightarrow> string \<Rightarrow> write_result \<Rightarrow> 'r pipe \<Rightarrow> bool" where
  "honest d v p res s \<longleftrightarrow>
     settled v p s \<and> (\<forall>ws. res = Ok ws \<longrightarrow> clean v (pi_repo s) p \<and> (ws_outcome ws = Synced \<longrightarrow> reports_head d v p (pi_repo s) ws))"

lemma honest_Err: "clean v (pi_repo s) p \<or> pi_attention s \<Longrightarrow> honest d v p (Err e) s"
  by (simp add: honest_def settled_def)

text \<open>The clone as the write leaves it to the commit.\<close>

definition written_to :: "'r clone_view \<Rightarrow> string \<Rightarrow> bool \<Rightarrow> string \<Rightarrow> 'r \<Rightarrow> 'r \<Rightarrow> bool" where
  "written_to v p creating content r r' \<longleftrightarrow>
     same_but v p r r' \<and> cv_work v r' p = Some content \<and> (creating \<longrightarrow> committed v r' p = None)"

lemma write_created_files:
  assumes "file_laws d v" "document_path p" "clean v (pi_repo s) p" "write_created d p content s = (x, s')"
  shows "x = Inl res \<Longrightarrow> honest d v p res s'"
    and "x = Inr (old, ap) \<Longrightarrow> written_to v p True (ap_content ap) (pi_repo s) (pi_repo s')"
    and "same_but v p (pi_repo s) (pi_repo s')"
proof -
  note C = file_lawsD(2) [OF assms(1), unfolded law_create_def, rule_format, OF assms(2)]
  obtain y r1 where y: "w_create (wd_world d) p (pi_repo s) = (y, r1)" by fastforce
  note c = C [OF y]
  have "(x = Inl res \<longrightarrow> honest d v p res s')
    \<and> (x = Inr (old, ap) \<longrightarrow> written_to v p True (ap_content ap) (pi_repo s) (pi_repo s'))
    \<and> same_but v p (pi_repo s) (pi_repo s')"
  proof (cases y)
    case Created
    then have c1: "same_but v p (pi_repo s) r1" and none: "committed v (pi_repo s) p = None"
      using c assms(3) by (simp_all add: clean_def)
    obtain z s2 where z: "write_or_undo d p None content (s\<lparr>pi_repo := r1\<rparr>) = (z, s2)" by fastforce
    note u = write_or_undo_files [OF assms(1,2) z]
    have b: "same_but v p (pi_repo s) (pi_repo s2)" using c1 u(1) by (simp add: same_but_def)
    have none2: "committed v (pi_repo s2) p = None" using none same_butD(2) [OF b] by simp
    show ?thesis
    proof (cases z)
      case None
      then show ?thesis using assms(4) y Created z u(2) b none2
        by (auto simp: write_created_def on_repo_def written_to_def plain_def)
    next
      case (Some e)
      then have "pi_attention s2 \<or> clean v (pi_repo s2) p" using u(3) none2 by (auto simp: clean_def)
      then show ?thesis using assms(4) y Created z Some b
        by (auto simp: write_created_def on_repo_def intro: honest_Err)
    qed
  next
    case CreateExists
    then have f: "same_files v (pi_repo s) r1" using c by simp
    show ?thesis using assms(3,4) y CreateExists same_filesD(4) [OF f] same_files_but [OF f]
      by (auto simp: write_created_def on_repo_def intro!: honest_Err)
  next
    case (CreateFailed e)
    then have f: "same_files v (pi_repo s) r1" using c by simp
    show ?thesis using assms(3,4) y \<open>y = CreateFailed e\<close> same_filesD(4) [OF f] same_files_but [OF f]
      by (auto simp: write_created_def on_repo_def intro!: honest_Err)
  qed
  then show "x = Inl res \<Longrightarrow> honest d v p res s'"
    "x = Inr (old, ap) \<Longrightarrow> written_to v p True (ap_content ap) (pi_repo s) (pi_repo s')"
    "same_but v p (pi_repo s) (pi_repo s')" by blast+
qed

lemma write_changed_files:
  assumes "git_laws (wd_world d) v" "file_laws d v" "document_path p" "clean v (pi_repo s) p"
    and "\<And>sha. head = Some sha \<Longrightarrow> sha = cv_head v (pi_repo s)"
    and "write_changed d req related pre_read head p s = (x, s')"
  shows "x = Inl res \<Longrightarrow> honest d v p res s'"
    and "x = Inr (old, ap) \<Longrightarrow> written_to v p False (ap_content ap) (pi_repo s) (pi_repo s')"
    and "same_but v p (pi_repo s) (pi_repo s')"
proof -
  have "(x = Inl res \<longrightarrow> honest d v p res s')
    \<and> (x = Inr (old, ap) \<longrightarrow> written_to v p False (ap_content ap) (pi_repo s) (pi_repo s'))
    \<and> same_but v p (pi_repo s) (pi_repo s')"
  proof (cases "wd_read d p (pi_repo s)")
    case (ReadContent current)
    have cur: "cv_work v (pi_repo s) p = Some current"
      using file_lawsD(5) [OF assms(2)] ReadContent by (simp add: law_read_def)
    obtain y r1 where y: "apply_change d (wr_change req) current (wr_expected_version req) pre_read (pi_repo s) = (y, r1)" by fastforce
    note f = apply_change_files [OF assms(1,2) y]
    have b1: "same_but v p (pi_repo s) r1" and c1: "clean v r1 p"
      using f assms(4) by (simp_all add: same_files_def same_but_def clean_def committed_def)
    have cur1: "cv_work v r1 p = Some current" using f cur by (simp add: same_filesD)
    have com1: "committed v r1 p = Some current" using c1 cur1 by (simp add: clean_def)
    show ?thesis
    proof (cases y)
      case (Inl e)
      then show ?thesis using assms(6) ReadContent y b1 c1
        by (auto simp: write_changed_def on_repo_def intro!: honest_Err)
    next
      case (Inr a)
      show ?thesis
      proof (cases "validate_document d (wr_rel_path req) (ap_content a)")
        case (Inl e)
        then show ?thesis using assms(6) ReadContent y Inr b1 c1
          by (auto simp: write_changed_def on_repo_def intro!: honest_Err)
      next
        case valid: (Inr val)
        show ?thesis
        proof (cases "ap_content a = current")
          case True
          have "reports_head d v p r1 (unchanged_success d related head current (ap_merged a))"
            using assms(5) com1 same_filesD(1) [OF f]
            by (auto simp: reports_head_def unchanged_success_def split: option.split)
          then show ?thesis using assms(6) ReadContent y Inr valid True b1 c1
            by (auto simp: write_changed_def on_repo_def honest_def settled_def)
        next
          case False
          obtain z s2 where z: "write_or_undo d p (Some current) (ap_content a) (s\<lparr>pi_repo := r1\<rparr>) = (z, s2)" by fastforce
          note u = write_or_undo_files [OF assms(2,3) z]
          have b: "same_but v p (pi_repo s) (pi_repo s2)" using b1 u(1) cur1 by (simp add: same_but_def)
          have com2: "committed v (pi_repo s2) p = Some current" using com1 u(1) cur1 by (simp add: same_butD)
          show ?thesis
          proof (cases z)
            case None
            then show ?thesis using assms(6) ReadContent y Inr valid False z u(2) b cur1
              by (auto simp: write_changed_def on_repo_def written_to_def)
          next
            case (Some e)
            then have "pi_attention s2 \<or> clean v (pi_repo s2) p" using u(3) com2 cur1 by (auto simp: clean_def)
            then show ?thesis using assms(6) ReadContent y Inr valid False z Some b
              by (auto simp: write_changed_def on_repo_def intro: honest_Err)
          qed
        qed
      qed
    qed
  qed (use assms(4,6) in \<open>auto simp: write_changed_def same_but_def intro!: honest_Err\<close>)
  then show "x = Inl res \<Longrightarrow> honest d v p res s'"
    "x = Inr (old, ap) \<Longrightarrow> written_to v p False (ap_content ap) (pi_repo s) (pi_repo s')"
    "same_but v p (pi_repo s) (pi_repo s')" by blast+
qed

text \<open>The commit of what was written, and one attempt.\<close>

lemma safe_names:
  assumes "rebase_touched ps [p] = False"
  shows "p \<notin> set ps"
  using assms by (auto simp: rebase_touched_def list_ex_iff)

lemma rollback_files:
  assumes "git_laws (wd_world d) v" "file_laws d v" "document_path p" "creating \<Longrightarrow> committed v r p = None"
    and "rollback d creating p p r = (Inr u, r')"
  shows "clean v r' p"
proof (cases creating)
  case True
  obtain x r1 where x: "w_remove (wd_world d) p r = (x, r1)" by fastforce
  have none: "x = None" using assms(5) True x by (auto simp: rollback_def split: option.splits)
  have r1: "same_but v p r r1" "cv_work v r1 p = None"
    using file_lawsD(3) [OF assms(2), unfolded law_remove_def, rule_format, OF x] assms(3) none by simp_all
  obtain y where y: "git_ok (wd_world d) None [''reset'', ''--'', p] r1 = (y, r')"
    using assms(5) True x none by (auto simp: rollback_def unstage_def split: prod.splits sum.splits)
  have "same_view v r1 r'" by (rule git_ok_quiet [OF assms(1) _ y]) (simp add: quiet_def)
  then show ?thesis using r1 assms(4) [OF True] same_butD(2) [OF r1(1)] by (simp add: clean_def same_viewD)
next
  case False
  then obtain out where y: "git_ok (wd_world d) None [''restore'', ''--source=HEAD'', ''--staged'', ''--worktree'', ''--'', p] r = (Inr out, r')"
    using assms(5) by (auto simp: rollback_def restore_from_head_def split: prod.splits sum.splits)
  note law = git_lawsD(8) [OF assms(1), unfolded law_restore_def, rule_format]
  show ?thesis
    using y law by (cases rule: git_ok_cases [OF y]) (auto simp: succeeded_def clean_def committed_def)
qed

lemma commit_written_honest:
  assumes "git_laws (wd_world d) v" "file_laws d v" "document_path p" "wr_rel_path req = p"
    and "cv_work v (pi_repo s) p = Some (ap_content ap)" "is_create (wr_change req) \<Longrightarrow> committed v (pi_repo s) p = None"
    and "commit_written d req related p (old, ap) s = (a, s')"
  shows "a = Finished res \<Longrightarrow> honest d v p res s'" and "a = TryAgain \<Longrightarrow> clean v (pi_repo s') p"
proof -
  let ?m = "build_commit_message (wr_message req) (''docs: '' @ wr_default_verb req @ '' '' @ p) (wr_operation req)"
  obtain x r1 where x: "commit_and_sync (wd_world d) (wd_remote d) [p] ?m (pi_repo s) = (x, r1)" by fastforce
  have cs: "(\<exists>c. x = Inl (PreCommit c)) \<and> same_view v (pi_repo s) r1
    \<or> (\<exists>pre. landed v pre (cv_work v (pi_repo s)) [p] x r1)"
    using commit_and_sync_view [OF assms(1) x, of "[p]"] by auto
  have "(a = Finished res \<longrightarrow> honest d v p res s') \<and> (a = TryAgain \<longrightarrow> clean v (pi_repo s') p)"
  proof (cases "\<exists>c. x = Inl (PreCommit c)")
    case True
    then obtain c where c: "x = Inl (PreCommit c)" ..
    then have same: "same_view v (pi_repo s) r1" using cs by (auto simp: landed_def)
    obtain y r2 where y: "rollback d (is_create (wr_change req)) p p r1 = (y, r2)" by fastforce
    show ?thesis
    proof (cases y)
      case (Inr u)
      have "clean v r2 p"
        using rollback_files [OF assms(1-3)] y Inr assms(6) same_viewD(4) [OF same] by metis
      then show ?thesis using assms(4,7) x c y Inr
        by (auto simp: commit_written_def on_repo_def Let_def intro: honest_Err)
    next
      case (Inl e)
      then show ?thesis using assms(4,7) x c y by (auto simp: commit_written_def on_repo_def Let_def intro: honest_Err)
    qed
  next
    case False
    then obtain pre where l: "landed v pre (cv_work v (pi_repo s)) [p] x r1" using cs by blast
    then have cl: "clean v r1 p" by (simp add: landed_def)
    show ?thesis
    proof (cases x)
      case (Inl e)
      then show ?thesis using False assms(4,7) x cl
        by (cases e) (auto simp: commit_written_def on_repo_def Let_def honest_def settled_def landed_success_def)
    next
      case (Inr oc)
      have sha: "co_sha oc = cv_head v r1"
        and cont: "p \<notin> set (co_rebased_paths oc) \<Longrightarrow> committed v r1 p = Some (ap_content ap)"
        using l Inr assms(5) by (simp_all add: landed_def)
      define merged where "merged = rebase_touched (co_rebased_paths oc) [p]"
      define version where "version =
        (if merged then (case wd_read d p r1 of ReadContent c \<Rightarrow> Some (wd_version d c) | _ \<Rightarrow> None)
         else Some (wd_version d (ap_content ap)))"
      let ?ws = "landed_success d related Synced (co_sha oc) (co_rebased_paths oc) (wd_diff d old (ap_content ap) p)
        (ap_merged ap \<or> merged) version"
      have read: "cv_work v r1 p = Some c" if "wd_read d p r1 = ReadContent c" for c
        using file_lawsD(5) [OF assms(2)] that by (simp add: law_read_def)
      have "reports_head d v p r1 ?ws"
        using sha cont read cl safe_names [of "co_rebased_paths oc" p]
        by (auto simp: reports_head_def landed_success_def version_def merged_def clean_def split: read_result.splits)
      moreover have "a = Finished (Ok ?ws)" "pi_repo s' = r1"
        using assms(4,7) x Inr by (auto simp: commit_written_def on_repo_def Let_def version_def merged_def)
      ultimately show ?thesis using cl by (auto simp: honest_def settled_def)
    qed
  qed
  then show "a = Finished res \<Longrightarrow> honest d v p res s'" "a = TryAgain \<Longrightarrow> clean v (pi_repo s') p" by blast+
qed

definition head_known :: "'r clone_view \<Rightarrow> string option \<Rightarrow> 'r \<Rightarrow> bool" where
  "head_known v head r \<longleftrightarrow> (\<forall>sha. head = Some sha \<longrightarrow> sha = cv_head v r)"

lemma write_attempt_honest:
  assumes "git_laws (wd_world d) v" "file_laws d v" "wr_rel_path req = p" "kb_root_relative p = p"
    and "clean v (pi_repo s) p" "head_known v head (pi_repo s)" "\<not> is_keep (wr_change req)"
    and "write_attempt d req related pre_read head s = (a, s')"
  shows "a = Finished res \<Longrightarrow> honest d v p res s'" and "a = TryAgain \<Longrightarrow> clean v (pi_repo s') p"
proof -
  have "(a = Finished res \<longrightarrow> honest d v p res s') \<and> (a = TryAgain \<longrightarrow> clean v (pi_repo s') p)"
  proof (cases "safe_write_path d p (pi_repo s)")
    case (Err e)
    then show ?thesis using assms(3,5,8) by (auto simp: write_attempt_def intro: honest_Err)
  next
    case Panic
    then show ?thesis using assms(3,5,8) by (auto simp: write_attempt_def honest_def settled_def)
  next
    case (Ok path)
    obtain m r1 where m: "wd_mkdirs d path (pi_repo s) = (m, r1)" by fastforce
    have f: "same_files v (pi_repo s) r1"
      using file_lawsD(4) [OF assms(2)] m by (simp add: law_mkdirs_def) (metis snd_conv)
    have cl: "clean v r1 p" using assms(5) same_filesD(4) [OF f] by simp
    show ?thesis
    proof (cases m)
      case (Some e)
      then show ?thesis using assms(3,8) Ok m cl by (auto simp: write_attempt_def on_repo_def intro: honest_Err)
    next
      case None
      let ?s = "s\<lparr>pi_repo := r1\<rparr>"
      show ?thesis
      proof (cases "safe_write_path d p r1")
        case (Err e)
        then show ?thesis using assms(3,8) Ok m None cl by (auto simp: write_attempt_def on_repo_def intro: honest_Err)
      next
        case Panic
        then show ?thesis using assms(3,8) Ok m None cl by (auto simp: write_attempt_def on_repo_def honest_def settled_def)
      next
        case ok2: (Ok abs_path)
        have abs: "abs_path = p" and doc: "document_path p"
          using safe_write_path_document [OF ok2] assms(4) by simp_all
        have head: "sha = cv_head v (pi_repo ?s)" if "head = Some sha" for sha
          using assms(6) that same_filesD(1) [OF f] by (simp add: head_known_def)
        have cl': "clean v (pi_repo ?s) p" using cl by simp
        obtain x s2 where x: "(case wr_change req of Create content \<Rightarrow> write_created d p content ?s
            | _ \<Rightarrow> write_changed d req related pre_read head p ?s) = (x, s2)" by fastforce
        have a: "(a, s') = (case x of Inl r \<Rightarrow> (Finished r, s2) | Inr w \<Rightarrow> commit_written d req related p w s2)"
          using assms(3,8) Ok m None ok2 abs x by (simp add: write_attempt_def on_repo_def split: sum.splits)
        have w: "(\<forall>r. x = Inl r \<longrightarrow> honest d v p r s2)
          \<and> (\<forall>old ap. x = Inr (old, ap) \<longrightarrow> cv_work v (pi_repo s2) p = Some (ap_content ap)
               \<and> (is_create (wr_change req) \<longrightarrow> committed v (pi_repo s2) p = None))"
        proof (cases "wr_change req")
          case (Create content)
          then have c: "write_created d p content ?s = (x, s2)" using x by simp
          note wc = write_created_files [OF assms(2) doc cl' c]
          show ?thesis using wc(1,2) by (auto simp: written_to_def)
        next
          case (Replace content)
          then have c: "write_changed d req related pre_read head p ?s = (x, s2)" using x by simp
          note wc = write_changed_files [OF assms(1,2) doc cl' head c]
          show ?thesis using wc(1,2) Replace by (auto simp: written_to_def)
        next
          case (Relative edit)
          then have c: "write_changed d req related pre_read head p ?s = (x, s2)" using x by simp
          note wc = write_changed_files [OF assms(1,2) doc cl' head c]
          show ?thesis using wc(1,2) Relative by (auto simp: written_to_def)
        qed (use assms(7) in simp)
        show ?thesis
        proof (cases x)
          case (Inl r)
          then show ?thesis using a w by auto
        next
          case (Inr wt)
          obtain old ap where wt: "wt = (old, ap)" by fastforce
          have c: "commit_written d req related p (old, ap) s2 = (a, s')" using a Inr wt by simp
          note h = commit_written_honest [OF assms(1,2) doc assms(3) _ _ c]
          show ?thesis using h w Inr wt by blast
        qed
      qed
    qed
  qed
  then show "a = Finished res \<Longrightarrow> honest d v p res s'" "a = TryAgain \<Longrightarrow> clean v (pi_repo s') p" by blast+
qed

lemma write_attempts_honest:
  assumes "git_laws (wd_world d) v" "file_laws d v" "wr_rel_path req = p" "kb_root_relative p = p"
    and "\<not> is_keep (wr_change req)"
  shows "clean v (pi_repo s) p \<Longrightarrow> head_known v head (pi_repo s)
    \<Longrightarrow> write_attempts n d req related pre_read head s = (res, s') \<Longrightarrow> honest d v p res s'"
proof (induction n arbitrary: head s)
  case 0
  then show ?case by (auto intro: honest_Err)
next
  case (Suc n)
  obtain a s1 where a: "write_attempt d req related pre_read head s = (a, s1)" by fastforce
  note h = write_attempt_honest [OF assms(1-4) Suc.prems(1,2) assms(5) a]
  show ?case
  proof (cases a)
    case (Finished r)
    then show ?thesis using Suc.prems(3) a h(1) by simp
  next
    case TryAgain
    obtain head' s2 where s2: "sync_clone d head s1 = (head', s2)" by fastforce
    note sc = sync_clone_clean [OF assms(1) s2]
    have "clean v (pi_repo s2) p" using sc(1) h(2) TryAgain by blast
    moreover have "head_known v head' (pi_repo s2)" using sc(3) by (simp add: head_known_def)
    moreover have "write_attempts n d req related pre_read head' s2 = (res, s')"
      using Suc.prems(3) a TryAgain s2 by simp
    ultimately show ?thesis by (rule Suc.IH)
  qed
qed

lemma request_guards_keep: "request_guards d req r = Ok u \<Longrightarrow> \<not> is_keep (wr_change req)"
  by (auto simp: request_guards_def outcome_simps split: if_splits)

lemma write_document_honest:
  assumes "git_laws (wd_world d) v" "file_laws d v" "wr_rel_path req = p" "kb_root_relative p = p"
    and "clean v (pi_repo s) p" "write_document d req s = (res, s')"
  shows "honest d v p res s'"
proof (cases "before_lock d req (pi_repo s)")
  case (Ok pair)
  obtain related pre_read where pair: "pair = (related, pre_read)" by fastforce
  have keep: "\<not> is_keep (wr_change req)"
    using Ok by (auto simp: before_lock_def outcome_simps dest: request_guards_keep)
  obtain head s1 where s1: "sync_clone d None s = (head, s1)" by fastforce
  note sc = sync_clone_clean [OF assms(1) s1]
  have "write_attempts MAX_WRITE_ATTEMPTS d req related pre_read head s1 = (res, s')"
    using assms(6) Ok pair s1 by (simp add: write_document_def)
  then show ?thesis
    using write_attempts_honest [OF assms(1-4) keep sc(1) [OF assms(5)], of head] sc(3)
    by (simp add: head_known_def)
qed (use assms(5,6) in \<open>auto simp: write_document_def honest_def settled_def\<close>)

section \<open>Properties\<close>



text \<open>The one-document git as the clone of a write.\<close>

definition demo_deps :: "demo_clone write_deps" where
  "demo_deps =
     \<lparr>wd_world = demo_world, wd_remote = demo_remote,
      wd_globs = \<lparr>glob_valid = (\<lambda>_. True), set_builds = (\<lambda>_. True), glob_matches = (\<lambda>_ p. p = ''a.md'')\<rparr>,
      wd_include_patterns = [''**/*.md''],
      wd_indexing = \<lparr>ic_include = [''**/*.md''], ic_exclude = [], ic_exclude_files = []\<rparr>,
      wd_tree = (\<lambda>_. DirNode [(''a.md'', FileNode)]), wd_follow = (\<lambda>_ _. NotFound), wd_inside = (\<lambda>_ _. Inr True),
      wd_read = (\<lambda>p r. if p = ''a.md'' then (case dc_work r of Some c \<Rightarrow> ReadContent c | None \<Rightarrow> ReadMissing) else ReadMissing),
      wd_mkdirs = (\<lambda>_ r. (None, r)), wd_scopes = [], wd_root_schema = empty_schema, wd_values = demo_env,
      wd_parse_raw = (\<lambda>c. ([], c)), wd_lint = (\<lambda>_. LintSuccess),
      wd_validation = \<lparr>vc_enabled = False, vc_strict = False, vc_lint_command = None, vc_lint_timeout_secs = 0\<rparr>,
      wd_prepend_description = False, wd_dedup_enabled = False, wd_dedup_threshold = [], wd_related_min_score = [],
      wd_related_limit = 0, wd_search = (\<lambda>_ _. None), wd_score = (\<lambda>_. 0), wd_version = (\<lambda>c. c),
      wd_diff = (\<lambda>_ _ _. [])\<rparr>"

definition demo_request :: write_request where
  "demo_request =
     \<lparr>wr_rel_path = ''a.md'', wr_change = Replace ''new'', wr_message = None, wr_default_verb = ''update'',
      wr_force_new = None, wr_operation = ''edit_document'', wr_expected_version = Some ''old''\<rparr>"

definition demo_pipe :: "demo_clone pipe" where
  "demo_pipe =
     \<lparr>pi_repo = \<lparr>dc_new = False, dc_work = Some ''old'', dc_saved = (False, None)\<rparr>, pi_queue = queue_new, pi_attention = False\<rparr>"

lemma demo_file_laws: "file_laws demo_deps demo_view"
proof -
  have doc: "document_path ''a.md''" by code_simp
  note defs = demo_deps_def demo_world_def demo_view_def one_file_def same_but_def same_files_def
  show ?thesis
    unfolding file_laws_def law_write_def law_create_def law_remove_def law_mkdirs_def law_read_def
    using doc by (auto simp: defs split: option.splits if_splits)
qed

lemma demo_clean: "clean demo_view (pi_repo demo_pipe) ''a.md''"
  by (simp add: clean_def committed_def demo_view_def demo_pipe_def demo_tree_def demo_sha_def one_file_def)

lemma demo_write:
  "map_prod id (\<lambda>s. (pi_repo s, pi_attention s)) (write_document demo_deps demo_request demo_pipe)
     = (Ok \<lparr>ws_outcome = Synced, ws_sha = ''c1'', ws_rebased_paths = [], ws_diff = [], ws_merged = False,
          ws_version = Some ''new'', ws_related = [], ws_rewritten = [], ws_referencing = [], ws_status_set = False\<rparr>,
        \<lparr>dc_new = True, dc_work = Some ''new'', dc_saved = (False, None)\<rparr>, False)"
  by code_simp

definition demo_written :: "demo_clone pipe" where
  "demo_written = snd (write_document demo_deps demo_request demo_pipe)"

lemma demo_write_result:
  obtains ws where "write_document demo_deps demo_request demo_pipe = (Ok ws, demo_written)"
    "ws_outcome ws = Synced" "ws_version ws = Some ''new''" "ws_sha ws = ''c1''"
    "pi_repo demo_written = \<lparr>dc_new = True, dc_work = Some ''new'', dc_saved = (False, None)\<rparr>"
proof -
  obtain res s where w: "write_document demo_deps demo_request demo_pipe = (res, s)" by fastforce
  then have "s = demo_written" by (simp add: demo_written_def)
  then show ?thesis using demo_write w that by simp
qed

lemma demo_request_path: "kb_root_relative (wr_rel_path demo_request) = wr_rel_path demo_request"
  by code_simp

lemma demo_clean_request: "clean demo_view (pi_repo demo_pipe) (wr_rel_path demo_request)"
  using demo_clean by (simp add: demo_request_def)

lemma demo_laws: "git_laws (wd_world demo_deps) demo_view"
  using demo_git_laws by (simp add: demo_deps_def)



end
