(* ===== verification/WriteIndex.thy ===== *)
theory WriteIndex
  imports WriteSpec
begin

text \<open>
  The index follows the repository: whatever becomes of a write, the re-index queue has been told of
  every indexable path whose committed content the call changed, by its own commit, by the
  synchronisation before it or by the rebase within it. The hypothesis is that the local reads of git
  (\<open>rev-parse\<close>, \<open>diff\<close>) work; the network and every other command may fail at any point.
\<close>

section \<open>What a commit attempt can change\<close>

definition reads_work :: "'r world \<Rightarrow> bool" where
  "reads_work w \<longleftrightarrow>
     (\<forall>r. w_is_repo w r)
     \<and> (\<forall>args r. take 1 args \<in> {[''rev-parse''], [''diff'']} \<longrightarrow> succeeded (fst (w_git w None args r)))"

lemma git_ok_reads:
  assumes "reads_work w" "take 1 args \<in> {[''rev-parse''], [''diff'']}" "git_ok w None args r = (x, r')"
  shows "\<exists>out. x = Inr out"
proof -
  have "succeeded (fst (w_git w None args r))" using assms(1,2) unfolding reads_work_def by blast
  then show ?thesis by (cases rule: git_ok_cases [OF assms(3)]) auto
qed

lemma rev_parse_reads:
  assumes "reads_work w" "rev_parse_head w r = (x, r')"
  shows "\<exists>sha. x = Inr sha"
proof -
  obtain y s where y: "git_ok w None [''rev-parse'', ''HEAD''] r = (y, s)" by fastforce
  then have "\<exists>out. y = Inr out" by (intro git_ok_reads [OF assms(1)]) simp_all
  then show ?thesis using assms(2) y by (auto simp: rev_parse_head_def)
qed

lemma git_diff_reads:
  assumes "reads_work w" "git_diff_name_status w old new r = (x, r')"
  shows "\<exists>ps. x = Inr ps"
proof -
  obtain y s where y: "git_ok w None [''diff'', ''--name-status'', ''-M'', ''-z'', old @ ''..'' @ new] r = (y, s)" by fastforce
  then have "\<exists>out. y = Inr out" by (intro git_ok_reads [OF assms(1)]) simp_all
  then show ?thesis using assms(2) y by (auto simp: git_diff_name_status_def)
qed

lemma head_if_repo_reads:
  assumes "git_laws w v" "reads_work w" "head_if_repo w r = (h, r')"
  shows "h = Some (cv_head v r)"
proof -
  obtain x s where x: "rev_parse_head w r = (x, s)" by fastforce
  obtain sha where sha: "x = Inr sha" using rev_parse_reads [OF assms(2) x] ..
  show ?thesis
    using assms(2,3) x sha rev_parse_head_view(2) [OF assms(1) x sha] by (auto simp: head_if_repo_def reads_work_def)
qed

text \<open>
  With \<open>h\<close> HEAD before the attempt: a dropped attempt is back at \<open>h\<close>, and one that stands differs from \<open>h\<close> at
  most in its own paths and those it reports as rebased.
\<close>

definition differs_within :: "'r clone_view \<Rightarrow> string \<Rightarrow> string set \<Rightarrow> 'r \<Rightarrow> bool" where
  "differs_within v h ps r \<longleftrightarrow> (\<forall>q. q \<notin> ps \<longrightarrow> committed v r q = cv_tree v h q)"

definition spread :: "'r clone_view \<Rightarrow> string \<Rightarrow> string list \<Rightarrow> (commit_sync_error + commit_outcome) \<Rightarrow> 'r \<Rightarrow> bool" where
  "spread v h paths res r \<longleftrightarrow>
     (case res of
        Inl (PreCommit _) \<Rightarrow> cv_head v r = h
      | Inl (Conflict _) \<Rightarrow> cv_head v r = h
      | Inl (PostCommit _ _ ps) \<Rightarrow> differs_within v h (set paths \<union> set ps) r
      | Inr oc \<Rightarrow> differs_within v h (set paths \<union> set (co_rebased_paths oc)) r)"

lemma differs_within_view: "cv_head v s = cv_head v r \<Longrightarrow> differs_within v h ps s = differs_within v h ps r"
  by (simp add: differs_within_def committed_def)

lemma conflicting_spread:
  assumes "git_laws w v" "conflicting w (Some h) sha source ps r = (res, r')" "h \<noteq> ''FETCH_HEAD''"
    and "differs_within v h (set paths \<union> set ps) r"
  shows "spread v h paths res r'"
proof -
  obtain x where x: "reset_hard w h r = (x, r')"
    and res: "res = (case x of Inl e \<Rightarrow> Inl (PostCommit sha (Within ''dropping the commit failed'' source) ps)
      | Inr _ \<Rightarrow> Inl (Conflict source))"
    using assms(2) by (auto simp: conflicting_def drop_own_commit_def split: prod.splits sum.splits)
  note v1 = reset_hard_view(1,2) [OF assms(1) x]
  show ?thesis
  proof (cases x)
    case (Inl e)
    then show ?thesis using res differs_within_view [OF same_viewD(1) [OF v1(2) [OF Inl]]] assms(4) by (simp add: spread_def)
  next
    case (Inr u)
    then show ?thesis using res v1(1) assms(3) by (simp add: spread_def)
  qed
qed

lemma push_commit_spread:
  assumes "git_laws w v" "push_commit w rm url (Some h) sha ps r = (res, r')" "h \<noteq> ''FETCH_HEAD''"
    and "differs_within v h (set paths \<union> set ps) r"
  shows "spread v h paths res r'"
proof -
  obtain x r1 where x: "w_git w None [''push'', url, ''HEAD:'' @ rm_branch rm] r = (x, r1)" by fastforce
  have f: "same_files v r r1" by (rule law_quiet_files [OF assms(1) _ x]) (simp add: quiet_def)
  have d: "differs_within v h (set paths \<union> set ps) r1"
    using assms(4) differs_within_view [OF same_filesD(1) [OF f]] by simp
  show ?thesis
  proof (cases "\<exists>code out err. x = Exited code out err \<and> code \<noteq> Some 0 \<and> is_non_fast_forward_rejection (redact_url err)")
    case True
    then obtain c where "conflicting w (Some h) sha c ps r1 = (res, r')"
      using assms(2) x by (auto simp: push_commit_def)
    then show ?thesis by (rule conflicting_spread [OF assms(1) _ assms(3) d])
  next
    case False
    then show ?thesis
      using assms(2) x d by (auto simp: push_commit_def spread_def split: run_result.splits if_splits)
  qed
qed

lemma after_rebase_spread:
  assumes "git_laws w v" "reads_work w" "after_rebase w rm url (Some h) local_sha r = (res, r')" "h \<noteq> ''FETCH_HEAD''"
    and "\<forall>q. q \<notin> set paths \<longrightarrow> cv_tree v local_sha q = cv_tree v h q"
  shows "spread v h paths res r'"
proof -
  obtain x r1 where x: "rev_parse_head w r = (x, r1)" by fastforce
  obtain sha where sha: "x = Inr sha" using rev_parse_reads [OF assms(2) x] ..
  obtain y r2 where y: "git_diff_name_status w local_sha sha r1 = (y, r2)" by fastforce
  obtain ps where ps: "y = Inr ps" using git_diff_reads [OF assms(2) y] ..
  note v1 = rev_parse_head_view [OF assms(1) x] and v2 = git_diff_view [OF assms(1) y]
  have "cv_head v r2 = sha"
    using same_viewD(1) [OF v1(1)] v1(2) [OF sha] same_viewD(1) [OF v2(1)] by simp
  then have "differs_within v h (set paths \<union> set ps) r2"
    using v2(2) [OF ps] assms(5) by (simp add: differs_within_def committed_def)
  moreover have "push_commit w rm url (Some h) sha ps r2 = (res, r')"
    using assms(3) x sha y ps by (simp add: after_rebase_def)
  ultimately show ?thesis using push_commit_spread [OF assms(1) _ assms(4)] by blast
qed

lemma rebase_commit_spread:
  assumes "git_laws w v" "reads_work w" "rebase_commit w rm url (Some h) local_sha r = (res, r')" "h \<noteq> ''FETCH_HEAD''"
    and "local_sha = cv_head v r" "differs_within v h (set paths) r"
  shows "spread v h paths res r'"
proof -
  obtain x r1 where x: "w_git w (Some (rm_author rm)) [''rebase'', ''FETCH_HEAD''] r = (x, r1)" by fastforce
  note law = git_lawsD(5) [OF assms(1), unfolded law_rebase_def, rule_format, OF x]
  have d: "differs_within v h (set paths \<union> set []) r2" if "cv_head v r2 = cv_head v r" for r2
    using differs_within_view [OF that] assms(6) by simp
  have aborted: "cv_head v (abort_rebase w r2) = cv_head v r" if "same_view v r1 r2" "\<not> succeeded x" for r2
    using abort_rebase_view [OF assms(1), of r2] that law by (simp add: same_view_def)
  show ?thesis
  proof (cases x)
    case (Exited code out err)
    show ?thesis
    proof (cases "code = Some 0")
      case True
      then have "after_rebase w rm url (Some h) local_sha r1 = (res, r')"
        using assms(3) x Exited by (simp add: rebase_commit_def)
      then show ?thesis
        using assms(5,6) by (intro after_rebase_spread [OF assms(1,2) _ assms(4)]) (simp_all add: differs_within_def committed_def)
    next
      case False
      then have bad: "\<not> succeeded x" using Exited by (simp add: succeeded_def)
      obtain cs r2 where u: "unmerged_paths w r1 = (cs, r2)" by fastforce
      note d2 = d [OF aborted [OF unmerged_paths_view [OF assms(1) u] bad]]
      show ?thesis
      proof (cases "cs = []")
        case True
        then show ?thesis using assms(3) x Exited False u d2 by (auto simp: rebase_commit_def Let_def spread_def)
      next
        case conflict: False
        then have "conflicting w (Some h) local_sha (RunFailed ''rebase'' (cs @ redact_url err)) [] (abort_rebase w r2) = (res, r')"
          using assms(3) x Exited False u by (simp add: rebase_commit_def Let_def)
        then show ?thesis by (rule conflicting_spread [OF assms(1) _ assms(4) d2])
      qed
    qed
  next
    case (SpawnFailed e)
    then have "cv_head v r1 = cv_head v r" using law by (simp add: succeeded_def)
    then show ?thesis using assms(3) x SpawnFailed d [of r1] by (auto simp: rebase_commit_def spread_def)
  next
    case TimedOut
    then have "\<not> succeeded x" by (simp add: succeeded_def)
    note d2 = d [OF aborted [OF same_view_refl this]]
    then show ?thesis using assms(3) x TimedOut by (auto simp: rebase_commit_def spread_def)
  qed
qed

lemma commit_staged_spread:
  assumes "git_laws w v" "reads_work w" "commit_staged w rm paths message pre r = (res, r')"
    and "rm_url rm \<noteq> None \<Longrightarrow> pre = Some (cv_head v r)" "cv_head v r \<noteq> ''FETCH_HEAD''"
  shows "spread v (cv_head v r) paths res r'"
proof -
  obtain x r1 where x: "git_ok w (Some (rm_author rm)) ([''commit'', ''-m'', message, ''--''] @ paths) r = (x, r1)" by fastforce
  note law = git_lawsD(3) [OF assms(1), unfolded law_commit_def, rule_format]
  show ?thesis
  proof (cases rule: git_ok_cases [OF x])
    case (2 c out)
    then have "same_view v r r1" using law [OF 2(2)] by simp
    then have "cv_head v r1 = cv_head v r" by (rule same_viewD)
    then show ?thesis using assms(3) x 2 by (auto simp: commit_staged_def spread_def)
  next
    case (1 out err)
    have "differs_within v (cv_head v r) (set paths) r1"
      using law [OF 1(2)] by (simp add: succeeded_def differs_within_def) (simp add: committed_def)
    obtain y r2 where y: "rev_parse_head w r1 = (y, r2)" by fastforce
    obtain sha where sha: "y = Inr sha" using rev_parse_reads [OF assms(2) y] ..
    note v2 = rev_parse_head_view [OF assms(1) y]
    have d2: "differs_within v (cv_head v r) (set paths) r2"
      using \<open>differs_within v (cv_head v r) (set paths) r1\<close> differs_within_view [OF same_viewD(1) [OF v2(1)]] by simp
    have head: "sha = cv_head v r2" using same_viewD(1) [OF v2(1)] v2(2) [OF sha] by simp
    show ?thesis
    proof (cases "rm_url rm")
      case None
      then show ?thesis using assms(3) x 1 y sha d2 by (auto simp: commit_staged_def spread_def)
    next
      case (Some url)
      let ?auth = "authenticated_url url (rm_token rm)"
      have sync: "sync_commit w rm url (Some (cv_head v r)) sha r2 = (res, r')"
        using assms(3,4) x 1 y sha Some by (simp add: commit_staged_def)
      obtain f r3 where f: "git_ok w None [''fetch'', ''--no-tags'', ?auth, rm_branch rm] r2 = (f, r3)" by fastforce
      have same: "same_view v r2 r3" by (rule git_ok_quiet [OF assms(1) _ f]) (simp add: quiet_def)
      have d3: "differs_within v (cv_head v r) (set paths) r3"
        using d2 differs_within_view [OF same_viewD(1) [OF same]] by simp
      show ?thesis
      proof (cases f)
        case (Inl c)
        then show ?thesis using sync f d3 by (auto simp: sync_commit_def Let_def spread_def)
      next
        case (Inr out)
        then have "rebase_commit w rm ?auth (Some (cv_head v r)) sha r3 = (res, r')"
          using sync f by (simp add: sync_commit_def Let_def)
        then show ?thesis
          using rebase_commit_spread [OF assms(1,2) _ assms(5) _ d3] head same_viewD(1) [OF same] by simp
      qed
    qed
  qed
qed

lemma commit_and_sync_spread:
  assumes "git_laws w v" "reads_work w" "commit_and_sync w rm paths message r = (res, r')"
  shows "spread v (cv_head v r) paths res r'"
proof (cases "paths = []")
  case True
  then show ?thesis using assms(3) by (auto simp: commit_and_sync_def spread_def)
next
  case False
  obtain x r1 where x: "git_ok w None ([''add'', ''--''] @ paths) r = (x, r1)" by fastforce
  have v1: "same_view v r r1" by (rule git_ok_quiet [OF assms(1) _ x]) (simp add: quiet_def)
  show ?thesis
  proof (cases x)
    case (Inl c)
    then show ?thesis using assms(3) False x same_viewD(1) [OF v1] by (auto simp: commit_and_sync_def spread_def)
  next
    case (Inr out)
    obtain y r2 where y: "rev_parse_head w r1 = (y, r2)" by fastforce
    obtain sha where sha: "y = Inr sha" using rev_parse_reads [OF assms(2) y] ..
    note v2 = rev_parse_head_view [OF assms(1) y]
    obtain pre r3 where pre: "pre_commit_head_of w rm r1 = (pre, r3)" by fastforce
    have r3: "same_view v r r3" using pre y sha v1 v2(1)
      by (auto simp: pre_commit_head_of_def intro: same_view_trans split: option.splits)
    have p: "pre = Some (cv_head v r3)" if "rm_url rm \<noteq> None"
      using pre y sha that same_viewD(1) [OF v2(1)] v2(2) [OF sha] by (auto simp: pre_commit_head_of_def)
    have "cv_head v r3 \<noteq> ''FETCH_HEAD''"
      using v2(2) [OF sha] same_viewD(1) [OF v1] same_viewD(1) [OF r3] by auto
    moreover have "commit_staged w rm paths message pre r3 = (res, r')"
      using assms(3) False x Inr pre by (simp add: commit_and_sync_def)
    ultimately have "spread v (cv_head v r3) paths res r'"
      using commit_staged_spread [OF assms(1,2) _ p] by blast
    then show ?thesis using same_viewD(1) [OF r3] by simp
  qed
qed

section \<open>What the queue has been told\<close>

definition indexable :: "'r write_deps \<Rightarrow> string \<Rightarrow> bool" where
  "indexable d q \<longleftrightarrow> q \<in> set (fst (partition_indexable (wd_globs d) (wd_indexing d) [q]))"

definition queued :: "string \<Rightarrow> reindex_queue \<Rightarrow> bool" where
  "queued q queue \<longleftrightarrow> q \<in> qs_paths (rq_state queue) \<or> qs_full (rq_state queue)"

definition tracked :: "'r write_deps \<Rightarrow> 'r clone_view \<Rightarrow> 'r pipe \<Rightarrow> 'r pipe \<Rightarrow> bool" where
  "tracked d v s s' \<longleftrightarrow>
     (\<forall>q. queued q (pi_queue s) \<longrightarrow> queued q (pi_queue s'))
     \<and> (\<forall>q. indexable d q \<longrightarrow> committed v (pi_repo s') q \<noteq> committed v (pi_repo s) q \<longrightarrow> queued q (pi_queue s'))"

lemma tracked_trans: "tracked d v s t \<Longrightarrow> tracked d v t u \<Longrightarrow> tracked d v s u"
  unfolding tracked_def by metis

lemma tracked_same_head: "cv_head v (pi_repo s') = cv_head v (pi_repo s) \<Longrightarrow> pi_queue s' = pi_queue s \<Longrightarrow> tracked d v s s'"
  by (simp add: tracked_def committed_def)

lemma queued_mark_full: "queued q (mark_full queue)"
  by (simp add: queued_def mark_full_def lock_mark_full_def notify_one_def)

lemma queued_mark_dirty:
  "queued q (pi_queue s) \<Longrightarrow> queued q (pi_queue (mark_dirty d ps s))"
  "q \<in> set ps \<Longrightarrow> indexable d q \<Longrightarrow> queued q (pi_queue (mark_dirty d ps s))"
proof -
  note defs = mark_dirty_def queued_def mark_paths_def lock_mark_paths_def notify_one_def mark_schema_changes_def
    mark_full_def lock_mark_full_def
  show "queued q (pi_queue s) \<Longrightarrow> queued q (pi_queue (mark_dirty d ps s))"
    by (auto simp: defs Let_def)
  have "q \<in> set (fst (partition_indexable (wd_globs d) (wd_indexing d) ps))" if "q \<in> set ps" "indexable d q"
    using that by (auto simp: indexable_def partition_indexable_def split: outcome.splits if_splits)
  then show "q \<in> set ps \<Longrightarrow> indexable d q \<Longrightarrow> queued q (pi_queue (mark_dirty d ps s))"
    by (simp add: defs Let_def)
qed

lemma tracked_mark_dirty:
  assumes "differs_within v (cv_head v (pi_repo s)) (set ps) (pi_repo s')" "pi_queue s' = pi_queue s"
  shows "tracked d v s (mark_dirty d ps s')"
  using assms queued_mark_dirty [where d = d and ps = ps and s = s']
  by (auto simp: tracked_def differs_within_def committed_def)

lemma sync_clone_tracked:
  assumes "git_laws (wd_world d) v" "reads_work (wd_world d)" "sync_clone d since s = (h, s')"
    and "since = None \<or> since = Some (cv_head v (pi_repo s))"
  shows "tracked d v s s'" and "h = Some (cv_head v (pi_repo s'))"
proof -
  obtain before s1 s2 where
    1: "(case since of Some sha \<Rightarrow> (Some sha, s) | None \<Rightarrow> on_repo (head_if_repo (wd_world d)) s) = (before, s1)" and
    2: "on_repo (head_if_repo (wd_world d)) (s1\<lparr>pi_repo := sync_to_remote (wd_world d) (wd_remote d) (pi_repo s1)\<rparr>) = (h, s2)" and
    3: "s' = sync_marks d before h s2"
    using sync_clone_steps [OF assms(3)] .
  obtain b r0 where r0: "head_if_repo (wd_world d) (pi_repo s) = (b, r0)" by fastforce
  have before: "before = Some (cv_head v (pi_repo s))" "pi_queue s1 = pi_queue s"
    using 1 r0 assms(4) head_if_repo_reads [OF assms(1,2) r0] by (auto simp: on_repo_def split: option.splits)
  let ?r = "sync_to_remote (wd_world d) (wd_remote d) (pi_repo s1)"
  obtain g r2 where r2: "head_if_repo (wd_world d) ?r = (g, r2)" by fastforce
  have s2: "pi_repo s2 = r2" "pi_queue s2 = pi_queue s" "h = g" using 2 r2 before(2) by (auto simp: on_repo_def)
  have h: "h = Some (cv_head v r2)"
    using head_if_repo_reads [OF assms(1,2) r2] same_viewD(1) [OF head_if_repo_view(1) [OF assms(1) r2]] s2(3) by simp
  have m: "same_view v r2 (pi_repo s')"
    using sync_marks_view(1) [OF assms(1), where s = s2 and before = before and after = h] s2(1) 3 by simp
  show "h = Some (cv_head v (pi_repo s'))" using h same_viewD(1) [OF m] by simp
  show "tracked d v s s'"
  proof (cases "cv_head v (pi_repo s) = cv_head v r2")
    case True
    then have "s' = s2" using 3 before(1) h by (simp add: sync_marks_def)
    then show ?thesis using True s2(1,2) by (intro tracked_same_head) simp_all
  next
    case False
    let ?b = "cv_head v (pi_repo s)"
    obtain x r3 where x: "git_diff_name_status (wd_world d) ?b (cv_head v r2) r2 = (x, r3)" by fastforce
    obtain ps where ps: "x = Inr ps" using git_diff_reads [OF assms(2) x] ..
    note v3 = git_diff_view [OF assms(1) x]
    have s': "s' = mark_dirty d ps (s2\<lparr>pi_repo := r3\<rparr>)"
      using 3 before(1) h False x ps s2(1) by (simp add: sync_marks_def on_repo_def)
    have "differs_within v ?b (set ps) r3"
      using v3(2) [OF ps] same_viewD(1) [OF v3(1)] by (simp add: differs_within_def committed_def)
    then show ?thesis unfolding s' using s2(2) by (intro tracked_mark_dirty) simp_all
  qed
qed

lemma write_or_undo_queue: "write_or_undo d p previous content s = (x, s') \<Longrightarrow> pi_queue s' = pi_queue s"
  by (auto simp: write_or_undo_def undo_write_def on_repo_def split: prod.splits option.splits)

lemma write_created_queue: "write_created d p content s = (x, s') \<Longrightarrow> pi_queue s' = pi_queue s"
  by (auto simp: write_created_def on_repo_def split: prod.splits create_result.splits option.splits
      dest!: write_or_undo_queue)

lemma write_changed_queue:
  assumes "write_changed d req related pre_read head p s = (x, s')"
  shows "pi_queue s' = pi_queue s"
proof (cases "wd_read d p (pi_repo s)")
  case (ReadContent current)
  obtain y r1 where y: "apply_change d (wr_change req) current (wr_expected_version req) pre_read (pi_repo s) = (y, r1)" by fastforce
  show ?thesis
  proof (cases y)
    case (Inr a)
    obtain z s2 where z: "write_or_undo d p (Some current) (ap_content a) (s\<lparr>pi_repo := r1\<rparr>) = (z, s2)" by fastforce
    show ?thesis
      using assms ReadContent y Inr z write_or_undo_queue [OF z]
      by (auto simp: write_changed_def on_repo_def split: sum.splits if_splits option.splits)
  qed (use assms ReadContent y in \<open>auto simp: write_changed_def on_repo_def\<close>)
qed (use assms in \<open>auto simp: write_changed_def\<close>)

lemma rollback_head:
  assumes "git_laws (wd_world d) v" "file_laws d v" "document_path p" "rollback d creating p p r = (x, r')"
  shows "cv_head v r' = cv_head v r"
proof (cases creating)
  case True
  obtain y r1 where y: "w_remove (wd_world d) p r = (y, r1)" by fastforce
  have r1: "cv_head v r1 = cv_head v r"
    using file_lawsD(3) [OF assms(2), unfolded law_remove_def, rule_format, OF y]
    by (auto simp: same_but_def same_files_def split: if_splits)
  obtain z r2 where z: "git_ok (wd_world d) None [''reset'', ''--'', p] r1 = (z, r2)" by fastforce
  have v2: "same_view v r1 r2" by (rule git_ok_quiet [OF assms(1) _ z]) (simp add: quiet_def)
  have "r' = r1 \<or> r' = r2"
    using assms(4) True y z by (auto simp: rollback_def unstage_def split: option.splits sum.splits)
  then show ?thesis using r1 same_viewD(1) [OF v2] by auto
next
  case False
  obtain z r2 where z: "git_ok (wd_world d) None [''restore'', ''--source=HEAD'', ''--staged'', ''--worktree'', ''--'', p] r = (z, r2)"
    by fastforce
  have "cv_head v r2 = cv_head v r"
    using git_lawsD(8) [OF assms(1), unfolded law_restore_def, rule_format]
    by (cases rule: git_ok_cases [OF z]) blast+
  then show ?thesis using assms(4) False z by (auto simp: rollback_def restore_from_head_def split: sum.splits)
qed

lemma commit_written_tracked:
  assumes "git_laws (wd_world d) v" "file_laws d v" "reads_work (wd_world d)" "document_path p" "wr_rel_path req = p"
    and "commit_written d req related p (old, ap) s = (a, s')"
  shows "tracked d v s s'" and "a = TryAgain \<Longrightarrow> cv_head v (pi_repo s') = cv_head v (pi_repo s)"
proof -
  let ?m = "build_commit_message (wr_message req) (''docs: '' @ wr_default_verb req @ '' '' @ p) (wr_operation req)"
  obtain x r1 where x: "commit_and_sync (wd_world d) (wd_remote d) [p] ?m (pi_repo s) = (x, r1)" by fastforce
  let ?s = "s\<lparr>pi_repo := r1\<rparr>"
  have sp: "spread v (cv_head v (pi_repo s)) [p] x r1" by (rule commit_and_sync_spread [OF assms(1,3) x])
  have "tracked d v s s' \<and> (a = TryAgain \<longrightarrow> cv_head v (pi_repo s') = cv_head v (pi_repo s))"
  proof (cases x)
    case (Inl e)
    show ?thesis
    proof (cases e)
      case (PreCommit c)
      obtain y r2 where y: "rollback d (is_create (wr_change req)) p p r1 = (y, r2)" by fastforce
      have "cv_head v r2 = cv_head v (pi_repo s)"
        using rollback_head [OF assms(1,2,4) y] sp Inl PreCommit by (simp add: spread_def)
      then show ?thesis
        using assms(5,6) x Inl PreCommit y
        by (cases y) (auto simp: commit_written_def on_repo_def Let_def intro!: tracked_same_head)
    next
      case (PostCommit sha c ps)
      have "tracked d v s (mark_dirty d (p # ps) ?s)"
        using sp Inl PostCommit by (intro tracked_mark_dirty) (simp_all add: spread_def)
      then show ?thesis
        using assms(5,6) x Inl PostCommit by (auto simp: commit_written_def on_repo_def Let_def)
    next
      case (Conflict c)
      then show ?thesis
        using assms(5,6) x Inl sp
        by (auto simp: commit_written_def on_repo_def Let_def spread_def intro!: tracked_same_head)
    qed
  next
    case (Inr oc)
    have "tracked d v s (mark_dirty d (p # co_rebased_paths oc) ?s)"
      using sp Inr by (intro tracked_mark_dirty) (simp_all add: spread_def)
    then show ?thesis
      using assms(5,6) x Inr by (auto simp: commit_written_def on_repo_def Let_def)
  qed
  then show "tracked d v s s'" "a = TryAgain \<Longrightarrow> cv_head v (pi_repo s') = cv_head v (pi_repo s)" by blast+
qed

lemma write_attempt_tracked:
  assumes "git_laws (wd_world d) v" "file_laws d v" "reads_work (wd_world d)" "wr_rel_path req = p" "kb_root_relative p = p"
    and "clean v (pi_repo s) p" "head = Some (cv_head v (pi_repo s))"
    and "write_attempt d req related pre_read head s = (a, s')"
  shows "tracked d v s s'" and "a = TryAgain \<Longrightarrow> cv_head v (pi_repo s') = cv_head v (pi_repo s)"
proof -
  have "tracked d v s s' \<and> (a = TryAgain \<longrightarrow> cv_head v (pi_repo s') = cv_head v (pi_repo s))"
  proof (cases "safe_write_path d p (pi_repo s)")
    case (Ok path)
    obtain m r1 where m: "wd_mkdirs d path (pi_repo s) = (m, r1)" by fastforce
    have f: "same_files v (pi_repo s) r1"
      using file_lawsD(4) [OF assms(2)] m by (simp add: law_mkdirs_def) (metis snd_conv)
    let ?s = "s\<lparr>pi_repo := r1\<rparr>"
    have t1: "tracked d v s ?s" using same_filesD(1) [OF f] by (intro tracked_same_head) simp_all
    show ?thesis
    proof (cases "m = None \<and> (\<exists>q. safe_write_path d p r1 = Ok q)")
      case False
      then have "(a, s') = (a, ?s) \<and> a \<noteq> TryAgain"
        using assms(4,8) Ok m
        by (cases m; cases "safe_write_path d p r1") (auto simp: write_attempt_def on_repo_def)
      then show ?thesis using t1 by simp
    next
      case True
      then obtain q where q: "safe_write_path d p r1 = Ok q" by blast
      have abs: "q = p" and doc: "document_path p" using safe_write_path_document [OF q] assms(5) by simp_all
      have head: "sha = cv_head v (pi_repo ?s)" if "head = Some sha" for sha
        using assms(7) that same_filesD(1) [OF f] by simp
      have cl: "clean v (pi_repo ?s) p" using assms(6) same_filesD(4) [OF f] by simp
      obtain x s2 where x: "(case wr_change req of Create content \<Rightarrow> write_created d p content ?s
          | _ \<Rightarrow> write_changed d req related pre_read head p ?s) = (x, s2)" by fastforce
      have a: "(a, s') = (case x of Inl r \<Rightarrow> (Finished r, s2) | Inr w \<Rightarrow> commit_written d req related p w s2)"
        using assms(4,8) Ok m True q abs x by (simp add: write_attempt_def on_repo_def split: sum.splits)
      have "same_but v p (pi_repo ?s) (pi_repo s2) \<and> pi_queue s2 = pi_queue ?s"
      proof (cases "is_create (wr_change req)")
        case True
        then obtain content where c: "write_created d p content ?s = (x, s2)" using x by (cases "wr_change req") auto
        show ?thesis
          using write_created_files(3) [OF assms(2) doc cl c] write_created_queue [OF c] by simp
      next
        case False
        then have c: "write_changed d req related pre_read head p ?s = (x, s2)" using x by (cases "wr_change req") auto
        show ?thesis
          using write_changed_files(3) [OF assms(1,2) doc cl head c] write_changed_queue [OF c] by simp
      qed
      then have h2: "cv_head v (pi_repo s2) = cv_head v (pi_repo s)" "pi_queue s2 = pi_queue s"
        using same_filesD(1) [OF f] by (simp_all add: same_but_def)
      then have t2: "tracked d v s s2" by (rule tracked_same_head)
      show ?thesis
      proof (cases x)
        case (Inl r)
        then show ?thesis using a t2 by simp
      next
        case (Inr w)
        obtain old ap where w: "w = (old, ap)" by fastforce
        have c: "commit_written d req related p (old, ap) s2 = (a, s')" using a Inr w by simp
        show ?thesis
          using commit_written_tracked [OF assms(1-3) doc assms(4) c] t2 h2(1) tracked_trans by metis
      qed
    qed
  qed (use assms(4,8) in \<open>auto simp: write_attempt_def intro: tracked_same_head\<close>)
  then show "tracked d v s s'" "a = TryAgain \<Longrightarrow> cv_head v (pi_repo s') = cv_head v (pi_repo s)" by blast+
qed

lemma write_attempts_tracked:
  assumes "git_laws (wd_world d) v" "file_laws d v" "reads_work (wd_world d)" "wr_rel_path req = p" "kb_root_relative p = p"
    and "\<not> is_keep (wr_change req)"
  shows "clean v (pi_repo s) p \<Longrightarrow> head = Some (cv_head v (pi_repo s))
    \<Longrightarrow> write_attempts n d req related pre_read head s = (res, s') \<Longrightarrow> tracked d v s s'"
proof (induction n arbitrary: head s)
  case 0
  then show ?case by (auto intro: tracked_same_head)
next
  case (Suc n)
  obtain a s1 where a: "write_attempt d req related pre_read head s = (a, s1)" by fastforce
  note t = write_attempt_tracked [OF assms(1-5) Suc.prems(1,2) a]
  show ?case
  proof (cases a)
    case (Finished r)
    then show ?thesis using Suc.prems(3) a t(1) by simp
  next
    case TryAgain
    have known: "head_known v head (pi_repo s)" using Suc.prems(2) by (simp add: head_known_def)
    have c1: "clean v (pi_repo s1) p"
      using write_attempt_honest(2) [OF assms(1,2,4,5) Suc.prems(1) known assms(6) a TryAgain] .
    obtain h s2 where s2: "sync_clone d head s1 = (h, s2)" by fastforce
    have since: "head = None \<or> head = Some (cv_head v (pi_repo s1))" using Suc.prems(2) t(2) [OF TryAgain] by simp
    note st = sync_clone_tracked [OF assms(1,3) s2 since]
    have rest: "write_attempts n d req related pre_read h s2 = (res, s')" using Suc.prems(3) a TryAgain s2 by simp
    have "tracked d v s2 s'"
      by (rule Suc.IH [OF sync_clone_clean(1) [OF assms(1) s2 c1] st(2) rest])
    then show ?thesis using t(1) st(1) tracked_trans by metis
  qed
qed

section \<open>Properties\<close>


lemma demo_reads: "reads_work (wd_world demo_deps)"
proof -
  have "take 1 args \<noteq> [''add'']" "args \<noteq> [''add'', ''--'', ''a.md'']"
    if "take 1 args \<in> {[''rev-parse''], [''diff'']}" for args :: "string list"
    using that by auto
  then show ?thesis
    by (auto simp: reads_work_def demo_deps_def demo_world_def demo_git_def succeeded_def)
qed


end
