(* ===== verification/MovePipeline.thy ===== *)
theory MovePipeline
  imports WritePipeline Frontmatter Links
begin

text \<open>
  Deletes and moves of one document, \<open>src/src/write.rs\<close>: \<open>rewrite_inbound_links\<close>, \<open>delete_document_with\<close>,
  \<open>write_document_move\<close> with its archive branch. They share the guards, the undo of a failed write and the
  commit of \<open>WritePipeline\<close>. The reverse-link query of the document index is a parameter.
\<close>

section \<open>The document index\<close>

datatype inbound_action = Repoint string | Unlink

record inbound_failure =
  if_path :: string
  if_msg :: string
  if_written :: "string list"

text \<open>
  \<open>dx_targeting\<close> is the query, absent when there is no document index; \<open>dx_exists\<close> is \<open>Path::exists\<close>; \<open>dx_lower\<close>
  folds case for reference labels; \<open>dx_yaml\<close> reads and prints frontmatter.
\<close>

record 'r doc_index =
  dx_targeting :: "(string \<Rightarrow> 'r \<Rightarrow> string + string list) option"
  dx_exists :: "string \<Rightarrow> 'r \<Rightarrow> bool"
  dx_lower :: "string \<Rightarrow> string"
  dx_yaml :: yaml_env

section \<open>Links into the document\<close>

definition inbound_body ::
    "(string \<Rightarrow> string) \<Rightarrow> string \<Rightarrow> inbound_action \<Rightarrow> string \<Rightarrow> string \<Rightarrow> (string, string option) outcome" where
  "inbound_body lower source_rel action ref_path body =
     (let occurrences = filter (\<lambda>occ. lo_resolved occ = source_rel) (find_markdown_link_occurrences lower body ref_path)
      in if occurrences = [] then Ok None
         else bind_outcome
           (case action of
              Repoint dest_rel \<Rightarrow> apply_link_replacements body occurrences (relativize_md_path ref_path dest_rel)
            | Unlink \<Rightarrow> unlink_occurrences body occurrences)
           (\<lambda>new_body. Ok (if new_body = body then None else Some new_body)))"

fun rewrite_documents ::
    "'r write_deps \<Rightarrow> (string \<Rightarrow> string) \<Rightarrow> string \<Rightarrow> inbound_action \<Rightarrow> string list \<Rightarrow> string list \<Rightarrow> 'r
       \<Rightarrow> (inbound_failure, string list) outcome \<times> 'r" where
  "rewrite_documents d lower source_rel action [] written r = (Ok written, r)"
| "rewrite_documents d lower source_rel action (ref_path # refs) written r =
     (if ref_path = source_rel then rewrite_documents d lower source_rel action refs written r
      else case safe_write_path d ref_path r of
        Err _ \<Rightarrow> rewrite_documents d lower source_rel action refs written r
      | Panic \<Rightarrow> (Panic, r)
      | Ok abs_ref \<Rightarrow>
          (case wd_read d abs_ref r of
             ReadContent body \<Rightarrow>
               (case inbound_body lower source_rel action ref_path body of
                  Ok None \<Rightarrow> rewrite_documents d lower source_rel action refs written r
                | Ok (Some new_body) \<Rightarrow>
                    (case w_write (wd_world d) abs_ref new_body r of
                       (Some e, r) \<Rightarrow> (Err \<lparr>if_path = ref_path, if_msg = e, if_written = written @ [ref_path]\<rparr>, r)
                     | (None, r) \<Rightarrow> rewrite_documents d lower source_rel action refs (written @ [ref_path]) r)
                | _ \<Rightarrow> (Panic, r))
           | _ \<Rightarrow> rewrite_documents d lower source_rel action refs written r))"

definition rewrite_inbound_links ::
    "'r write_deps \<Rightarrow> 'r doc_index \<Rightarrow> (string \<Rightarrow> 'r \<Rightarrow> string + string list) \<Rightarrow> string \<Rightarrow> inbound_action \<Rightarrow> bool \<Rightarrow> 'r
       \<Rightarrow> (inbound_failure, string list) outcome \<times> 'r" where
  "rewrite_inbound_links d dx targeting source_rel action strict r =
     (case targeting source_rel r of
        Inr refs \<Rightarrow> rewrite_documents d (dx_lower dx) source_rel action refs [] r
      | Inl e \<Rightarrow>
          if strict
          then (Err \<lparr>if_path = source_rel, if_msg = ''the reverse-link query failed: '' @ e, if_written = []\<rparr>, r)
          else (Ok [], r))"

section \<open>Rolling back\<close>

text \<open>Restore each path from HEAD; the paths that could not be restored.\<close>

fun restore_each :: "'r world \<Rightarrow> string list \<Rightarrow> 'r \<Rightarrow> (string \<times> git_error) list \<times> 'r" where
  "restore_each w [] r = ([], r)"
| "restore_each w (p # ps) r =
     (case restore_from_head w p r of
        (Inr _, r) \<Rightarrow> restore_each w ps r
      | (Inl e, r) \<Rightarrow> (case restore_each w ps r of (fs, r) \<Rightarrow> ((p, e) # fs, r)))"

definition restore_logged :: "'r write_deps \<Rightarrow> string list \<Rightarrow> 'r pipe \<Rightarrow> 'r pipe" where
  "restore_logged d paths s =
     (case on_repo (restore_each (wd_world d) paths) s of
        (failures, s) \<Rightarrow> if failures = [] then s else ask_attention s)"

definition remove_logged :: "'r write_deps \<Rightarrow> string \<Rightarrow> 'r pipe \<Rightarrow> 'r pipe" where
  "remove_logged d path s =
     (case on_repo (w_remove (wd_world d) path) s of
        (None, s) \<Rightarrow> s
      | (Some _, s) \<Rightarrow> ask_attention s)"

definition link_failure :: "inbound_failure \<Rightarrow> write_error" where
  "link_failure f = IoErr (''Failed to rewrite links in '' @ CHR 39 # if_path f @ CHR 39 # '': '' @ if_msg f)"

section \<open>Deleting a document\<close>

definition check_include_only :: "'r write_deps \<Rightarrow> string \<Rightarrow> (write_error, unit) outcome" where
  "check_include_only d rel_path =
     (if set_matches (wd_globs d) (wd_include_patterns d) (kb_root_relative rel_path) then Ok ()
      else Err (UnsafePath (quote_path rel_path @ '' does not match any indexable include pattern ''
        @ ''(e.g. must be a markdown file under an included path)'')))"

definition delete_guards ::
    "'r write_deps \<Rightarrow> 'r doc_index \<Rightarrow> string \<Rightarrow> string option \<Rightarrow> string option \<Rightarrow> bool \<Rightarrow> 'r \<Rightarrow> (write_error, string) outcome" where
  "delete_guards d dx rel_path message expected unlink_inbound r =
     (if unlink_inbound \<and> dx_targeting dx = None
      then Err (InternalErr ''unlink_inbound needs the document index to find links to the document, and it is unavailable right now'')
      else
        bind_outcome (check_not_schema_file rel_path) (\<lambda>_.
        bind_outcome (check_include_only d rel_path) (\<lambda>_.
        bind_outcome (safe_write_path d rel_path r) (\<lambda>_.
        bind_outcome (check_commit_message message) (\<lambda>_.
        bind_outcome (safe_write_path d rel_path r) (\<lambda>path.
          if \<not> dx_exists dx path r then Err NotFoundErr
          else case expected of None \<Rightarrow> Err VersionRequired | Some e \<Rightarrow> Ok e))))))"

definition referencing_of :: "'r doc_index \<Rightarrow> string \<Rightarrow> bool \<Rightarrow> 'r \<Rightarrow> string list" where
  "referencing_of dx rel_path unlink_inbound r =
     (if unlink_inbound then []
      else case dx_targeting dx of
        None \<Rightarrow> []
      | Some targeting \<Rightarrow> (case targeting rel_path r of Inr inbound \<Rightarrow> inbound | Inl _ \<Rightarrow> []))"

definition deleted_success ::
    "write_outcome \<Rightarrow> string \<Rightarrow> string list \<Rightarrow> string \<Rightarrow> string list \<Rightarrow> string list \<Rightarrow> bool \<Rightarrow> write_success" where
  "deleted_success outcome sha rebased_paths diff rewritten_paths referencing_paths merged =
     \<lparr>ws_outcome = outcome, ws_sha = sha, ws_rebased_paths = rebased_paths, ws_diff = diff, ws_merged = merged,
      ws_version = None, ws_related = [], ws_rewritten = rewritten_paths, ws_referencing = referencing_paths,
      ws_status_set = False\<rparr>"

definition commit_deleted ::
    "'r write_deps \<Rightarrow> string \<Rightarrow> string \<Rightarrow> string \<Rightarrow> string list \<Rightarrow> string list \<Rightarrow> 'r pipe \<Rightarrow> attempt \<times> 'r pipe" where
  "commit_deleted d rel_path commit_message old_content referencing_paths rewritten_paths s =
     (let commit_paths = rel_path # rewritten_paths; diff = wd_diff d old_content [] rel_path
      in case on_repo (commit_and_sync (wd_world d) (wd_remote d) commit_paths commit_message) s of
        (Inl (PreCommit source), s) \<Rightarrow>
          let s = restore_logged d rewritten_paths s
          in (case on_repo (restore_from_head (wd_world d) rel_path) s of
             (Inr _, s) \<Rightarrow> (Finished (Err (PreCommitFailed True [source])), s)
           | (Inl e, s) \<Rightarrow> (Finished (Err (PreCommitFailed False [source, e])), ask_attention s))
      | (Inl (PostCommit sha source rebased_paths), s) \<Rightarrow>
          (Finished (Ok (deleted_success CommittedPendingSync sha [] diff rewritten_paths referencing_paths False)),
           mark_dirty d (rel_path # rewritten_paths @ rebased_paths) s)
      | (Inl (Conflict source), s) \<Rightarrow> (TryAgain, s)
      | (Inr oc, s) \<Rightarrow>
          (Finished (Ok (deleted_success Synced (co_sha oc) (co_rebased_paths oc) diff rewritten_paths referencing_paths
             (rebase_touched (co_rebased_paths oc) rewritten_paths))),
           mark_dirty d (rel_path # rewritten_paths @ co_rebased_paths oc) s))"

definition unlink_step ::
    "'r write_deps \<Rightarrow> 'r doc_index \<Rightarrow> string \<Rightarrow> bool \<Rightarrow> 'r pipe \<Rightarrow> (inbound_failure, string list) outcome \<times> 'r pipe" where
  "unlink_step d dx rel_path unlink_inbound s =
     (case (if unlink_inbound then dx_targeting dx else None) of
        None \<Rightarrow> (Ok [], s)
      | Some targeting \<Rightarrow> on_repo (rewrite_inbound_links d dx targeting rel_path Unlink True) s)"

definition delete_attempt ::
    "'r write_deps \<Rightarrow> 'r doc_index \<Rightarrow> string \<Rightarrow> string \<Rightarrow> string \<Rightarrow> bool \<Rightarrow> string list \<Rightarrow> 'r pipe \<Rightarrow> attempt \<times> 'r pipe" where
  "delete_attempt d dx rel_path commit_message expected unlink_inbound referencing_paths s =
     (case safe_write_path d rel_path (pi_repo s) of
        Err e \<Rightarrow> (Finished (Err e), s)
      | Panic \<Rightarrow> (Finished Panic, s)
      | Ok abs_path \<Rightarrow>
          (case wd_read d abs_path (pi_repo s) of
             ReadFailed e \<Rightarrow> (Finished (Err (IoErr (''Failed to read existing file: '' @ e))), s)
           | ReadMissing \<Rightarrow> (Finished (Err NotFoundErr), s)
           | ReadContent old_content \<Rightarrow>
               if \<not> versions_match d expected old_content then (Finished (Err EditedElsewhere), s)
               else (case on_repo (w_remove (wd_world d) abs_path) s of
                 (Some e, s) \<Rightarrow> (Finished (Err (IoErr (''Failed to remove file: '' @ e))), s)
               | (None, s) \<Rightarrow>
                   (case unlink_step d dx rel_path unlink_inbound s of
                      (Err f, s) \<Rightarrow> (Finished (Err (link_failure f)), restore_logged d (if_written f @ [rel_path]) s)
                    | (Panic, s) \<Rightarrow> (Finished Panic, s)
                    | (Ok rewritten_paths, s) \<Rightarrow>
                        commit_deleted d rel_path commit_message old_content referencing_paths rewritten_paths s))))"

text \<open>The attempts of a delete or a move: what one attempt does is given.\<close>

fun repeat_attempts ::
    "nat \<Rightarrow> 'r write_deps \<Rightarrow> ('r pipe \<Rightarrow> attempt \<times> 'r pipe) \<Rightarrow> string option \<Rightarrow> 'r pipe \<Rightarrow> write_result \<times> 'r pipe" where
  "repeat_attempts 0 d attempt head s = (Err EditedElsewhere, s)"
| "repeat_attempts (Suc n) d attempt head s =
     (case attempt s of
        (Finished res, s) \<Rightarrow> (res, s)
      | (TryAgain, s) \<Rightarrow> (case sync_clone d head s of (head, s) \<Rightarrow> repeat_attempts n d attempt head s))"

definition delete_document_with ::
    "'r write_deps \<Rightarrow> 'r doc_index \<Rightarrow> string \<Rightarrow> string option \<Rightarrow> string option \<Rightarrow> bool \<Rightarrow> 'r pipe \<Rightarrow> write_result \<times> 'r pipe" where
  "delete_document_with d dx rel_path message expected unlink_inbound s =
     (case delete_guards d dx rel_path message expected unlink_inbound (pi_repo s) of
        Err e \<Rightarrow> (Err e, s)
      | Panic \<Rightarrow> (Panic, s)
      | Ok expected_version \<Rightarrow>
          let referencing_paths = referencing_of dx rel_path unlink_inbound (pi_repo s);
              commit_message = build_commit_message message (''docs: delete '' @ rel_path) ''delete_document''
          in (case sync_clone d None s of
             (head, s) \<Rightarrow>
               repeat_attempts MAX_WRITE_ATTEMPTS d
                 (delete_attempt d dx rel_path commit_message expected_version unlink_inbound referencing_paths) head s))"

section \<open>Moving a document\<close>

record move_request =
  mv_source :: string
  mv_dest :: string
  mv_change :: doc_change
  mv_message :: "string option"
  mv_operation :: string
  mv_expected :: "string option"
  mv_archive :: "bool option"

text \<open>\<open>mv_archive\<close> is the archive policy: present for an archive, true when inbound links are to be unlinked.\<close>

definition ARCHIVED_STATUS :: string where
  "ARCHIVED_STATUS = ''archived''"

definition normalize_archive_prefix :: "string \<Rightarrow> string + string" where
  "normalize_archive_prefix prefix =
     (let trimmed = drop_right (\<lambda>c. c = slash) (dropWhile (\<lambda>c. c = slash) (trim prefix))
      in if trimmed = [] then Inl ''must name a directory''
         else if CHR 0x5C \<in> set trimmed then Inl ''must use `/` separators''
         else if list_ex (\<lambda>s. s = [] \<or> s = ''.'' \<or> s = ''..'') (split_on slash trimmed)
         then Inl ''must not contain empty, `.` or `..` segments''
         else Inr trimmed)"

definition archive_destination :: "string \<Rightarrow> string \<Rightarrow> string + string" where
  "archive_destination prefix rel_path =
     (case normalize_archive_prefix prefix of
        Inl e \<Rightarrow> Inl (''write.archive_prefix '' @ e)
      | Inr prefix \<Rightarrow>
          let rel = kb_root_relative rel_path
          in if rel = prefix \<or> starts_with rel (prefix @ [slash])
             then Inl (CHR 39 # rel_path @ CHR 39 # '' is already in the archive ('' @ CHR 39 # prefix @ slash # CHR 39 # '')'')
             else Inr (prefix @ slash # rel))"

definition archive_status_allowed :: "'r write_deps \<Rightarrow> string \<Rightarrow> bool" where
  "archive_status_allowed d dest_rel =
     (case map_of (rs_flat (sc_fields (schema_of d dest_rel))) ''status'' of
        None \<Rightarrow> False
      | Some def \<Rightarrow>
          fa_ty (fd_attrs def) \<in> {None, Some FEnum, Some FText}
          \<and> (case fa_values (fd_attrs def) of None \<Rightarrow> True | Some vs \<Rightarrow> ARCHIVED_STATUS \<in> set vs))"

definition move_guards :: "'r write_deps \<Rightarrow> 'r doc_index \<Rightarrow> move_request \<Rightarrow> 'r \<Rightarrow> (write_error, string) outcome" where
  "move_guards d dx req r =
     (if is_create (mv_change req)
      then Err (InternalErr ''write_document called with a create and dest_path set; a create cannot also be a move'')
      else
        bind_outcome (check_not_schema_file (mv_source req)) (\<lambda>_.
        bind_outcome (check_not_schema_file (mv_dest req)) (\<lambda>_.
        bind_outcome (check_include_only d (mv_source req)) (\<lambda>_.
        bind_outcome (check_include_pattern d (mv_dest req)) (\<lambda>_.
        bind_outcome (safe_write_path d (mv_source req) r) (\<lambda>_.
        bind_outcome (safe_write_path d (mv_dest req) r) (\<lambda>_.
          case mv_expected req of
            None \<Rightarrow> Err VersionRequired
          | Some e \<Rightarrow>
              bind_outcome (check_commit_message (mv_message req)) (\<lambda>_.
                if mv_archive req \<noteq> None \<and> dx_targeting dx = None
                then Err (InternalErr ''archiving needs the document index to find links to the document, and it is unavailable right now'')
                else Ok e))))))))"

text \<open>The content at the destination, and whether the status was set.\<close>

definition move_content :: "'r write_deps \<Rightarrow> 'r doc_index \<Rightarrow> move_request \<Rightarrow> string \<Rightarrow> (write_error, string \<times> bool) outcome" where
  "move_content d dx req content =
     (case rewrite_outbound_links (dx_lower dx) content (mv_source req) (mv_dest req)
             (\<lambda>resolved. if resolved = mv_source req then Some (mv_dest req) else None) of
        Ok rewritten \<Rightarrow>
          if mv_archive req \<noteq> None \<and> archive_status_allowed d (mv_dest req)
          then (case apply_frontmatter_patch (dx_yaml dx) rewritten [SetField ''status'' (JString ARCHIVED_STATUS)] of
              Ok patched \<Rightarrow> Ok (patched, True)
            | Err _ \<Rightarrow> Ok (rewritten, False)
            | Panic \<Rightarrow> Panic)
          else Ok (rewritten, False)
      | _ \<Rightarrow> Panic)"

definition remove_source :: "'r write_deps \<Rightarrow> string \<Rightarrow> string \<Rightarrow> 'r pipe \<Rightarrow> write_error option \<times> 'r pipe" where
  "remove_source d abs_source abs_dest s =
     (case on_repo (w_remove (wd_world d) abs_source) s of
        (None, s) \<Rightarrow> (None, s)
      | (Some e, s) \<Rightarrow>
          (Some (IoErr (''Failed to remove source file during move: '' @ e)), remove_logged d abs_dest s))"

text \<open>Destination first, then the source; the end of the request when something fails.\<close>

definition move_files ::
    "'r write_deps \<Rightarrow> move_request \<Rightarrow> string \<Rightarrow> string \<Rightarrow> 'r pipe \<Rightarrow> (write_error, string) outcome \<times> 'r pipe" where
  "move_files d req abs_dest content s =
     (case on_repo (wd_mkdirs d abs_dest) s of
        (Some e, s) \<Rightarrow> (Err (IoErr (''Failed to create parent directories: '' @ e)), s)
      | (None, s) \<Rightarrow>
          (case safe_write_path d (mv_dest req) (pi_repo s) of
             Err e \<Rightarrow> (Err e, s)
           | Panic \<Rightarrow> (Panic, s)
           | Ok abs_dest \<Rightarrow>
               (case on_repo (w_create (wd_world d) abs_dest) s of
                  (CreateExists, s) \<Rightarrow> (Err AlreadyExists, s)
                | (CreateFailed e, s) \<Rightarrow> (Err (IoErr (''Failed to create file: '' @ e)), s)
                | (Created, s) \<Rightarrow>
                    (case write_or_undo d abs_dest None content s of
                       (Some e, s) \<Rightarrow> (Err e, s)
                     | (None, s) \<Rightarrow>
                         (case safe_write_path d (mv_source req) (pi_repo s) of
                            Err e \<Rightarrow> (Err e, s)
                          | Panic \<Rightarrow> (Panic, s)
                          | Ok abs_source \<Rightarrow>
                              (case remove_source d abs_source abs_dest s of
                                 (Some e, s) \<Rightarrow> (Err e, s)
                               | (None, s) \<Rightarrow> (Ok abs_dest, s)))))))"

definition move_links ::
    "'r write_deps \<Rightarrow> 'r doc_index \<Rightarrow> move_request \<Rightarrow> 'r pipe \<Rightarrow> (inbound_failure, string list) outcome \<times> 'r pipe" where
  "move_links d dx req s =
     (case dx_targeting dx of
        None \<Rightarrow> (Ok [], s)
      | Some targeting \<Rightarrow>
          on_repo (rewrite_inbound_links d dx targeting (mv_source req)
            (if mv_archive req = Some True then Unlink else Repoint (mv_dest req)) (mv_archive req \<noteq> None)) s)"

text \<open>Each path once, in order.\<close>

definition commit_paths_of :: "string \<Rightarrow> string \<Rightarrow> string list \<Rightarrow> string list" where
  "commit_paths_of source_rel dest_rel rewritten =
     foldl (\<lambda>ps p. if p \<in> set ps then ps else ps @ [p]) [source_rel, dest_rel] rewritten"

definition rollback_move ::
    "'r write_deps \<Rightarrow> move_request \<Rightarrow> string \<Rightarrow> string list \<Rightarrow> git_error \<Rightarrow> 'r pipe \<Rightarrow> attempt \<times> 'r pipe" where
  "rollback_move d req abs_dest rewritten_paths source s =
     (case on_repo (restore_from_head (wd_world d) (mv_source req)) s of
        (source_restore, s) \<Rightarrow>
          (case on_repo (rollback d True abs_dest (mv_dest req)) s of
             (dest_rollback, s) \<Rightarrow>
               (case on_repo (restore_each (wd_world d) rewritten_paths) s of
                  (failures, s) \<Rightarrow>
                    let errors = (case source_restore of Inl e \<Rightarrow> [e] | Inr _ \<Rightarrow> [])
                          @ (case dest_rollback of Inl e \<Rightarrow> [e] | Inr _ \<Rightarrow> []) @ map snd failures
                    in (Finished (Err (PreCommitFailed (errors = []) (source # errors))),
                        if errors = [] then s else ask_attention s))))"

definition moved_success ::
    "'r write_deps \<Rightarrow> write_outcome \<Rightarrow> string \<Rightarrow> string list \<Rightarrow> string \<Rightarrow> string list \<Rightarrow> bool \<Rightarrow> bool \<Rightarrow> string option
       \<Rightarrow> write_success" where
  "moved_success d outcome sha rebased_paths diff rewritten_paths status_set merged version =
     \<lparr>ws_outcome = outcome, ws_sha = sha, ws_rebased_paths = rebased_paths, ws_diff = diff, ws_merged = merged,
      ws_version = version, ws_related = [], ws_rewritten = rewritten_paths, ws_referencing = [],
      ws_status_set = status_set\<rparr>"

definition commit_moved ::
    "'r write_deps \<Rightarrow> move_request \<Rightarrow> string \<Rightarrow> string \<Rightarrow> applied \<Rightarrow> string \<Rightarrow> bool \<Rightarrow> string list \<Rightarrow> 'r pipe
       \<Rightarrow> attempt \<times> 'r pipe" where
  "commit_moved d req abs_dest current ap content status_set rewritten_paths s =
     (let source_rel = mv_source req; dest_rel = mv_dest req;
          commit_message = build_commit_message (mv_message req)
            ((if mv_archive req \<noteq> None then ''docs: archive '' else ''docs: move '') @ source_rel @ '' to '' @ dest_rel)
            (mv_operation req);
          commit_paths = commit_paths_of source_rel dest_rel rewritten_paths;
          diff = wd_diff d current content dest_rel
      in case on_repo (commit_and_sync (wd_world d) (wd_remote d) commit_paths commit_message) s of
        (Inl (PreCommit source), s) \<Rightarrow> rollback_move d req abs_dest rewritten_paths source s
      | (Inl (PostCommit sha source rebased_paths), s) \<Rightarrow>
          (Finished (Ok (moved_success d CommittedPendingSync sha [] diff rewritten_paths status_set (ap_merged ap)
             (Some (wd_version d content)))),
           mark_dirty d (source_rel # dest_rel # rewritten_paths @ rebased_paths) s)
      | (Inl (Conflict source), s) \<Rightarrow> (TryAgain, s)
      | (Inr oc, s) \<Rightarrow>
          (Finished (Ok (moved_success d Synced (co_sha oc) (co_rebased_paths oc) diff rewritten_paths status_set
             (ap_merged ap \<or> rebase_touched (co_rebased_paths oc) commit_paths)
             (if rebase_touched (co_rebased_paths oc) [dest_rel] then None else Some (wd_version d content)))),
           mark_dirty d (source_rel # dest_rel # rewritten_paths @ co_rebased_paths oc) s))"

text \<open>The end of an attempt whose links could not be rewritten: everything written so far is undone.\<close>

definition undo_move :: "'r write_deps \<Rightarrow> move_request \<Rightarrow> string \<Rightarrow> inbound_failure \<Rightarrow> 'r pipe \<Rightarrow> 'r pipe" where
  "undo_move d req abs_dest f s = remove_logged d abs_dest (restore_logged d (if_written f @ [mv_source req]) s)"

definition move_written ::
    "'r write_deps \<Rightarrow> 'r doc_index \<Rightarrow> move_request \<Rightarrow> string \<Rightarrow> applied \<Rightarrow> string \<times> bool \<Rightarrow> string \<Rightarrow> 'r pipe
       \<Rightarrow> attempt \<times> 'r pipe" where
  "move_written d dx req current ap content abs_dest s =
     (case move_files d req abs_dest (fst content) s of
        (Err e, s) \<Rightarrow> (Finished (Err e), s)
      | (Panic, s) \<Rightarrow> (Finished Panic, s)
      | (Ok abs_dest, s) \<Rightarrow>
          (case move_links d dx req s of
             (Err f, s) \<Rightarrow> (Finished (Err (link_failure f)), undo_move d req abs_dest f s)
           | (Panic, s) \<Rightarrow> (Finished Panic, s)
           | (Ok rewritten_paths, s) \<Rightarrow>
               commit_moved d req abs_dest current ap (fst content) (snd content) rewritten_paths s))"

definition move_prepared ::
    "'r write_deps \<Rightarrow> 'r doc_index \<Rightarrow> move_request \<Rightarrow> string \<Rightarrow> string \<Rightarrow> string \<Rightarrow> 'r pipe \<Rightarrow> attempt \<times> 'r pipe" where
  "move_prepared d dx req expected current abs_dest s =
     (if dx_exists dx abs_dest (pi_repo s) then (Finished (Err AlreadyExists), s)
      else case on_repo (apply_change d (mv_change req) current (Some expected) None) s of
        (Inl e, s) \<Rightarrow> (Finished (Err e), s)
      | (Inr ap, s) \<Rightarrow>
          (case move_content d dx req (ap_content ap) of
             Err e \<Rightarrow> (Finished (Err e), s)
           | Panic \<Rightarrow> (Finished Panic, s)
           | Ok content \<Rightarrow>
               (case validate_document d (mv_dest req) (fst content) of
                  Inl e \<Rightarrow> (Finished (Err e), s)
                | Inr _ \<Rightarrow> move_written d dx req current ap content abs_dest s)))"

definition move_attempt ::
    "'r write_deps \<Rightarrow> 'r doc_index \<Rightarrow> move_request \<Rightarrow> string \<Rightarrow> 'r pipe \<Rightarrow> attempt \<times> 'r pipe" where
  "move_attempt d dx req expected s =
     (case safe_write_path d (mv_source req) (pi_repo s) of
        Err e \<Rightarrow> (Finished (Err e), s)
      | Panic \<Rightarrow> (Finished Panic, s)
      | Ok abs_source \<Rightarrow>
          (case wd_read d abs_source (pi_repo s) of
             ReadFailed e \<Rightarrow> (Finished (Err (IoErr (''Failed to read existing file: '' @ e))), s)
           | ReadMissing \<Rightarrow> (Finished (Err NotFoundErr), s)
           | ReadContent current \<Rightarrow>
               if \<not> versions_match d expected current then (Finished (Err EditedElsewhere), s)
               else (case safe_write_path d (mv_dest req) (pi_repo s) of
                 Err e \<Rightarrow> (Finished (Err e), s)
               | Panic \<Rightarrow> (Finished Panic, s)
               | Ok abs_dest \<Rightarrow> move_prepared d dx req expected current abs_dest s)))"

definition write_document_move ::
    "'r write_deps \<Rightarrow> 'r doc_index \<Rightarrow> move_request \<Rightarrow> 'r pipe \<Rightarrow> write_result \<times> 'r pipe" where
  "write_document_move d dx req s =
     (case move_guards d dx req (pi_repo s) of
        Err e \<Rightarrow> (Err e, s)
      | Panic \<Rightarrow> (Panic, s)
      | Ok expected \<Rightarrow>
          (case sync_clone d None s of
             (head, s) \<Rightarrow> repeat_attempts MAX_WRITE_ATTEMPTS d (move_attempt d dx req expected) head s))"

end
