(* ===== verification/MoveSpec.thy ===== *)
theory MoveSpec
  imports MovePipeline WriteSpec
begin

text \<open>
  Deletes and moves leave nothing behind: with every file clean before, every file is clean after, or an
  operator was asked to look. The proofs follow the set of files that may differ from HEAD.
\<close>

section \<open>Which files may differ from HEAD\<close>

definition loose_within :: "'r clone_view \<Rightarrow> string set \<Rightarrow> 'r \<Rightarrow> bool" where
  "loose_within v P r \<longleftrightarrow> (\<forall>q. q \<notin> P \<longrightarrow> clean v r q)"

text \<open>A step that is fine unless somebody was asked to look.\<close>

definition calm :: "'r clone_view \<Rightarrow> string set \<Rightarrow> 'r pipe \<Rightarrow> bool" where
  "calm v P s \<longleftrightarrow> loose_within v P (pi_repo s) \<or> pi_attention s"

lemma loose_within_mono: "loose_within v P r \<Longrightarrow> P \<subseteq> Q \<Longrightarrow> loose_within v Q r"
  by (auto simp: loose_within_def)

lemma loose_within_files: "same_files v r s \<Longrightarrow> loose_within v P s \<longleftrightarrow> loose_within v P r"
  by (simp add: loose_within_def same_filesD(4) [of v r s])

lemma loose_within_but:
  assumes "same_but v p r s" "loose_within v P r"
  shows "loose_within v (insert p P) s"
proof -
  have "committed v s = committed v r" by (rule same_butD(2) [OF assms(1)])
  then show ?thesis using assms by (simp add: loose_within_def clean_def same_but_def)
qed

lemma restore_from_head_files:
  assumes "git_laws w v" "restore_from_head w p r = (x, r')"
  shows "cv_head v r' = cv_head v r" and "x = Inr u \<Longrightarrow> loose_within v P r \<Longrightarrow> loose_within v (P - {p}) r'"
proof -
  obtain y where y: "git_ok w None [''restore'', ''--source=HEAD'', ''--staged'', ''--worktree'', ''--'', p] r = (y, r')"
    and x: "x = (case y of Inr _ \<Rightarrow> Inr () | Inl c \<Rightarrow> Inl c)"
    using assms(2) by (auto simp: restore_from_head_def split: prod.splits sum.splits)
  note law = git_lawsD(8) [OF assms(1), unfolded law_restore_def, rule_format]
  show head: "cv_head v r' = cv_head v r" using law by (cases rule: git_ok_cases [OF y]) blast+
  assume "x = Inr u" and P: "loose_within v P r"
  then obtain out where "y = Inr out" using x by (cases y) auto
  then have "cv_work v r' = (cv_work v r)(p := committed v r p)"
    using law by (cases rule: git_ok_cases [OF y]) (auto simp: succeeded_def)
  then show "loose_within v (P - {p}) r'" using P head by (auto simp: loose_within_def clean_def committed_def)
qed

lemma restore_each_files:
  assumes "git_laws w v"
  shows "restore_each w ps r = (fs, r') \<Longrightarrow> cv_head v r' = cv_head v r"
    and "restore_each w ps r = ([], r') \<Longrightarrow> loose_within v P r \<Longrightarrow> loose_within v (P - set ps) r'"
proof -
  show "restore_each w ps r = (fs, r') \<Longrightarrow> cv_head v r' = cv_head v r"
  proof (induction ps arbitrary: r fs r')
    case (Cons p ps)
    obtain x r1 where x: "restore_from_head w p r = (x, r1)" by fastforce
    obtain gs r2 where g: "restore_each w ps r1 = (gs, r2)" by fastforce
    have "r' = r2" using Cons.prems x g by (auto split: sum.splits)
    then show ?case using Cons.IH [OF g] restore_from_head_files(1) [OF assms x] by simp
  qed simp
  show "restore_each w ps r = ([], r') \<Longrightarrow> loose_within v P r \<Longrightarrow> loose_within v (P - set ps) r'"
  proof (induction ps arbitrary: r P)
    case (Cons p ps)
    obtain x r1 where x: "restore_from_head w p r = (x, r1)" by fastforce
    obtain u where u: "x = Inr u" using Cons.prems(1) x by (cases x) (auto split: prod.splits)
    have "restore_each w ps r1 = ([], r')" using Cons.prems(1) x u by simp
    from Cons.IH [OF this restore_from_head_files(2) [OF assms x u Cons.prems(2)]]
    have "loose_within v (P - {p} - set ps) r'" .
    moreover have "P - {p} - set ps = P - set (p # ps)" by auto
    ultimately show ?case by simp
  qed simp
qed

lemma restore_logged_calm:
  assumes "git_laws (wd_world d) v" "calm v P s"
  shows "calm v (P - set ps) (restore_logged d ps s)"
    and "pi_attention s \<Longrightarrow> pi_attention (restore_logged d ps s)"
    and "cv_head v (pi_repo (restore_logged d ps s)) = cv_head v (pi_repo s)"
proof -
  obtain fs r where r: "restore_each (wd_world d) ps (pi_repo s) = (fs, r)" by fastforce
  have eq: "restore_logged d ps s = (if fs = [] then s\<lparr>pi_repo := r\<rparr> else ask_attention (s\<lparr>pi_repo := r\<rparr>))"
    using r by (simp add: restore_logged_def on_repo_def)
  show "calm v (P - set ps) (restore_logged d ps s)"
    using assms(2) restore_each_files(2) [OF assms(1), of ps "pi_repo s" r P] r by (auto simp: calm_def eq)
  show "pi_attention s \<Longrightarrow> pi_attention (restore_logged d ps s)" by (simp add: eq)
  show "cv_head v (pi_repo (restore_logged d ps s)) = cv_head v (pi_repo s)"
    using restore_each_files(1) [OF assms(1) r] by (simp add: eq)
qed

lemma remove_logged_calm:
  assumes "file_laws d v" "document_path p" "calm v P s" "committed v (pi_repo s) p = None"
  shows "calm v (P - {p}) (remove_logged d p s)"
proof -
  obtain x r where x: "w_remove (wd_world d) p (pi_repo s) = (x, r)" by fastforce
  have eq: "remove_logged d p s = (if x = None then s\<lparr>pi_repo := r\<rparr> else ask_attention (s\<lparr>pi_repo := r\<rparr>))"
    using x by (auto simp: remove_logged_def on_repo_def split: option.split)
  have "loose_within v (P - {p}) r" if "x = None" "loose_within v P (pi_repo s)"
  proof -
    have b: "same_but v p (pi_repo s) r" and n: "cv_work v r p = None"
      using file_lawsD(3) [OF assms(1), unfolded law_remove_def, rule_format, OF x] assms(2) that(1) by simp_all
    have "clean v r p" using n assms(4) same_butD(2) [OF b] by (simp add: clean_def)
    then show ?thesis using loose_within_but [OF b that(2)] by (auto simp: loose_within_def)
  qed
  then show ?thesis using assms(3) by (auto simp: calm_def eq)
qed

section \<open>Rewriting links\<close>

text \<open>The index names documents relative to the root.\<close>

definition index_relative :: "'r doc_index \<Rightarrow> bool" where
  "index_relative dx \<longleftrightarrow>
     (\<forall>targeting p r refs. dx_targeting dx = Some targeting \<longrightarrow> targeting p r = Inr refs \<longrightarrow>
        list_all (\<lambda>q. kb_root_relative q = q) refs)"

fun written_paths :: "(inbound_failure, string list) outcome \<Rightarrow> string list" where
  "written_paths (Ok ps) = ps"
| "written_paths (Err f) = if_written f"
| "written_paths Panic = []"

lemma rewrite_documents_files:
  assumes "git_laws (wd_world d) v" "file_laws d v"
  shows "list_all (\<lambda>q. kb_root_relative q = q) refs
    \<Longrightarrow> rewrite_documents d lower src action refs written r = (res, r') \<Longrightarrow> loose_within v (P \<union> set written) r
    \<Longrightarrow> cv_head v r' = cv_head v r \<and> (res \<noteq> Panic \<longrightarrow> loose_within v (P \<union> set (written_paths res)) r')"
proof (induction refs arbitrary: written r)
  case Nil
  then show ?case by auto
next
  case (Cons q refs)
  note IH = Cons.IH [OF _ _ Cons.prems(3)]
  show ?case
  proof (cases "q = src")
    case True
    then show ?thesis using IH Cons.prems(1,2) by simp
  next
    case False
    show ?thesis
    proof (cases "safe_write_path d q r")
      case (Err e)
      then show ?thesis using IH Cons.prems(1,2) False by simp
    next
      case Panic
      then show ?thesis using Cons.prems(2) False by auto
    next
      case (Ok p)
      have p: "p = q" "document_path q" using safe_write_path_document [OF Ok] Cons.prems(1) by simp_all
      show ?thesis
      proof (cases "\<exists>body new. wd_read d q r = ReadContent body \<and> inbound_body lower src action q body = Ok (Some new)")
        case False
        then show ?thesis
          using IH Cons.prems(1,2) \<open>q \<noteq> src\<close> Ok p
          by (auto split: read_result.splits outcome.splits option.splits)
      next
        case True
        then obtain body new where body: "wd_read d q r = ReadContent body" "inbound_body lower src action q body = Ok (Some new)"
          by blast
        obtain x r1 where x: "w_write (wd_world d) q new r = (x, r1)" by fastforce
        have b: "same_but v q r r1"
          using file_lawsD(1) [OF assms(2), unfolded law_write_def, rule_format, OF x] p(2) by simp
        have l: "loose_within v (P \<union> set (written @ [q])) r1"
          using loose_within_but [OF b Cons.prems(3)] by (rule loose_within_mono) auto
        show ?thesis
        proof (cases x)
          case None
          have "rewrite_documents d lower src action refs (written @ [q]) r1 = (res, r')"
            using Cons.prems(2) \<open>q \<noteq> src\<close> Ok p(1) body x None by simp
          then show ?thesis using Cons.IH [OF _ _ l] Cons.prems(1) same_butD(1) [OF b] by simp
        next
          case (Some e)
          have eq: "res = Err \<lparr>if_path = q, if_msg = e, if_written = written @ [q]\<rparr>" "r' = r1"
            using Cons.prems(2) \<open>q \<noteq> src\<close> Ok p(1) body x Some by simp_all
          then show ?thesis using l same_butD(1) [OF b] by simp
        qed
      qed
    qed
  qed
qed

lemma rewrite_inbound_files:
  assumes "git_laws (wd_world d) v" "file_laws d v" "index_relative dx" "dx_targeting dx = Some targeting"
    and "rewrite_inbound_links d dx targeting src action strict r = (res, r')" "loose_within v P r"
  shows "cv_head v r' = cv_head v r" and "res \<noteq> Panic \<Longrightarrow> loose_within v (P \<union> set (written_paths res)) r'"
proof -
  have "cv_head v r' = cv_head v r \<and> (res \<noteq> Panic \<longrightarrow> loose_within v (P \<union> set (written_paths res)) r')"
  proof (cases "targeting src r")
    case (Inl e)
    then show ?thesis using assms(5,6) by (auto simp: rewrite_inbound_links_def split: if_splits)
  next
    case (Inr refs)
    have "list_all (\<lambda>q. kb_root_relative q = q) refs" using assms(3,4) Inr by (simp add: index_relative_def)
    moreover have "rewrite_documents d (dx_lower dx) src action refs [] r = (res, r')"
      using assms(5) Inr by (simp add: rewrite_inbound_links_def)
    ultimately show ?thesis using rewrite_documents_files [OF assms(1,2), of refs _ src action "[]" r res r' P] assms(6) by simp
  qed
  then show "cv_head v r' = cv_head v r" "res \<noteq> Panic \<Longrightarrow> loose_within v (P \<union> set (written_paths res)) r'" by blast+
qed

section \<open>The commit\<close>

lemma commit_all_clean:
  assumes "git_laws w v" "commit_and_sync w rm paths m r = (res, r')" "loose_within v (set paths) r"
  shows "res = Inl (PreCommit c) \<Longrightarrow> same_view v r r'"
    and "\<forall>c. res \<noteq> Inl (PreCommit c) \<Longrightarrow> loose_within v {} r'"
proof -
  have q: "(\<exists>c. res = Inl (PreCommit c)) \<and> same_view v r r'
    \<or> (\<exists>pre. (pre = None \<or> pre = Some (cv_head v r)) \<and> landed v pre (cv_work v r) [q] res r')" for q
    using commit_and_sync_view [OF assms(1,2), of "[q]"] assms(3) by (auto simp: loose_within_def)
  show "res = Inl (PreCommit c) \<Longrightarrow> same_view v r r'" using q [of "[]"] by (auto simp: landed_def)
  show "loose_within v {} r'" if "\<forall>c. res \<noteq> Inl (PreCommit c)"
    unfolding loose_within_def
  proof (intro allI impI)
    fix p
    from q [of p] that show "clean v r' p" by (auto simp: landed_def)
  qed
qed

definition finishes_calm :: "'r clone_view \<Rightarrow> attempt \<Rightarrow> 'r pipe \<Rightarrow> bool" where
  "finishes_calm v a s \<longleftrightarrow> a = Finished Panic \<or> (if a = TryAgain then loose_within v {} (pi_repo s) else calm v {} s)"

lemma calm_mark_dirty [simp]: "calm v P (mark_dirty d ps s) = calm v P s"
  by (simp add: calm_def)

lemma calm_attention [simp]: "calm v P (ask_attention s)"
  by (simp add: calm_def)

lemma loose_to_calm: "loose_within v P (pi_repo s) \<Longrightarrow> P \<subseteq> Q \<Longrightarrow> calm v Q s"
  by (auto simp: calm_def intro: loose_within_mono)

lemma calm_mono: "calm v P s \<Longrightarrow> P \<subseteq> Q \<Longrightarrow> calm v Q s"
  by (auto simp: calm_def intro: loose_within_mono)

lemma finishes_calm_Err: "calm v {} s \<Longrightarrow> finishes_calm v (Finished (Err e)) s"
  by (simp add: finishes_calm_def)

section \<open>One deletion\<close>

lemma commit_deleted_calm:
  assumes "git_laws (wd_world d) v" "loose_within v (insert p (set ws)) (pi_repo s)"
    and "commit_deleted d p m old refs ws s = (a, s')"
  shows "finishes_calm v a s'"
proof -
  obtain x r where x: "commit_and_sync (wd_world d) (wd_remote d) (p # ws) m (pi_repo s) = (x, r)" by fastforce
  note c = commit_all_clean [OF assms(1) x]
  show ?thesis
  proof (cases "\<exists>c. x = Inl (PreCommit c)")
    case True
    then obtain e where e: "x = Inl (PreCommit e)" ..
    have "same_view v (pi_repo s) r" using c(1) [OF _ e] assms(2) by simp
    from loose_within_files [OF same_view_files [OF this]] assms(2)
    have "calm v (insert p (set ws)) (s\<lparr>pi_repo := r\<rparr>)" by (simp add: calm_def)
    from restore_logged_calm(1) [OF assms(1) this, of ws]
    have l: "calm v {p} (restore_logged d ws (s\<lparr>pi_repo := r\<rparr>))" by (rule calm_mono) auto
    obtain y r2 where y: "restore_from_head (wd_world d) p (pi_repo (restore_logged d ws (s\<lparr>pi_repo := r\<rparr>))) = (y, r2)"
      by fastforce
    show ?thesis
    proof (cases y)
      case (Inl f)
      then show ?thesis using assms(3) x e y by (auto simp: commit_deleted_def on_repo_def finishes_calm_def)
    next
      case (Inr u)
      then have "calm v {} ((restore_logged d ws (s\<lparr>pi_repo := r\<rparr>))\<lparr>pi_repo := r2\<rparr>)"
        using restore_from_head_files(2) [OF assms(1) y Inr, of "{p}"] l by (auto simp: calm_def)
      then show ?thesis using assms(3) x e y Inr by (auto simp: commit_deleted_def on_repo_def finishes_calm_def)
    qed
  next
    case False
    then have l: "loose_within v {} r" using c(2) assms(2) by auto
    have "pi_repo s' = r"
    proof (cases x)
      case (Inl e)
      then show ?thesis using assms(3) x False by (cases e) (auto simp: commit_deleted_def on_repo_def Let_def)
    qed (use assms(3) x in \<open>auto simp: commit_deleted_def on_repo_def Let_def\<close>)
    then show ?thesis using l by (simp add: finishes_calm_def calm_def)
  qed
qed

lemma unlink_step_files:
  assumes "git_laws (wd_world d) v" "file_laws d v" "index_relative dx"
    and "unlink_step d dx p unlink s = (res, s')" "loose_within v P (pi_repo s)"
  shows "res \<noteq> Panic \<Longrightarrow> loose_within v (P \<union> set (written_paths res)) (pi_repo s')"
proof (cases "if unlink then dx_targeting dx else None")
  case None
  then show ?thesis using assms(4,5) by (auto simp: unlink_step_def)
next
  case (Some targeting)
  obtain x r where x: "rewrite_inbound_links d dx targeting p Unlink True (pi_repo s) = (x, r)" by fastforce
  show "res \<noteq> Panic \<Longrightarrow> ?thesis"
    using rewrite_inbound_files(2) [OF assms(1-3) _ x assms(5)] assms(4) Some x
    by (auto simp: unlink_step_def on_repo_def split: if_splits)
qed

lemma delete_attempt_calm:
  assumes "git_laws (wd_world d) v" "file_laws d v" "index_relative dx" "kb_root_relative p = p"
    and "loose_within v {} (pi_repo s)" "delete_attempt d dx p m e unlink refs s = (a, s')"
  shows "finishes_calm v a s'"
proof (cases "safe_write_path d p (pi_repo s)")
  case (Ok path)
  have path: "path = p" "document_path p" using safe_write_path_document [OF Ok] assms(4) by simp_all
  show ?thesis
  proof (cases "\<exists>old. wd_read d p (pi_repo s) = ReadContent old \<and> versions_match d e old")
    case True
    then obtain old where old: "wd_read d p (pi_repo s) = ReadContent old" "versions_match d e old" by blast
    obtain x r1 where x: "w_remove (wd_world d) p (pi_repo s) = (x, r1)" by fastforce
    note R = file_lawsD(3) [OF assms(2), unfolded law_remove_def, rule_format, OF x]
    show ?thesis
    proof (cases x)
      case (Some f)
      then have "loose_within v {} r1" using R assms(5) loose_within_files by fastforce
      then show ?thesis using assms(6) Ok path old x Some
        by (auto simp: delete_attempt_def on_repo_def finishes_calm_def calm_def)
    next
      case None
      have l: "loose_within v {p} (pi_repo (s\<lparr>pi_repo := r1\<rparr>))"
        using R None path(2) loose_within_but [OF _ assms(5)] by simp
      obtain y s2 where y: "unlink_step d dx p unlink (s\<lparr>pi_repo := r1\<rparr>) = (y, s2)" by fastforce
      have u: "y \<noteq> Panic \<Longrightarrow> loose_within v ({p} \<union> set (written_paths y)) (pi_repo s2)"
        by (rule unlink_step_files [OF assms(1-3) y l])
      have eq: "(a, s') = (case y of Err f \<Rightarrow> (Finished (Err (link_failure f)), restore_logged d (if_written f @ [p]) s2)
          | Panic \<Rightarrow> (Finished Panic, s2) | Ok ws \<Rightarrow> commit_deleted d p m old refs ws s2)"
        using assms(6) Ok path(1) old x None y by (simp add: delete_attempt_def on_repo_def)
      show ?thesis
      proof (cases y)
        case (Ok ws)
        then show ?thesis using u eq commit_deleted_calm [OF assms(1), of p ws s2] by simp
      next
        case (Err f)
        have "calm v {} (restore_logged d (if_written f @ [p]) s2)"
          using restore_logged_calm(1) [OF assms(1) loose_to_calm [OF u order_refl], of "if_written f @ [p]"] Err
          by (auto elim: calm_mono)
        then show ?thesis using eq Err by (simp add: finishes_calm_Err)
      qed (use eq in \<open>simp add: finishes_calm_def\<close>)
    qed
  qed (use assms(5,6) Ok path in \<open>auto simp: delete_attempt_def finishes_calm_def calm_def split: read_result.splits if_splits\<close>)
qed (use assms(5,6) in \<open>auto simp: delete_attempt_def finishes_calm_def calm_def\<close>)

section \<open>All attempts\<close>

lemma sync_clone_loose:
  assumes "git_laws (wd_world d) v" "sync_clone d since s = (h, s')" "loose_within v {} (pi_repo s)"
  shows "loose_within v {} (pi_repo s')"
  using sync_clone_clean(1) [OF assms(1,2)] assms(3) by (simp add: loose_within_def)

lemma repeat_attempts_calm:
  assumes "git_laws (wd_world d) v"
    and "\<And>s a s'. loose_within v {} (pi_repo s) \<Longrightarrow> attempt s = (a, s') \<Longrightarrow> finishes_calm v a s'"
  shows "loose_within v {} (pi_repo s) \<Longrightarrow> repeat_attempts n d attempt head s = (res, s') \<Longrightarrow> res \<noteq> Panic \<Longrightarrow> calm v {} s'"
proof (induction n arbitrary: head s)
  case 0
  then show ?case by (auto simp: calm_def)
next
  case (Suc n)
  obtain a s1 where a: "attempt s = (a, s1)" by fastforce
  note f = assms(2) [OF Suc.prems(1) a]
  show ?case
  proof (cases a)
    case (Finished r)
    then show ?thesis using Suc.prems(2,3) a f by (simp add: finishes_calm_def)
  next
    case TryAgain
    obtain h s2 where s2: "sync_clone d head s1 = (h, s2)" by fastforce
    have "loose_within v {} (pi_repo s2)"
      using sync_clone_loose [OF assms(1) s2] f TryAgain by (simp add: finishes_calm_def)
    then show ?thesis using Suc.IH [of s2 h] Suc.prems(2,3) a TryAgain s2 by simp
  qed
qed

lemma delete_document_calm:
  assumes "git_laws (wd_world d) v" "file_laws d v" "index_relative dx" "kb_root_relative p = p"
    and "loose_within v {} (pi_repo s)" "delete_document_with d dx p message expected unlink s = (res, s')" "res \<noteq> Panic"
  shows "calm v {} s'"
proof (cases "delete_guards d dx p message expected unlink (pi_repo s)")
  case (Ok e)
  obtain h s1 where s1: "sync_clone d None s = (h, s1)" by fastforce
  have "repeat_attempts MAX_WRITE_ATTEMPTS d (delete_attempt d dx p (build_commit_message message (''docs: delete '' @ p)
      ''delete_document'') e unlink (referencing_of dx p unlink (pi_repo s))) h s1 = (res, s')"
    using assms(6) Ok s1 by (simp add: delete_document_with_def Let_def)
  from repeat_attempts_calm [OF assms(1) delete_attempt_calm [OF assms(1-4)] sync_clone_loose [OF assms(1) s1 assms(5)] this assms(7)]
  show ?thesis .
qed (use assms(5-7) in \<open>auto simp: delete_document_with_def calm_def\<close>)


section \<open>One move\<close>

text \<open>
  The verdict of the path check on the source does not change while a request runs: nothing of it
  replaces a directory on the way to the source by a link.
\<close>

definition steady :: "'r write_deps \<Rightarrow> string \<Rightarrow> bool" where
  "steady d rel \<longleftrightarrow> (\<forall>r r'. safe_write_path d rel r' = safe_write_path d rel r)"

lemma rollback_new_files:
  assumes "git_laws (wd_world d) v" "file_laws d v" "document_path p" "committed v r p = None"
    and "rollback d True p p r = (Inr u, r')" "loose_within v P r"
  shows "loose_within v (P - {p}) r'"
proof -
  obtain x r1 where x: "w_remove (wd_world d) p r = (x, r1)" by fastforce
  have none: "x = None" using assms(5) x by (auto simp: rollback_def split: option.splits)
  have r1: "same_but v p r r1"
    using file_lawsD(3) [OF assms(2), unfolded law_remove_def, rule_format, OF x] assms(3) none by simp
  obtain y where y: "git_ok (wd_world d) None [''reset'', ''--'', p] r1 = (y, r')"
    using assms(5) x none by (auto simp: rollback_def unstage_def split: prod.splits sum.splits)
  have "same_view v r1 r'" by (rule git_ok_quiet [OF assms(1) _ y]) (simp add: quiet_def)
  from loose_within_files [OF same_view_files [OF this]] loose_within_but [OF r1 assms(6)]
  have "loose_within v (insert p P) r'" by simp
  moreover have "clean v r' p" by (rule rollback_files [OF assms(1-3) _ assms(5)]) (rule assms(4))
  ultimately show ?thesis by (auto simp: loose_within_def)
qed

lemma remove_source_calm:
  assumes "file_laws d v" "document_path p" "document_path q" "loose_within v {q} (pi_repo s)"
    and c: "committed v (pi_repo s) q = None" and "remove_source d p q s = (x, s')"
  shows "case x of None \<Rightarrow> committed v (pi_repo s') q = None \<and> loose_within v {p, q} (pi_repo s') | Some _ \<Rightarrow> calm v {} s'"
proof -
  obtain y r1 where y: "w_remove (wd_world d) p (pi_repo s) = (y, r1)" by fastforce
  note R = file_lawsD(3) [OF assms(1), unfolded law_remove_def, rule_format, OF y]
  show ?thesis
  proof (cases y)
    case None
    then have b: "same_but v p (pi_repo s) r1" using R assms(2) by simp
    show ?thesis using assms(6) y None c same_butD(2) [OF b] loose_within_but [OF b assms(4)]
      by (auto simp: remove_source_def on_repo_def)
  next
    case (Some e)
    then have f: "same_files v (pi_repo s) r1" using R by simp
    have "calm v {q} (s\<lparr>pi_repo := r1\<rparr>)" using loose_within_files [OF f] assms(4) by (simp add: calm_def)
    moreover have "committed v (pi_repo (s\<lparr>pi_repo := r1\<rparr>)) q = None" using c same_filesD(3) [OF f] by simp
    ultimately have "calm v ({q} - {q}) (remove_logged d q (s\<lparr>pi_repo := r1\<rparr>))"
      by (rule remove_logged_calm [OF assms(1,3)])
    then show ?thesis using assms(6) y Some by (auto simp: remove_source_def on_repo_def)
  qed
qed

lemma move_files_calm:
  assumes "git_laws (wd_world d) v" "file_laws d v" "kb_root_relative (mv_source req) = mv_source req"
    and "kb_root_relative (mv_dest req) = mv_dest req" "steady d (mv_source req)"
    and "safe_write_path d (mv_source req) r0 = Ok (mv_source req)"
    and "loose_within v {} (pi_repo s)" "move_files d req path content s = (x, s')"
  shows "case x of Ok q \<Rightarrow> q = mv_dest req \<and> document_path q \<and> committed v (pi_repo s') q = None
        \<and> loose_within v {mv_source req, q} (pi_repo s')
    | Err _ \<Rightarrow> calm v {} s' | Panic \<Rightarrow> True"
proof -
  let ?p = "mv_source req" and ?q = "mv_dest req"
  obtain y r1 where y: "wd_mkdirs d path (pi_repo s) = (y, r1)" by fastforce
  have f: "same_files v (pi_repo s) r1"
    using file_lawsD(4) [OF assms(2)] y by (simp add: law_mkdirs_def) (metis snd_conv)
  have l1: "loose_within v {} r1" using assms(7) loose_within_files [OF f] by simp
  show ?thesis
  proof (cases "y = None \<and> safe_write_path d ?q r1 = Ok ?q")
    case False
    have "safe_write_path d ?q r1 = Ok z \<Longrightarrow> z = ?q" for z using safe_write_path_document(1) assms(4) by metis
    then show ?thesis using False assms(8) y l1
      by (auto simp: move_files_def on_repo_def calm_def split: option.splits outcome.splits)
  next
    case True
    then have q: "document_path ?q" by (blast intro: safe_write_path_document(2))
    obtain z r2 where z: "w_create (wd_world d) ?q r1 = (z, r2)" by fastforce
    note C = file_lawsD(2) [OF assms(2), unfolded law_create_def, rule_format, OF q z]
    show ?thesis
    proof (cases "z = Created")
      case False
      then have "loose_within v {} r2" using C l1 loose_within_files by fastforce
      then show ?thesis using False assms(8) y True z
        by (cases z) (auto simp: move_files_def on_repo_def calm_def)
    next
      case created: True
      then have b2: "same_but v ?q r1 r2" and n: "committed v r1 ?q = None"
        using C l1 by (auto simp: loose_within_def clean_def)
      have l2: "loose_within v {?q} r2" by (rule loose_within_but [OF b2 l1])
      obtain w s3 where w: "write_or_undo d ?q None content (s\<lparr>pi_repo := r2\<rparr>) = (w, s3)" by fastforce
      note u = write_or_undo_files [OF assms(2) q w]
      have b3: "same_but v ?q r2 (pi_repo s3)" using u(1) by simp
      have l3: "loose_within v {?q} (pi_repo s3)" using loose_within_but [OF b3 l2] by simp
      have n3: "committed v (pi_repo s3) ?q = None" using n same_butD(2) [OF b2] same_butD(2) [OF b3] by simp
      have src: "safe_write_path d ?p (pi_repo s3) = Ok ?p" using assms(5,6) unfolding steady_def by metis
      have eq: "(x, s') = (case w of Some e \<Rightarrow> (Err e, s3)
          | None \<Rightarrow> (case remove_source d ?p ?q s3 of (Some e, s) \<Rightarrow> (Err e, s) | (None, s) \<Rightarrow> (Ok ?q, s)))"
        using assms(8) y True z created w src by (simp add: move_files_def on_repo_def split: option.splits)
      show ?thesis
      proof (cases w)
        case (Some e)
        have "pi_attention s3 \<or> clean v (pi_repo s3) ?q" using u(3) [OF _ Some] n3 by (auto simp: clean_def)
        then have "calm v {} s3" using l3 by (metis calm_def empty_iff insertE loose_within_def)
        then show ?thesis using eq Some by simp
      next
        case None
        obtain t s4 where t: "remove_source d ?p ?q s3 = (t, s4)" by fastforce
        show ?thesis
          using remove_source_calm [OF assms(2) safe_write_path_document(2) [OF src] q l3 n3 t] eq None t q
          by (auto split: option.splits)
      qed
    qed
  qed
qed


lemma commit_paths_set: "set (commit_paths_of p q ws) = {p, q} \<union> set ws"
proof -
  have "set (foldl (\<lambda>ps p. if p \<in> set ps then ps else ps @ [p]) acc ws) = set acc \<union> set ws" for acc
    by (induction ws arbitrary: acc) auto
  then show ?thesis by (auto simp: commit_paths_of_def)
qed

lemma rollback_move_calm:
  assumes "git_laws (wd_world d) v" "file_laws d v" "document_path (mv_dest req)"
    and "committed v (pi_repo s) (mv_dest req) = None"
    and "loose_within v ({mv_source req, mv_dest req} \<union> set ws) (pi_repo s)"
    and "rollback_move d req (mv_dest req) ws e s = (a, s')"
  shows "finishes_calm v a s'"
proof -
  let ?p = "mv_source req" and ?q = "mv_dest req"
  obtain x r1 where x: "restore_from_head (wd_world d) ?p (pi_repo s) = (x, r1)" by fastforce
  obtain y r2 where y: "rollback d True ?q ?q r1 = (y, r2)" by fastforce
  obtain fs r3 where z: "restore_each (wd_world d) ws r2 = (fs, r3)" by fastforce
  have n: "committed v r1 ?q = None"
    using assms(4) restore_from_head_files(1) [OF assms(1) x] by (simp add: committed_def)
  have l: "loose_within v {} r3" if "x = Inr u" "y = Inr u'" "fs = []" for u u'
  proof -
    note l1 = restore_from_head_files(2) [OF assms(1) x that(1) assms(5)]
    note l2 = rollback_new_files [OF assms(1-3) n y [unfolded that(2)] l1]
    have "loose_within v ({?p, ?q} \<union> set ws - {?p} - {?q} - set ws) r3"
      by (rule restore_each_files(2) [OF assms(1) _ l2]) (simp add: z that(3))
    then show ?thesis by (rule loose_within_mono) auto
  qed
  show ?thesis
    using assms(6) x y z l
    by (cases x; cases y; cases fs) (auto simp: rollback_move_def on_repo_def Let_def finishes_calm_def calm_def)
qed

lemma commit_moved_calm:
  assumes "git_laws (wd_world d) v" "file_laws d v" "document_path (mv_dest req)"
    and "committed v (pi_repo s) (mv_dest req) = None"
    and "loose_within v ({mv_source req, mv_dest req} \<union> set ws) (pi_repo s)"
    and "commit_moved d req (mv_dest req) current ap content st ws s = (a, s')"
  shows "finishes_calm v a s'"
proof -
  let ?m = "build_commit_message (mv_message req)
    ((if mv_archive req \<noteq> None then ''docs: archive '' else ''docs: move '') @ mv_source req @ '' to '' @ mv_dest req)
    (mv_operation req)"
  let ?ps = "commit_paths_of (mv_source req) (mv_dest req) ws"
  obtain x r where x: "commit_and_sync (wd_world d) (wd_remote d) ?ps ?m (pi_repo s) = (x, r)" by fastforce
  have l: "loose_within v (set ?ps) (pi_repo s)" using assms(5) by (simp add: commit_paths_set)
  note c = commit_all_clean [OF assms(1) x l]
  show ?thesis
  proof (cases "\<exists>c. x = Inl (PreCommit c)")
    case True
    then obtain e where e: "x = Inl (PreCommit e)" ..
    have f: "same_files v (pi_repo s) r" by (rule same_view_files [OF c(1) [OF e]])
    have roll: "rollback_move d req (mv_dest req) ws e (s\<lparr>pi_repo := r\<rparr>) = (a, s')"
      using assms(6) x e by (simp add: commit_moved_def on_repo_def Let_def)
    have n: "committed v (pi_repo (s\<lparr>pi_repo := r\<rparr>)) (mv_dest req) = None"
      using assms(4) same_filesD(3) [OF f] by simp
    have "loose_within v ({mv_source req, mv_dest req} \<union> set ws) (pi_repo (s\<lparr>pi_repo := r\<rparr>))"
      using assms(5) loose_within_files [OF f] by simp
    then show ?thesis by (rule rollback_move_calm [OF assms(1-3) n _ roll])
  next
    case False
    have "pi_repo s' = r"
    proof (cases x)
      case (Inl e)
      then show ?thesis using assms(6) x False by (cases e) (auto simp: commit_moved_def on_repo_def Let_def)
    qed (use assms(6) x in \<open>auto simp: commit_moved_def on_repo_def Let_def\<close>)
    then show ?thesis using c(2) False by (simp add: finishes_calm_def calm_def)
  qed
qed

lemma move_links_files:
  assumes "git_laws (wd_world d) v" "file_laws d v" "index_relative dx"
    and "move_links d dx req s = (res, s')" "loose_within v P (pi_repo s)"
  shows "cv_head v (pi_repo s') = cv_head v (pi_repo s)"
    and "res \<noteq> Panic \<Longrightarrow> loose_within v (P \<union> set (written_paths res)) (pi_repo s')"
proof -
  have "cv_head v (pi_repo s') = cv_head v (pi_repo s)
    \<and> (res \<noteq> Panic \<longrightarrow> loose_within v (P \<union> set (written_paths res)) (pi_repo s'))"
  proof (cases "dx_targeting dx")
    case None
    then show ?thesis using assms(4,5) by (auto simp: move_links_def)
  next
    case (Some targeting)
    obtain x r where x: "rewrite_inbound_links d dx targeting (mv_source req)
        (if mv_archive req = Some True then Unlink else Repoint (mv_dest req)) (mv_archive req \<noteq> None) (pi_repo s) = (x, r)"
      by fastforce
    show ?thesis
      using rewrite_inbound_files [OF assms(1-3) Some x assms(5)] assms(4) Some x
      by (auto simp: move_links_def on_repo_def)
  qed
  then show "cv_head v (pi_repo s') = cv_head v (pi_repo s)"
    "res \<noteq> Panic \<Longrightarrow> loose_within v (P \<union> set (written_paths res)) (pi_repo s')" by blast+
qed

lemma undo_move_calm:
  assumes "git_laws (wd_world d) v" "file_laws d v" "document_path q" "committed v (pi_repo s) q = None"
    and "loose_within v ({mv_source req, q} \<union> set (if_written f)) (pi_repo s)"
  shows "calm v {} (undo_move d req q f s)"
proof -
  let ?s = "restore_logged d (if_written f @ [mv_source req]) s"
  note r = restore_logged_calm [OF assms(1) loose_to_calm [OF assms(5) order_refl], of "if_written f @ [mv_source req]"]
  have n: "committed v (pi_repo ?s) q = None" using assms(4) r(3) by (simp add: committed_def)
  have "calm v {q} ?s" using r(1) by (rule calm_mono) auto
  from remove_logged_calm [OF assms(2,3) this n] show ?thesis by (simp add: undo_move_def)
qed

text \<open>What a request for a move says of its two paths.\<close>

definition plain_move :: "'r write_deps \<Rightarrow> move_request \<Rightarrow> bool" where
  "plain_move d req \<longleftrightarrow>
     kb_root_relative (mv_source req) = mv_source req \<and> kb_root_relative (mv_dest req) = mv_dest req
     \<and> steady d (mv_source req)"

lemma move_written_calm:
  assumes "git_laws (wd_world d) v" "file_laws d v" "index_relative dx" "plain_move d req"
    and "safe_write_path d (mv_source req) r0 = Ok (mv_source req)" "loose_within v {} (pi_repo s)"
    and "move_written d dx req current ap content path s = (a, s')"
  shows "finishes_calm v a s'"
proof -
  obtain x s1 where x: "move_files d req path (fst content) s = (x, s1)" by fastforce
  have m: "case x of Ok q \<Rightarrow> q = mv_dest req \<and> document_path q \<and> committed v (pi_repo s1) q = None
        \<and> loose_within v {mv_source req, q} (pi_repo s1)
    | Err _ \<Rightarrow> calm v {} s1 | Panic \<Rightarrow> True"
    using assms(4) by (intro move_files_calm [OF assms(1,2) _ _ _ assms(5,6) x]) (simp_all add: plain_move_def)
  show ?thesis
  proof (cases x)
    case (Ok q)
    then have q: "q = mv_dest req" "document_path (mv_dest req)" "committed v (pi_repo s1) (mv_dest req) = None"
      "loose_within v {mv_source req, mv_dest req} (pi_repo s1)" using m by auto
    obtain y s2 where y: "move_links d dx req s1 = (y, s2)" by fastforce
    note l = move_links_files [OF assms(1-3) y q(4)]
    have n: "committed v (pi_repo s2) (mv_dest req) = None" using l(1) q(3) by (simp add: committed_def)
    have eq: "(a, s') = (case y of Err f \<Rightarrow> (Finished (Err (link_failure f)), undo_move d req (mv_dest req) f s2)
        | Panic \<Rightarrow> (Finished Panic, s2)
        | Ok ws \<Rightarrow> commit_moved d req (mv_dest req) current ap (fst content) (snd content) ws s2)"
      using assms(7) x Ok y q(1) by (simp add: move_written_def)
    show ?thesis
    proof (cases y)
      case (Ok ws)
      then show ?thesis using l(2) eq commit_moved_calm [OF assms(1,2) q(2) n, of ws] by simp
    next
      case (Err f)
      then show ?thesis using l(2) eq undo_move_calm [OF assms(1,2) q(2) n, of req f] by (simp add: finishes_calm_Err)
    qed (use eq in \<open>simp add: finishes_calm_def\<close>)
  qed (use m x assms(7) in \<open>auto simp: move_written_def finishes_calm_def\<close>)
qed


lemma move_attempt_calm:
  assumes "git_laws (wd_world d) v" "file_laws d v" "index_relative dx" "plain_move d req"
    and "loose_within v {} (pi_repo s)" "move_attempt d dx req expected s = (a, s')"
  shows "finishes_calm v a s'"
proof -
  have calm: "calm v {} s" using assms(5) by (simp add: calm_def)
  show ?thesis
  proof (cases "safe_write_path d (mv_source req) (pi_repo s)")
    case (Ok p)
    have p: "p = mv_source req" using safe_write_path_document(1) [OF Ok] assms(4) by (simp add: plain_move_def)
    show ?thesis
    proof (cases "\<exists>c. wd_read d p (pi_repo s) = ReadContent c \<and> versions_match d expected c
        \<and> (\<exists>q. safe_write_path d (mv_dest req) (pi_repo s) = Ok q \<and> \<not> dx_exists dx q (pi_repo s))")
      case True
      then obtain c q where c: "wd_read d p (pi_repo s) = ReadContent c" "versions_match d expected c"
        "safe_write_path d (mv_dest req) (pi_repo s) = Ok q" "\<not> dx_exists dx q (pi_repo s)" by blast
      obtain x r1 where x: "apply_change d (mv_change req) c (Some expected) None (pi_repo s) = (x, r1)" by fastforce
      have l: "loose_within v {} (pi_repo (s\<lparr>pi_repo := r1\<rparr>))"
        using assms(5) loose_within_files [OF apply_change_files [OF assms(1,2) x]] by simp
      have eq: "move_prepared d dx req expected c q s = (a, s')"
        using assms(6) Ok c by (simp add: move_attempt_def)
      show ?thesis
      proof (cases "\<exists>ap cont u. x = Inr ap \<and> move_content d dx req (ap_content ap) = Ok cont
          \<and> validate_document d (mv_dest req) (fst cont) = Inr u")
        case True
        then obtain ap cont u where "x = Inr ap" "move_content d dx req (ap_content ap) = Ok cont"
          "validate_document d (mv_dest req) (fst cont) = Inr u" by blast
        then have "move_written d dx req c ap cont q (s\<lparr>pi_repo := r1\<rparr>) = (a, s')"
          using eq c(4) x by (simp add: move_prepared_def on_repo_def)
        then show ?thesis using Ok p by (intro move_written_calm [OF assms(1-4) _ l]) simp
      next
        case False
        then have "a \<noteq> TryAgain \<and> pi_repo s' = r1" using eq c(4) x
          by (auto simp: move_prepared_def on_repo_def split: sum.splits outcome.splits)
        then show ?thesis using l by (auto simp: finishes_calm_def calm_def)
      qed
    next
      case False
      then have "a \<noteq> TryAgain \<and> s' = s" using assms(6) Ok
        by (auto simp: move_attempt_def move_prepared_def split: read_result.splits outcome.splits if_splits)
      then show ?thesis using calm by (simp add: finishes_calm_def)
    qed
  qed (use assms(6) calm in \<open>auto simp: move_attempt_def finishes_calm_def\<close>)
qed

lemma write_document_move_calm:
  assumes "git_laws (wd_world d) v" "file_laws d v" "index_relative dx" "plain_move d req"
    and "loose_within v {} (pi_repo s)" "write_document_move d dx req s = (res, s')" "res \<noteq> Panic"
  shows "calm v {} s'"
proof (cases "move_guards d dx req (pi_repo s)")
  case (Ok e)
  obtain h s1 where s1: "sync_clone d None s = (h, s1)" by fastforce
  have "repeat_attempts MAX_WRITE_ATTEMPTS d (move_attempt d dx req e) h s1 = (res, s')"
    using assms(6) Ok s1 by (simp add: write_document_move_def)
  from repeat_attempts_calm [OF assms(1) move_attempt_calm [OF assms(1-4)] sync_clone_loose [OF assms(1) s1 assms(5)] this assms(7)]
  show ?thesis .
qed (use assms(5-7) in \<open>auto simp: write_document_move_def calm_def\<close>)


text \<open>
  A delete whose commit failed says that it was rolled back once the document itself is restored, whatever
  became of the documents whose links it had removed. A move counts those too.
\<close>

lemma delete_claims_rollback:
  assumes "commit_and_sync (wd_world d) (wd_remote d) (p # ws) m (pi_repo s) = (Inl (PreCommit c), r1)"
    and "restore_each (wd_world d) ws r1 = (f # fs, r2)" "restore_from_head (wd_world d) p r2 = (Inr u, r3)"
  shows "commit_deleted d p m old refs ws s = (Finished (Err (PreCommitFailed True [c])), ask_attention s\<lparr>pi_repo := r3\<rparr>)"
  using assms by (simp add: commit_deleted_def restore_logged_def on_repo_def ask_attention_def)

section \<open>Properties\<close>



text \<open>
  A git with two documents and no remote. HEAD is one of three commits: \<open>a.md\<close> alone, \<open>b.md\<close> alone, or no
  document; a commit that would lead elsewhere is refused.
\<close>

record pair_clone =
  pc_head :: nat
  pc_work :: files
  pc_saved :: "nat \<times> files"

definition pair_sha :: "nat \<Rightarrow> string" where
  "pair_sha n = (if n = 0 then ''c0'' else if n = 1 then ''c1'' else ''c2'')"

definition pair_tree :: "string \<Rightarrow> files" where
  "pair_tree sha p =
     (if sha = ''c0'' \<and> p = ''a.md'' \<or> sha = ''c1'' \<and> p = ''b.md'' then Some ''old'' else None)"

definition pair_view :: "pair_clone clone_view" where
  "pair_view =
     \<lparr>cv_head = (\<lambda>r. pair_sha (pc_head r)), cv_work = pc_work, cv_tree = pair_tree,
      cv_fetched = (\<lambda>r. pair_sha (pc_head r)), cv_saved = (\<lambda>r. (pair_sha (fst (pc_saved r)), snd (pc_saved r)))\<rparr>"

definition pair_files :: "string list" where
  "pair_files = [''a.md'', ''b.md'']"

definition pair_fits :: "string list \<Rightarrow> pair_clone \<Rightarrow> nat \<Rightarrow> bool" where
  "pair_fits paths r n \<longleftrightarrow>
     list_all (\<lambda>p. p \<in> set pair_files) paths
     \<and> list_all (\<lambda>p. pair_tree (pair_sha n) p
          = (if p \<in> set paths then pc_work r p else pair_tree (pair_sha (pc_head r)) p)) pair_files"

definition pair_commit :: "string list \<Rightarrow> pair_clone \<Rightarrow> run_result \<times> pair_clone" where
  "pair_commit paths r =
     (case find (pair_fits paths r) [0, 1, 2] of
        Some n \<Rightarrow> (Exited (Some 0) [] [], r\<lparr>pc_head := n\<rparr>)
      | None \<Rightarrow> (refused, r))"

definition pair_git :: "(string \<times> string) option \<Rightarrow> string list \<Rightarrow> pair_clone \<Rightarrow> run_result \<times> pair_clone" where
  "pair_git author args r =
     (if take 1 args = [''add''] then (Exited (Some 0) [] [], r)
      else if take 1 args = [''rev-parse''] then (Exited (Some 0) (pair_sha (pc_head r)) [], r)
      else if take 2 args = [''commit'', ''-m''] \<and> take 1 (drop 3 args) = [''--''] then pair_commit (drop 4 args) r
      else if args = [''rebase'', ''FETCH_HEAD''] then (refused, r\<lparr>pc_saved := (pc_head r, pc_work r)\<rparr>)
      else if args = [''rebase'', ''--abort'']
      then (refused, r\<lparr>pc_head := fst (pc_saved r), pc_work := snd (pc_saved r)\<rparr>)
      else (refused, r))"

definition pair_world :: "pair_clone world" where
  "pair_world =
     \<lparr>w_git = pair_git, w_is_repo = (\<lambda>_. True),
      w_write = (\<lambda>p c r. if p \<in> set pair_files then (None, r\<lparr>pc_work := (pc_work r)(p := Some c)\<rparr>) else (Some ''refused'', r)),
      w_create = (\<lambda>p r. if pc_work r p = None then (Created, r\<lparr>pc_work := (pc_work r)(p := Some [])\<rparr>) else (CreateExists, r)),
      w_remove = (\<lambda>p r. if p \<in> set pair_files then (None, r\<lparr>pc_work := (pc_work r)(p := None)\<rparr>) else (Some ''refused'', r))\<rparr>"

lemma pair_sha_trim: "trim (pair_sha n) = pair_sha n" "pair_sha n \<noteq> ''FETCH_HEAD''"
proof -
  have "trim ''c0'' = ''c0''" "trim ''c1'' = ''c1''" "trim ''c2'' = ''c2''" by code_simp+
  then show "trim (pair_sha n) = pair_sha n" by (simp add: pair_sha_def)
  show "pair_sha n \<noteq> ''FETCH_HEAD''" by (simp add: pair_sha_def)
qed

lemma pair_tree_other: "p \<notin> set pair_files \<Longrightarrow> pair_tree sha p = None"
  by (auto simp: pair_tree_def pair_files_def)

lemma pair_commit_law:
  assumes "pair_commit paths r = (res, r')"
  shows "if succeeded res
    then pc_work r' = pc_work r \<and> (\<forall>p. pair_tree (pair_sha (pc_head r')) p
      = (if p \<in> set paths then pc_work r p else pair_tree (pair_sha (pc_head r)) p))
    else r' = r"
proof (cases "find (pair_fits paths r) [0, 1, 2]")
  case None
  then show ?thesis using assms by (auto simp: pair_commit_def refused_def succeeded_def)
next
  case (Some n)
  then have n: "pair_fits paths r n" by (auto simp only: find_Some_iff)
  have "pair_tree (pair_sha n) p = (if p \<in> set paths then pc_work r p else pair_tree (pair_sha (pc_head r)) p)" for p
    using n pair_tree_other [of p] by (cases "p \<in> set pair_files") (auto simp: list_all_iff pair_fits_def)
  then show ?thesis using assms Some by (auto simp: pair_commit_def succeeded_def)
qed

lemma pair_git_laws: "git_laws pair_world pair_view"
  unfolding git_laws_def
proof (intro conjI)
  note defs = pair_world_def pair_view_def pair_git_def refused_def succeeded_def same_view_def committed_def clean_def
  have no_commit: "take 2 args \<noteq> [''commit'', ''-m'']" "args \<noteq> [''rebase'', ''FETCH_HEAD'']" "args \<noteq> [''rebase'', ''--abort'']"
    if "quiet args" for args
    using that by (cases args; cases "tl args"; auto simp: quiet_def)+
  show "law_quiet pair_world pair_view"
    unfolding law_quiet_def using no_commit by (auto simp: defs)
  show "law_rev_parse pair_world pair_view"
    by (auto simp: law_rev_parse_def defs pair_sha_trim split: if_splits)
  have commit: "pair_git author ([''commit'', ''-m'', message, ''--''] @ paths) r = pair_commit paths r" for author message paths r
    by (simp add: pair_git_def)
  show "law_commit pair_world pair_view"
    unfolding law_commit_def pair_world_def world.simps commit
    using pair_commit_law by (fastforce simp: pair_view_def committed_def same_view_def)
  show "law_reset pair_world pair_view" by (auto simp: law_reset_def defs)
  show "law_rebase pair_world pair_view" by (auto simp: law_rebase_def defs)
  show "law_abort pair_world pair_view" by (auto simp: law_abort_def defs)
  show "law_merge_ff pair_world pair_view" by (auto simp: law_merge_ff_def defs)
  show "law_restore pair_world pair_view" by (auto simp: law_restore_def defs)
  show "law_diff pair_world pair_view" by (auto simp: law_diff_def defs)
qed

definition pair_deps :: "pair_clone write_deps" where
  "pair_deps =
     \<lparr>wd_world = pair_world, wd_remote = demo_remote,
      wd_globs = \<lparr>glob_valid = (\<lambda>_. True), set_builds = (\<lambda>_. True), glob_matches = (\<lambda>_ p. p \<in> set pair_files)\<rparr>,
      wd_include_patterns = [''**/*.md''],
      wd_indexing = \<lparr>ic_include = [''**/*.md''], ic_exclude = [], ic_exclude_files = []\<rparr>,
      wd_tree = (\<lambda>_. DirNode [(''a.md'', FileNode), (''b.md'', FileNode)]), wd_follow = (\<lambda>_ _. NotFound),
      wd_inside = (\<lambda>_ _. Inr True),
      wd_read = (\<lambda>p r. case pc_work r p of Some c \<Rightarrow> ReadContent c | None \<Rightarrow> ReadMissing),
      wd_mkdirs = (\<lambda>_ r. (None, r)), wd_scopes = [], wd_root_schema = empty_schema, wd_values = demo_env,
      wd_parse_raw = (\<lambda>c. ([], c)), wd_lint = (\<lambda>_. LintSuccess),
      wd_validation = \<lparr>vc_enabled = False, vc_strict = False, vc_lint_command = None, vc_lint_timeout_secs = 0\<rparr>,
      wd_prepend_description = False, wd_dedup_enabled = False, wd_dedup_threshold = [], wd_related_min_score = [],
      wd_related_limit = 0, wd_search = (\<lambda>_ _. None), wd_score = (\<lambda>_. 0), wd_version = (\<lambda>c. c),
      wd_diff = (\<lambda>_ _ _. [])\<rparr>"

definition pair_index :: "pair_clone doc_index" where
  "pair_index =
     \<lparr>dx_targeting = Some (\<lambda>_ _. Inr []), dx_exists = (\<lambda>p r. pc_work r p \<noteq> None), dx_lower = (\<lambda>s. s), dx_yaml = demo_yaml\<rparr>"

definition pair_pipe :: "pair_clone pipe" where
  "pair_pipe =
     \<lparr>pi_repo = \<lparr>pc_head = 0, pc_work = pair_tree ''c0'', pc_saved = (0, \<lambda>_. None)\<rparr>, pi_queue = queue_new, pi_attention = False\<rparr>"

definition pair_move :: move_request where
  "pair_move =
     \<lparr>mv_source = ''a.md'', mv_dest = ''b.md'', mv_change = Keep, mv_message = None, mv_operation = ''move_document'',
      mv_expected = Some ''old'', mv_archive = None\<rparr>"

lemma pair_file_laws: "file_laws pair_deps pair_view"
proof -
  have doc: "document_path ''a.md'' \<and> document_path ''b.md''" by code_simp
  note defs = pair_deps_def pair_world_def pair_view_def pair_files_def same_but_def same_files_def
  show ?thesis
    unfolding file_laws_def law_write_def law_create_def law_remove_def law_mkdirs_def law_read_def
    using doc by (auto simp: defs split: option.splits if_splits)
qed

lemma pair_index_relative: "index_relative pair_index"
  by (simp add: index_relative_def pair_index_def)

lemma pair_clean: "\<forall>q. clean pair_view (pi_repo pair_pipe) q"
  by (simp add: clean_def committed_def pair_view_def pair_pipe_def pair_sha_def)

lemma pair_laws: "git_laws (wd_world pair_deps) pair_view"
  using pair_git_laws by (simp add: pair_deps_def)

lemma pair_delete:
  "map_prod (\<lambda>r. case r of Ok ws \<Rightarrow> ws_outcome ws = Synced | _ \<Rightarrow> False) (\<lambda>s. (pc_head (pi_repo s), pi_attention s))
     (delete_document_with pair_deps pair_index ''a.md'' None (Some ''old'') True pair_pipe) = (True, 2, False)"
  by code_simp

lemma pair_moved:
  "map_prod (\<lambda>r. case r of Ok ws \<Rightarrow> ws_outcome ws = Synced | _ \<Rightarrow> False) (\<lambda>s. (pc_head (pi_repo s), pi_attention s))
     (write_document_move pair_deps pair_index pair_move pair_pipe) = (True, 1, False)"
  by code_simp



end
