(* ===== verification/SearchFunnel.thy ===== *)
theory SearchFunnel
  imports Retrieval Paths Status "HOL-Library.Multiset" "HOL-Library.Sublist"
begin

text \<open>
  The search funnel of \<open>src/src/retrieval.rs\<close>: \<open>search_paged\<close>, \<open>search_grouped\<close> and \<open>search_sections\<close>, with the
  phrase parser, the path filter, the diversity caps, the handling of the reranker's answer and the paging.
  The embedder, the tokenizer, the vector store, the reranker and the conditions of its query language are
  parameters. Scores are a linear order: no NaN, which JSON cannot hold.
\<close>

section \<open>Phrases\<close>

definition QUOTE :: char where
  "QUOTE = CHR 0x22"

text \<open>The text without the delimiters of quoted spans, and the trimmed text of each span that is not blank.\<close>

function scan_phrases :: "string \<Rightarrow> string \<times> string list" where
  "scan_phrases [] = ([], [])"
| "scan_phrases (c # cs) =
     (if c = QUOTE \<and> QUOTE \<in> set cs
      then (let phrase = takeWhile (\<lambda>b. b \<noteq> QUOTE) cs in
        case scan_phrases (tl (dropWhile (\<lambda>b. b \<noteq> QUOTE) cs)) of
          (flattened, phrases) \<Rightarrow> (phrase @ flattened, (if trim phrase = [] then phrases else trim phrase # phrases)))
      else (case scan_phrases cs of (flattened, phrases) \<Rightarrow> (c # flattened, phrases)))"
  by pat_completeness auto
termination
proof (relation "measure length")
  fix c :: char and cs :: string
  have "length (dropWhile (\<lambda>b. b \<noteq> QUOTE) cs) \<le> length cs" by (rule length_dropWhile_le)
  then show "(tl (dropWhile (\<lambda>b. b \<noteq> QUOTE) cs), c # cs) \<in> measure length" by simp
qed auto

definition extract_phrases :: "string \<Rightarrow> string \<times> string list" where
  "extract_phrases query =
     (case scan_phrases query of (flattened, phrases) \<Rightarrow> if phrases = [] then (query, []) else (flattened, phrases))"

section \<open>Options and results\<close>

type_synonym payload = "(string \<times> json) list"

record 's search_result =
  sr_score :: 's
  sr_pre_rerank_score :: "'s option"
  sr_dense_score :: "'s option"
  sr_sparse_score :: "'s option"
  sr_phrase_score :: "'s option"
  sr_payload :: payload

record resolved_paths =
  rp_paths :: "string list"
  rp_truncated :: bool

definition resolved_from :: "string list \<Rightarrow> nat \<Rightarrow> resolved_paths" where
  "resolved_from paths matching = \<lparr>rp_paths = paths, rp_truncated = length paths < matching\<rparr>"

record 's search_options =
  op_limit :: nat
  op_min_score :: "'s option"
  op_hybrid :: bool
  op_rrf_candidates :: nat
  op_phrase :: bool
  op_explain :: bool
  op_modified_after :: "int option"
  op_modified_before :: "int option"
  op_path_filter :: "resolved_paths option"
  op_rerank_candidate_limit :: "nat option"
  op_diversity_max_per_document :: "nat option"

datatype search_error = Embed string | Search string | Document string

record 's search_outcome =
  so_results :: "'s search_result list"
  so_path_prefix_truncated :: bool
  so_offset_truncated :: bool

text \<open>The conditions of the vector store's query language, built by its client library.\<close>

record 'c conditions =
  cd_matches :: "string \<Rightarrow> string \<Rightarrow> 'c"
  cd_matches_any :: "string \<Rightarrow> string list \<Rightarrow> 'c"
  cd_is_empty :: "string \<Rightarrow> 'c"
  cd_is_null :: "string \<Rightarrow> 'c"
  cd_should :: "'c list \<Rightarrow> 'c"
  cd_must_and_not :: "'c list \<Rightarrow> 'c list \<Rightarrow> 'c"

record ('s, 'c, 'v) search_deps =
  sd_embed_query :: "string \<Rightarrow> string + 'v"
  sd_tokenize :: "string \<Rightarrow> nat list \<times> 's list"
  sd_search :: "'v \<Rightarrow> (string \<Rightarrow> int option) \<Rightarrow> 'c list \<Rightarrow> nat \<Rightarrow> string + 's search_result list"
  sd_hybrid_search ::
    "'v \<Rightarrow> (nat list \<times> 's list) option \<Rightarrow> string list \<Rightarrow> (string \<Rightarrow> int option) \<Rightarrow> 'c list \<Rightarrow> nat \<Rightarrow> nat \<Rightarrow> bool
       \<Rightarrow> string + 's search_result list"
  sd_search_grouped ::
    "'v \<Rightarrow> (nat list \<times> 's list) option \<Rightarrow> string list \<Rightarrow> (string \<Rightarrow> int option) \<Rightarrow> 'c list \<Rightarrow> string \<Rightarrow> nat \<Rightarrow> nat \<Rightarrow> nat
       \<Rightarrow> string + 's search_result list"
  sd_reranker :: "(string \<Rightarrow> string list \<Rightarrow> string + (nat \<times> 's) list) option"
  sd_conditions :: "'c conditions"
  sd_data_path :: string

definition payload_str :: "string \<Rightarrow> payload \<Rightarrow> string option" where
  "payload_str key p = (case map_of p key of Some (JString s) \<Rightarrow> Some s | _ \<Rightarrow> None)"

definition payload_u64 :: "string \<Rightarrow> payload \<Rightarrow> nat option" where
  "payload_u64 key p = (case map_of p key of Some (JInt i) \<Rightarrow> if 0 \<le> i then Some (nat i) else None | _ \<Rightarrow> None)"

definition CHUNK_TEXT_KEY :: string where
  "CHUNK_TEXT_KEY = ''text''"

definition PATH_ANCESTORS_KEY :: string where
  "PATH_ANCESTORS_KEY = ''path_ancestors''"

definition SECTION_KEY :: string where
  "SECTION_KEY = ''section_key''"

definition SECTION_LINE_START_KEY :: string where
  "SECTION_LINE_START_KEY = ''section_line_start''"

definition SECTION_LINE_END_KEY :: string where
  "SECTION_LINE_END_KEY = ''section_line_end''"

definition HEADING_PATH_KEY :: string where
  "HEADING_PATH_KEY = ''heading_path''"

definition payload_key :: "string \<Rightarrow> string" where
  "payload_key field = (if field = ''file_path'' then field else ''fm.'' @ field)"

section \<open>Filters\<close>

definition plain_search_filters :: "'c conditions \<Rightarrow> string option \<Rightarrow> string option \<Rightarrow> string list option \<Rightarrow> 'c list" where
  "plain_search_filters cd domain kind tags =
     (case domain of Some d \<Rightarrow> [cd_matches cd (payload_key ''domain'') d] | None \<Rightarrow> [])
     @ (case kind of Some t \<Rightarrow> [cd_matches cd (payload_key ''type'') t] | None \<Rightarrow> [])
     @ (case tags of Some ts \<Rightarrow> if ts = [] then [] else [cd_matches_any cd (payload_key ''tags'') ts] | None \<Rightarrow> [])"

definition mtime_filter_map :: "'s search_options \<Rightarrow> string \<Rightarrow> int option" where
  "mtime_filter_map opts =
     (\<lambda>k. if k = ''mtime__gte'' then op_modified_after opts
          else if k = ''mtime__lte'' then op_modified_before opts else None)"

definition PATH_PREFIX_OVERFETCH_MULTIPLIER :: nat where
  "PATH_PREFIX_OVERFETCH_MULTIPLIER = 5"

definition PATH_PREFIX_OVERFETCH_CEILING :: nat where
  "PATH_PREFIX_OVERFETCH_CEILING = 500"

definition MAX_OFFSET_DEPTH :: nat where
  "MAX_OFFSET_DEPTH = PATH_PREFIX_OVERFETCH_CEILING"

definition U64_MAX :: nat where
  "U64_MAX = 2 ^ 64 - 1"

definition path_prefix_fetch_limit :: "nat \<Rightarrow> resolved_paths option \<Rightarrow> nat" where
  "path_prefix_fetch_limit fetch_limit path_filter =
     (if path_filter \<noteq> None
      then min (min (fetch_limit * PATH_PREFIX_OVERFETCH_MULTIPLIER) U64_MAX) PATH_PREFIX_OVERFETCH_CEILING
      else fetch_limit)"

definition normalize_path_needle :: "string option \<Rightarrow> string option" where
  "normalize_path_needle path_prefix =
     (case path_prefix of
        None \<Rightarrow> None
      | Some p \<Rightarrow> let trimmed = drop_right (\<lambda>c. c = slash) p in if trimmed = [] then None else Some trimmed)"

definition unsatisfiable :: "'c conditions \<Rightarrow> string \<Rightarrow> 'c" where
  "unsatisfiable cd field = cd_must_and_not cd [cd_is_null cd field] [cd_is_null cd field]"

definition path_filter_condition :: "'c conditions \<Rightarrow> resolved_paths option \<Rightarrow> 'c option" where
  "path_filter_condition cd path_filter =
     (case path_filter of
        None \<Rightarrow> None
      | Some f \<Rightarrow>
          if rp_paths f = []
          then Some (cd_should cd [unsatisfiable cd PATH_ANCESTORS_KEY, cd_is_empty cd PATH_ANCESTORS_KEY])
          else Some (cd_should cd [cd_matches_any cd PATH_ANCESTORS_KEY (rp_paths f), cd_is_empty cd PATH_ANCESTORS_KEY]))"

text \<open>
  \<open>Path::strip_prefix\<close> for an absolute root: what is left of the text after the components of the root,
  without empty and \<open>.\<close> segments at its two ends.
\<close>

fun drop_names :: "nat \<Rightarrow> string list \<Rightarrow> string list" where
  "drop_names n [] = []"
| "drop_names n (s # segs) =
     (if n = 0 then s # segs
      else if s = [] \<or> s = ''.'' then drop_names n segs else drop_names (n - 1) segs)"

definition relative_to_data :: "string \<Rightarrow> string \<Rightarrow> string" where
  "relative_to_data absolute data_root =
     (let root = components data_root; trivial = (\<lambda>s. s = [] \<or> s = ''.'')
      in if take (length root) (components absolute) = root
         then join [slash] (drop_right trivial (dropWhile trivial
                (drop_names (length (filter (\<lambda>c. c \<noteq> RootDir \<and> c \<noteq> CurDir) root)) (split_on slash absolute))))
         else absolute)"

definition apply_path_filter :: "'s search_result list \<Rightarrow> resolved_paths option \<Rightarrow> string \<Rightarrow> 's search_result list" where
  "apply_path_filter results path_filter data_root =
     (case path_filter of
        None \<Rightarrow> results
      | Some f \<Rightarrow>
          filter (\<lambda>r. case payload_str ''file_path'' (sr_payload r) of
              None \<Rightarrow> False
            | Some fp \<Rightarrow> relative_to_data fp data_root \<in> set (rp_paths f)) results)"

definition path_prefix_truncated :: "resolved_paths option \<Rightarrow> nat \<Rightarrow> nat \<Rightarrow> nat \<Rightarrow> nat \<Rightarrow> bool" where
  "path_prefix_truncated path_filter limit fetch_limit pre_retain_count post_retain_count =
     (case path_filter of
        None \<Rightarrow> False
      | Some f \<Rightarrow> rp_truncated f \<or> post_retain_count < limit \<and> fetch_limit \<le> pre_retain_count)"

section \<open>The diversity caps\<close>

text \<open>Both caps run the same loop over the counts; they differ in how an entry names its document.\<close>

fun cap_loop :: "('a \<Rightarrow> string option) \<Rightarrow> nat \<Rightarrow> (string \<Rightarrow> nat) \<Rightarrow> 'a list \<Rightarrow> 'a list" where
  "cap_loop key cap counts [] = []"
| "cap_loop key cap counts (x # xs) =
     (case key x of
        None \<Rightarrow> x # cap_loop key cap counts xs
      | Some k \<Rightarrow>
          if counts k < cap then x # cap_loop key cap (counts(k := counts k + 1)) xs
          else cap_loop key cap counts xs)"

definition apply_diversity_cap :: "'s search_result list \<Rightarrow> nat \<Rightarrow> 's search_result list" where
  "apply_diversity_cap results max_per_document =
     cap_loop (\<lambda>r. payload_str ''file_path'' (sr_payload r)) max_per_document (\<lambda>_. 0) results"

definition cap_reranked_by_document ::
    "(nat \<times> 's) list \<Rightarrow> 's search_result list \<Rightarrow> nat \<Rightarrow> (nat \<times> 's) list" where
  "cap_reranked_by_document indexed results max_per_document =
     cap_loop (\<lambda>(i, _). if i < length results then payload_str ''file_path'' (sr_payload (results ! i)) else None)
       max_per_document (\<lambda>_. 0) indexed"

definition PRERANK_DIVERSITY_MULTIPLIER :: nat where
  "PRERANK_DIVERSITY_MULTIPLIER = 4"

definition capped :: "nat option \<Rightarrow> 's search_result list \<Rightarrow> 's search_result list" where
  "capped cap results = (case cap of Some n \<Rightarrow> apply_diversity_cap results n | None \<Rightarrow> results)"

section \<open>The reranker's answer\<close>

text \<open>The candidates that have a text, with their positions.\<close>

definition docs_for_rerank :: "'s search_result list \<Rightarrow> (nat \<times> string) list" where
  "docs_for_rerank results =
     List.map_filter (\<lambda>(i, r). map_option (Pair i) (payload_str CHUNK_TEXT_KEY (sr_payload r))) (enumerate 0 results)"

text \<open>Entries out of range and entries seen before are dropped.\<close>

fun usable_ranks :: "nat \<Rightarrow> nat set \<Rightarrow> (nat \<times> 's) list \<Rightarrow> (nat \<times> 's) list" where
  "usable_ranks n seen [] = []"
| "usable_ranks n seen ((i, score) # ranked) =
     (if n \<le> i then usable_ranks n seen ranked
      else if i \<in> seen then usable_ranks n seen ranked
      else (i, score) # usable_ranks n (insert i seen) ranked)"

text \<open>The stable sort, best score first.\<close>

definition sort_best_first :: "(nat \<times> 's::linorder) list \<Rightarrow> (nat \<times> 's) list" where
  "sort_best_first indexed = rev (sort_key snd (rev indexed))"

definition rescored :: "bool \<Rightarrow> 's search_result list \<Rightarrow> nat \<times> 's \<Rightarrow> 's search_result option" where
  "rescored explain results entry =
     (case entry of (i, score) \<Rightarrow>
        if i < length results
        then Some ((results ! i)\<lparr>sr_pre_rerank_score := (if explain then Some (sr_score (results ! i)) else None),
             sr_score := score\<rparr>)
        else None)"

text \<open>The ranking the page is cut from, and whether the reranker was called and its answer usable.\<close>

definition rerank_step ::
    "(string \<Rightarrow> string list \<Rightarrow> string + (nat \<times> 's::linorder) list) \<Rightarrow> string \<Rightarrow> 's search_options \<Rightarrow> nat
       \<Rightarrow> 's search_result list \<Rightarrow> 's search_result list \<times> bool option" where
  "rerank_step reranker query opts retain_depth results =
     (let cap = op_diversity_max_per_document opts;
          results = capped (map_option (\<lambda>n. min (n * PRERANK_DIVERSITY_MULTIPLIER) U64_MAX) cap) results;
          docs = docs_for_rerank results;
          fused = take retain_depth (capped cap results)
      in if docs = [] then (fused, None)
         else (case reranker query (map snd docs) of
             Inl _ \<Rightarrow> (fused, Some False)
           | Inr ranked \<Rightarrow>
               let indexed = map (\<lambda>(i, score). (fst (docs ! i), score)) (usable_ranks (length docs) {} ranked)
               in if indexed = [] then (fused, Some False)
                  else
                    let indexed = sort_best_first indexed;
                        indexed = (case cap of Some n \<Rightarrow> cap_reranked_by_document indexed results n | None \<Rightarrow> indexed)
                    in (List.map_filter (rescored (op_explain opts) results) (take retain_depth indexed), Some True)))"

section \<open>The funnel\<close>

definition phrases_of :: "'s search_options \<Rightarrow> string \<Rightarrow> string \<times> string list" where
  "phrases_of opts query = (if op_phrase opts then extract_phrases query else (query, []))"

definition sparse_of :: "('s, 'c, 'v) search_deps \<Rightarrow> 's search_options \<Rightarrow> string \<Rightarrow> (nat list \<times> 's list) option" where
  "sparse_of d opts flat_query =
     (if op_hybrid opts
      then let sparse = sd_tokenize d flat_query in if fst sparse = [] then None else Some sparse
      else None)"

definition all_conditions :: "('s, 'c, 'v) search_deps \<Rightarrow> 'c list \<Rightarrow> 's search_options \<Rightarrow> 'c list" where
  "all_conditions d filters opts =
     filters @ (case path_filter_condition (sd_conditions d) (op_path_filter opts) of Some c \<Rightarrow> [c] | None \<Rightarrow> [])"

definition max_depth :: "('s, 'c, 'v) search_deps \<Rightarrow> 's search_options \<Rightarrow> nat" where
  "max_depth d opts =
     (case sd_reranker d of
        Some _ \<Rightarrow> min (case op_rerank_candidate_limit opts of Some n \<Rightarrow> n | None \<Rightarrow> op_limit opts) MAX_OFFSET_DEPTH
      | None \<Rightarrow> MAX_OFFSET_DEPTH)"

definition requested_depth :: "'s search_options \<Rightarrow> nat \<Rightarrow> nat" where
  "requested_depth opts offset = min (offset + op_limit opts) U64_MAX"

definition page_depth :: "('s, 'c, 'v) search_deps \<Rightarrow> 's search_options \<Rightarrow> nat \<Rightarrow> nat" where
  "page_depth d opts offset = min (requested_depth opts offset) (max_depth d opts)"

definition fetch_limit :: "('s, 'c, 'v) search_deps \<Rightarrow> 's search_options \<Rightarrow> nat \<Rightarrow> nat" where
  "fetch_limit d opts offset =
     path_prefix_fetch_limit
       (if sd_reranker d \<noteq> None
        then (case op_rerank_candidate_limit opts of Some n \<Rightarrow> n | None \<Rightarrow> op_limit opts)
        else page_depth d opts offset) (op_path_filter opts)"

text \<open>The query to the vector store.\<close>

definition fetch_hits ::
    "('s, 'c, 'v) search_deps \<Rightarrow> string \<Rightarrow> 'c list \<Rightarrow> 's search_options \<Rightarrow> nat \<Rightarrow> search_error + 's search_result list" where
  "fetch_hits d query filters opts offset =
     (case phrases_of opts query of (flat_query, phrases) \<Rightarrow>
        case sd_embed_query d flat_query of
          Inl e \<Rightarrow> Inl (Embed e)
        | Inr vector \<Rightarrow>
            let sparse = sparse_of d opts flat_query; limit = fetch_limit d opts offset
            in (case (if sparse = None \<and> phrases = []
                  then sd_search d vector (mtime_filter_map opts) (all_conditions d filters opts) limit
                  else sd_hybrid_search d vector sparse phrases (mtime_filter_map opts) (all_conditions d filters opts)
                         limit (op_rrf_candidates opts) (op_explain opts)) of
                Inl e \<Rightarrow> Inl (Search e)
              | Inr hits \<Rightarrow> Inr hits))"

definition above_floor :: "'s::linorder search_options \<Rightarrow> 's search_result list \<Rightarrow> 's search_result list" where
  "above_floor opts results =
     (case op_min_score opts of Some s \<Rightarrow> filter (\<lambda>r. s \<le> sr_score r) results | None \<Rightarrow> results)"

text \<open>The ranking of the hits, cut to the depth of the page.\<close>

definition rank_hits ::
    "('s::linorder, 'c, 'v) search_deps \<Rightarrow> string \<Rightarrow> 's search_options \<Rightarrow> nat \<Rightarrow> 's search_result list
       \<Rightarrow> 's search_result list \<times> bool option" where
  "rank_hits d query opts offset results =
     (case sd_reranker d of
        Some reranker \<Rightarrow> rerank_step reranker query opts (page_depth d opts offset) results
      | None \<Rightarrow> (take (page_depth d opts offset) (capped (op_diversity_max_per_document opts) results), None))"

text \<open>The three durations are the milliseconds measured around the calls.\<close>

definition search_paged ::
    "('s::linorder, 'c, 'v) search_deps \<Rightarrow> u64 \<times> u64 \<times> u64 \<Rightarrow> string \<Rightarrow> 'c list \<Rightarrow> 's search_options \<Rightarrow> nat
       \<Rightarrow> retrieval_metrics \<Rightarrow> (search_error + 's search_outcome) \<times> retrieval_metrics" where
  "search_paged d ms query filters opts offset m =
     (case ms of (embed_ms, search_ms, rerank_ms) \<Rightarrow>
        case fetch_hits d query filters opts offset of
          Inl e \<Rightarrow> (Inl e, m)
        | Inr hits \<Rightarrow>
            let kept = apply_path_filter hits (op_path_filter opts) (sd_data_path d);
                truncated = path_prefix_truncated (op_path_filter opts) (page_depth d opts offset)
                  (fetch_limit d opts offset) (length hits) (length kept)
            in (case rank_hits d query opts offset (above_floor opts kept) of (ranking, rerank) \<Rightarrow>
                let results = paginate ranking offset (op_limit opts)
                in (Inr \<lparr>so_results = results, so_path_prefix_truncated = truncated,
                      so_offset_truncated = max_depth d opts < requested_depth opts offset\<rparr>,
                    record_query embed_ms search_ms (map_option (Pair rerank_ms) rerank) (length results) m)))"

definition search_unpaged ::
    "('s::linorder, 'c, 'v) search_deps \<Rightarrow> u64 \<times> u64 \<times> u64 \<Rightarrow> string \<Rightarrow> 'c list \<Rightarrow> 's search_options
       \<Rightarrow> retrieval_metrics \<Rightarrow> (search_error + 's search_outcome) \<times> retrieval_metrics" where
  "search_unpaged d ms query filters opts m = search_paged d ms query filters opts 0 m"


section \<open>Grouped search\<close>

record 's grouped_fetch =
  gf_results :: "'s search_result list"
  gf_page_depth :: nat
  gf_path_prefix_truncated :: bool
  gf_offset_truncated :: bool

definition grouped_depth :: "'s search_options \<Rightarrow> nat \<Rightarrow> nat" where
  "grouped_depth opts offset = min (requested_depth opts offset) MAX_OFFSET_DEPTH"

definition fetch_grouped ::
    "('s::linorder, 'c, 'v) search_deps \<Rightarrow> string \<Rightarrow> 'c list \<Rightarrow> 's search_options \<Rightarrow> nat \<Rightarrow> string
       \<Rightarrow> search_error + 's grouped_fetch" where
  "fetch_grouped d query filters opts offset group_by =
     (case phrases_of opts query of (flat_query, phrases) \<Rightarrow>
        case sd_embed_query d flat_query of
          Inl e \<Rightarrow> Inl (Embed e)
        | Inr vector \<Rightarrow>
            let page_depth = grouped_depth opts offset;
                limit = path_prefix_fetch_limit page_depth (op_path_filter opts)
            in (case sd_search_grouped d vector (sparse_of d opts flat_query) phrases (mtime_filter_map opts)
                  (all_conditions d filters opts) group_by 1 limit (op_rrf_candidates opts) of
                Inl e \<Rightarrow> Inl (Search e)
              | Inr hits \<Rightarrow>
                  let kept = apply_path_filter hits (op_path_filter opts) (sd_data_path d)
                  in Inr \<lparr>gf_results = above_floor opts kept, gf_page_depth = page_depth,
                       gf_path_prefix_truncated =
                         path_prefix_truncated (op_path_filter opts) page_depth limit (length hits) (length kept),
                       gf_offset_truncated = MAX_OFFSET_DEPTH < requested_depth opts offset\<rparr>))"

definition finish_rows ::
    "'s grouped_fetch \<Rightarrow> u64 \<times> u64 \<times> u64 \<Rightarrow> 'a list \<Rightarrow> nat \<Rightarrow> nat \<Rightarrow> retrieval_metrics \<Rightarrow> 'a list \<times> retrieval_metrics" where
  "finish_rows fetch ms rows offset limit m =
     (case ms of (embed_ms, search_ms, _) \<Rightarrow>
        let rows = paginate (take (gf_page_depth fetch) rows) offset limit
        in (rows, record_query embed_ms search_ms None (length rows) m))"

text \<open>Each summary is taken out of the map once; a path without one is skipped.\<close>

fun hydrate :: "(string \<Rightarrow> 'd option) \<Rightarrow> (string \<times> 's) list \<Rightarrow> ('s \<times> 'd) list" where
  "hydrate by_path [] = []"
| "hydrate by_path ((path, score) # ranked) =
     (case by_path path of
        None \<Rightarrow> hydrate by_path ranked
      | Some summary \<Rightarrow> (score, summary) # hydrate (by_path(path := None)) ranked)"

definition ranked_paths :: "string \<Rightarrow> 's search_result list \<Rightarrow> (string \<times> 's) list" where
  "ranked_paths data_path results =
     List.map_filter (\<lambda>r. map_option (\<lambda>raw. (relative_to_data raw data_path, sr_score r))
       (payload_str ''file_path'' (sr_payload r))) results"

record ('s, 'd) grouped_outcome =
  go_documents :: "('s \<times> 'd) list"
  go_path_prefix_truncated :: bool
  go_offset_truncated :: bool

text \<open>\<open>summaries\<close> is \<open>get_summaries_by_paths\<close>: path and summary of each document found.\<close>

definition search_grouped ::
    "('s::linorder, 'c, 'v) search_deps \<Rightarrow> (string list \<Rightarrow> string list option \<Rightarrow> string + (string \<times> 'd) list)
       \<Rightarrow> u64 \<times> u64 \<times> u64 \<Rightarrow> string \<Rightarrow> 'c list \<Rightarrow> 's search_options \<Rightarrow> string list option \<Rightarrow> nat
       \<Rightarrow> retrieval_metrics \<Rightarrow> (search_error + ('s, 'd) grouped_outcome) \<times> retrieval_metrics" where
  "search_grouped d summaries ms query filters opts shown offset m =
     (case fetch_grouped d query filters opts offset ''file_path'' of
        Inl e \<Rightarrow> (Inl e, m)
      | Inr fetch \<Rightarrow>
          let ranked = ranked_paths (sd_data_path d) (gf_results fetch)
          in (case summaries (map fst ranked) shown of
              Inl e \<Rightarrow> (Inl (Document e), m)
            | Inr found \<Rightarrow>
                (case finish_rows fetch ms (hydrate (map_of (rev found)) ranked) offset (op_limit opts) m of
                  (documents, m) \<Rightarrow>
                    (Inr \<lparr>go_documents = documents, go_path_prefix_truncated = gf_path_prefix_truncated fetch,
                       go_offset_truncated = gf_offset_truncated fetch\<rparr>, m))))"

datatype section_scope = Section | Preamble | WholeDocument

fun section_scope_str :: "section_scope \<Rightarrow> string" where
  "section_scope_str Section = ''section''"
| "section_scope_str Preamble = ''preamble''"
| "section_scope_str WholeDocument = ''whole_document''"

record 's section_hit =
  sh_file_path :: string
  sh_heading_path :: "string list"
  sh_line_start :: nat
  sh_line_end :: nat
  sh_hit_line_start :: nat
  sh_hit_line_end :: nat
  sh_score :: 's
  sh_scope :: section_scope

definition payload_strings :: "string \<Rightarrow> payload \<Rightarrow> string list option" where
  "payload_strings key p =
     (case map_of p key of
        Some (JArray vs) \<Rightarrow> Some (List.map_filter (\<lambda>v. case v of JString s \<Rightarrow> Some s | _ \<Rightarrow> None) vs)
      | _ \<Rightarrow> None)"

definition section_hit_of :: "string \<Rightarrow> 's search_result \<Rightarrow> 's section_hit option" where
  "section_hit_of data_path r =
     (let p = sr_payload r in
      case (payload_str ''file_path'' p, payload_strings HEADING_PATH_KEY p, payload_u64 SECTION_LINE_START_KEY p,
            payload_u64 SECTION_LINE_END_KEY p, payload_u64 ''line_start'' p, payload_u64 ''line_end'' p) of
        (Some raw, Some heading_path, Some line_start, Some line_end, Some hit_start, Some hit_end) \<Rightarrow>
          Some \<lparr>sh_file_path = relative_to_data raw data_path, sh_heading_path = heading_path, sh_line_start = line_start,
            sh_line_end = line_end, sh_hit_line_start = hit_start, sh_hit_line_end = hit_end, sh_score = sr_score r,
            sh_scope = Section\<rparr>
      | _ \<Rightarrow> None)"

text \<open>\<open>read\<close> is the text of a file, if it can be read.\<close>

definition classify_untitled_section ::
    "doc_env \<Rightarrow> (string \<Rightarrow> string option) \<Rightarrow> string \<Rightarrow> nat \<Rightarrow> nat \<Rightarrow> section_scope" where
  "classify_untitled_section env read path line_start line_end =
     (case read path of
        None \<Rightarrow> WholeDocument
      | Some content \<Rightarrow>
          let entries = outline env content
          in if list_ex (\<lambda>e. oe_level e \<noteq> 0) entries
               \<and> list_ex (\<lambda>e. oe_level e = 0 \<and> oe_line_start e = line_start \<and> oe_line_end e = line_end) entries
             then Preamble else WholeDocument)"

record 's section_outcome =
  sc_sections :: "'s section_hit list"
  sc_path_prefix_truncated :: bool
  sc_offset_truncated :: bool

definition search_sections ::
    "('s::linorder, 'c, 'v) search_deps \<Rightarrow> doc_env \<Rightarrow> (string \<Rightarrow> string option) \<Rightarrow> u64 \<times> u64 \<times> u64 \<Rightarrow> string \<Rightarrow> 'c list
       \<Rightarrow> 's search_options \<Rightarrow> nat \<Rightarrow> retrieval_metrics
       \<Rightarrow> (search_error + 's section_outcome) \<times> retrieval_metrics" where
  "search_sections d env read ms query filters opts offset m =
     (case fetch_grouped d query filters opts offset SECTION_KEY of
        Inl e \<Rightarrow> (Inl e, m)
      | Inr fetch \<Rightarrow>
          (case finish_rows fetch ms (List.map_filter (section_hit_of (sd_data_path d)) (gf_results fetch)) offset
                  (op_limit opts) m of
            (sections, m) \<Rightarrow>
              (Inr \<lparr>sc_sections = map (\<lambda>h. if sh_heading_path h = []
                      then h\<lparr>sh_scope := classify_untitled_section env read (path_join (sd_data_path d) (sh_file_path h))
                        (sh_line_start h) (sh_line_end h)\<rparr> else h) sections,
                 sc_path_prefix_truncated = gf_path_prefix_truncated fetch,
                 sc_offset_truncated = gf_offset_truncated fetch\<rparr>, m)))"

section \<open>The caps\<close>

lemma cap_loop_subseq: "subseq (cap_loop key cap counts xs) xs"
  by (induction xs arbitrary: counts) (auto split: option.splits)

lemma cap_loop_count:
  "length (filter (\<lambda>x. key x = Some k) (cap_loop key cap counts xs)) \<le> cap - counts k"
proof (induction xs arbitrary: counts)
  case (Cons x xs)
  show ?case
  proof (cases "key x")
    case None
    then show ?thesis using Cons.IH [of counts] by simp
  next
    case (Some j)
    let ?c = "counts(j := counts j + 1)"
    have "length (filter (\<lambda>x. key x = Some k) (cap_loop key cap ?c xs)) \<le> cap - ?c k" by (rule Cons.IH)
    then show ?thesis using Some Cons.IH [of counts] by (cases "j = k") auto
  qed
qed simp

lemma cap_loop_cong: "(\<And>x. x \<in> set xs \<Longrightarrow> key x = key' x) \<Longrightarrow> cap_loop key cap counts xs = cap_loop key' cap counts xs"
  by (induction xs arbitrary: counts) (auto split: option.split)

text \<open>What is dropped was dropped because the document had its share already.\<close>

lemma cap_loop_full:
  assumes "counts k \<le> cap" "length (filter (\<lambda>x. key x = Some k) (cap_loop key cap counts xs)) < cap - counts k"
  shows "filter (\<lambda>x. key x = Some k) (cap_loop key cap counts xs) = filter (\<lambda>x. key x = Some k) xs"
  using assms
proof (induction xs arbitrary: counts)
  case (Cons x xs)
  show ?case
  proof (cases "key x")
    case None
    then show ?thesis using Cons.IH [of counts] Cons.prems by simp
  next
    case (Some j)
    show ?thesis
    proof (cases "counts j < cap")
      case True
      let ?c = "counts(j := counts j + 1)"
      have "?c k \<le> cap" using True Cons.prems(1) by simp
      moreover have "length (filter (\<lambda>x. key x = Some k) (cap_loop key cap ?c xs)) < cap - ?c k"
        using Some True Cons.prems(2) by (cases "j = k") auto
      ultimately have "filter (\<lambda>x. key x = Some k) (cap_loop key cap ?c xs) = filter (\<lambda>x. key x = Some k) xs"
        by (rule Cons.IH)
      then show ?thesis using Some True by auto
    next
      case False
      then show ?thesis using Some Cons.IH [of counts] Cons.prems by (auto split: if_splits)
    qed
  qed
qed simp


section \<open>The reranker cannot add or repeat a hit\<close>

text \<open>What a hit is, whatever the scores.\<close>

definition origin :: "'s search_result \<Rightarrow> 's option \<times> 's option \<times> 's option \<times> payload" where
  "origin r = (sr_dense_score r, sr_sparse_score r, sr_phrase_score r, sr_payload r)"

definition file_of :: "'s search_result \<Rightarrow> string option" where
  "file_of r = payload_str ''file_path'' (sr_payload r)"

lemma mset_nth_subset:
  assumes "distinct is" "set is \<subseteq> {..<length xs}"
  shows "mset (map ((!) xs) is) \<subseteq># mset xs"
proof -
  have "mset is = mset_set (set is)" using assms(1) by (simp add: mset_set_set)
  also have "\<dots> \<subseteq># mset_set {..<length xs}" using assms(2) by (intro subset_imp_msubset_mset_set) auto
  also have "\<dots> = mset [0..<length xs]" by (simp add: lessThan_atLeast0)
  finally have "image_mset ((!) xs) (mset is) \<subseteq># image_mset ((!) xs) (mset [0..<length xs])"
    by (rule image_mset_subseteq_mono)
  also have "image_mset ((!) xs) (mset [0..<length xs]) = mset xs"
    by (metis map_nth mset_map)
  finally show ?thesis by simp
qed

lemma subseq_mset: "subseq xs ys \<Longrightarrow> mset xs \<subseteq># mset ys"
  by (induction rule: list_emb.induct) (auto intro: subset_mset.order_trans)

lemma usable_ranks_fresh:
  "distinct (map fst (usable_ranks n seen ranked)) \<and> set (map fst (usable_ranks n seen ranked)) \<subseteq> {..<n} - seen"
  by (induction n seen ranked rule: usable_ranks.induct) auto

lemma map_filter_enumerate:
  "map fst (List.map_filter (\<lambda>(i, r). map_option (Pair i) (f r)) (enumerate n xs))
     = filter (\<lambda>i. f (xs ! (i - n)) \<noteq> None) [n..<n + length xs]"
proof (induction xs arbitrary: n)
  case (Cons x xs)
  have "[n..<n + length (x # xs)] = n # [Suc n..<Suc n + length xs]" using upt_conv_Cons [of n "n + length (x # xs)"] by simp
  moreover have "filter (\<lambda>i. f ((x # xs) ! (i - n)) \<noteq> None) [Suc n..<Suc n + length xs]
      = filter (\<lambda>i. f (xs ! (i - Suc n)) \<noteq> None) [Suc n..<Suc n + length xs]"
    by (rule filter_cong) (auto simp: nth_Cons' )
  ultimately show ?case using Cons.IH [of "Suc n"] by (auto simp: List.map_filter_simps split: option.splits)
qed (simp add: List.map_filter_simps)

lemma docs_for_rerank_positions:
  "distinct (map fst (docs_for_rerank results))" "set (map fst (docs_for_rerank results)) \<subseteq> {..<length results}"
  unfolding docs_for_rerank_def map_filter_enumerate by auto

lemma set_sort_best_first [simp]: "set (sort_best_first xs) = set xs"
  by (simp add: sort_best_first_def)

lemma mset_sort_best_first: "mset (sort_best_first xs) = mset xs"
  by (simp add: sort_best_first_def)

text \<open>The positions in a reranked list are those of distinct candidates.\<close>

lemma reranked_positions:
  assumes "indexed = map (\<lambda>(i, score). (fst (docs_for_rerank results ! i), score))
    (usable_ranks (length (docs_for_rerank results)) {} ranked)"
  shows "distinct (map fst indexed)" "set (map fst indexed) \<subseteq> {..<length results}"
proof -
  let ?docs = "docs_for_rerank results" and ?u = "map fst (usable_ranks (length (docs_for_rerank results)) {} ranked)"
  have u: "distinct ?u" "set ?u \<subseteq> {..<length ?docs}" using usable_ranks_fresh [of "length ?docs" "{}" ranked] by auto
  have eq: "map fst indexed = map ((!) (map fst ?docs)) ?u"
    using assms u(2) by (auto simp: case_prod_beta intro!: map_cong)
  have "inj_on ((!) (map fst ?docs)) (set ?u)"
    using u(2) by (intro inj_on_nth docs_for_rerank_positions(1)) auto
  then show "distinct (map fst indexed)" 
    unfolding eq by (intro distinct_map [THEN iffD2] conjI u(1))
  show "set (map fst indexed) \<subseteq> {..<length results}"
  proof
    fix i assume "i \<in> set (map fst indexed)"
    then obtain j where "j < length ?docs" "i = map fst ?docs ! j" unfolding eq using u(2) by auto
    then show "i \<in> {..<length results}" using docs_for_rerank_positions(2) [of results] nth_mem by fastforce
  qed
qed

lemma map_filter_rescored:
  assumes "set (map fst entries) \<subseteq> {..<length results}"
  shows "map origin (List.map_filter (rescored e results) entries) = map (origin \<circ> (!) results) (map fst entries)"
    and "map file_of (List.map_filter (rescored e results) entries) = map (file_of \<circ> (!) results) (map fst entries)"
  using assms
  by (induction entries) (auto simp: List.map_filter_simps rescored_def origin_def file_of_def)

definition capped_at :: "nat option \<Rightarrow> 's search_result list \<Rightarrow> bool" where
  "capped_at cap results \<longleftrightarrow> (\<forall>n f. cap = Some n \<longrightarrow> count_list (map file_of results) (Some f) \<le> n)"

lemma capped_at_take: "capped_at cap xs \<Longrightarrow> capped_at cap (take n xs)"
  unfolding capped_at_def
  by (metis (no_types, lifting) append_take_drop_id count_list_append le_add1 le_trans map_append take_map)

lemma capped_at_drop: "capped_at cap xs \<Longrightarrow> capped_at cap (drop n xs)"
  unfolding capped_at_def
  by (metis (no_types, lifting) append_take_drop_id count_list_append le_add2 le_trans map_append)

lemma capped_at_capped: "capped_at cap (capped cap xs)"
proof (cases cap)
  case (Some n)
  have "count_list (map file_of (cap_loop file_of n (\<lambda>_. 0) xs)) (Some f) \<le> n" for f
    using cap_loop_count [of file_of f n "\<lambda>_. 0" xs]
    by (simp add: count_list_eq_length_filter filter_map o_def eq_commute)
  then show ?thesis using Some by (simp add: capped_at_def capped_def apply_diversity_cap_def file_of_def [abs_def])
qed (simp add: capped_at_def)

lemma capped_subset: "mset (capped cap xs) \<subseteq># mset xs"
  by (auto simp: capped_def apply_diversity_cap_def intro: subseq_mset cap_loop_subseq split: option.split)

lemma origins_mono: "mset xs \<subseteq># mset ys \<Longrightarrow> mset (map origin xs) \<subseteq># mset (map origin ys)"
  using image_mset_subseteq_mono [of "mset xs" "mset ys" origin] by simp

lemma take_subset: "mset (take n xs) \<subseteq># mset xs" "mset (drop n xs) \<subseteq># mset xs"
  by (metis append_take_drop_id mset_append mset_subset_eq_add_left)
    (metis append_take_drop_id mset_append mset_subset_eq_add_right)


lemma subseq_distinct: "subseq xs ys \<Longrightarrow> set xs \<subseteq> set ys \<and> (distinct ys \<longrightarrow> distinct xs)"
  by (induction rule: list_emb.induct) auto

lemma subseq_take: "subseq (take n xs) xs"
  by (metis append_take_drop_id list_emb_append2 list_emb_Nil list_emb_append_mono subseq_order.order_refl append_Nil2)

lemma count_list_take: "count_list (take n xs) x \<le> count_list xs x"
  by (metis append_take_drop_id count_list_append le_add1)

lemma reranked_page_sound:
  fixes pool :: "'s search_result list"
  assumes "distinct (map fst indexed)" "set (map fst indexed) \<subseteq> {..<length pool}"
    and "entries = (case cap of Some n \<Rightarrow> cap_reranked_by_document indexed pool n | None \<Rightarrow> indexed)"
  shows "mset (map origin (List.map_filter (rescored e pool) entries)) \<subseteq># mset (map origin pool)"
    and "capped_at cap (List.map_filter (rescored e pool) entries)"
    and "List.map_filter (rescored e pool) (take depth entries) = take depth (List.map_filter (rescored e pool) entries)"
proof -
  have "subseq entries indexed" unfolding assms(3)
    by (auto simp: cap_reranked_by_document_def intro: cap_loop_subseq split: option.split)
  from subseq_distinct [OF subseq_map [OF this, of fst]] assms(1,2)
  have d: "distinct (map fst entries)" "set (map fst entries) \<subseteq> {..<length pool}" by blast+
  have "mset (map origin (map ((!) pool) (map fst entries))) \<subseteq># mset (map origin pool)"
    by (rule origins_mono [OF mset_nth_subset [OF d]])
  then show "mset (map origin (List.map_filter (rescored e pool) entries)) \<subseteq># mset (map origin pool)"
    by (simp add: map_filter_rescored(1) [OF d(2)] comp_assoc)
  show "capped_at cap (List.map_filter (rescored e pool) entries)"
    unfolding capped_at_def
  proof (intro allI impI)
    fix n f assume n: "cap = Some n"
    let ?key = "\<lambda>(i, _). if i < length pool then payload_str ''file_path'' (sr_payload (pool ! i)) else None"
    have files: "map (file_of \<circ> (!) pool) (map fst entries) = map ?key entries"
      using d(2) by (auto simp: file_of_def)
    have "count_list (map ?key (cap_loop ?key n (\<lambda>_. 0) indexed)) (Some f) \<le> n"
      using cap_loop_count [of ?key f n "\<lambda>_. 0" indexed] by (simp add: count_list_eq_length_filter filter_map o_def eq_commute)
    then have "count_list (map ?key entries) (Some f) \<le> n" using n assms(3) by (simp add: cap_reranked_by_document_def)
    then show "count_list (map file_of (List.map_filter (rescored e pool) entries)) (Some f) \<le> n"
      by (simp only: map_filter_rescored(2) [OF d(2)] files)
  qed
  show "List.map_filter (rescored e pool) (take depth entries) = take depth (List.map_filter (rescored e pool) entries)"
    using d(2) by (induction entries arbitrary: depth) (auto simp: List.map_filter_simps rescored_def take_Cons' )
qed

text \<open>Only the last cut of the ranking depends on the depth of the page.\<close>

lemma rerank_step_ranking:
  fixes hits :: "'s::linorder search_result list"
  obtains ranking r where "\<And>depth. rerank_step reranker query opts depth hits = (take depth ranking, r)"
    "mset (map origin ranking) \<subseteq># mset (map origin hits)" "capped_at (op_diversity_max_per_document opts) ranking"
proof -
  let ?cap = "op_diversity_max_per_document opts"
  define pool where "pool = capped (map_option (\<lambda>n. min (n * PRERANK_DIVERSITY_MULTIPLIER) U64_MAX) ?cap) hits"
  have pool: "mset (map origin pool) \<subseteq># mset (map origin hits)"
    unfolding pool_def by (intro origins_mono capped_subset)
  have fused: "mset (map origin (capped ?cap pool)) \<subseteq># mset (map origin hits)" "capped_at ?cap (capped ?cap pool)"
    using subset_mset.order_trans [OF origins_mono [OF capped_subset] pool] capped_at_capped by blast+
  define ix :: "(nat \<times> 's) list \<Rightarrow> (nat \<times> 's) list" where "ix = (\<lambda>ranked. map (\<lambda>(i, score). (fst (docs_for_rerank pool ! i), score))
    (usable_ranks (length (docs_for_rerank pool)) {} ranked))"
  define entries where "entries = (\<lambda>ranked. case ?cap of
      Some n \<Rightarrow> cap_reranked_by_document (sort_best_first (ix ranked)) pool n | None \<Rightarrow> sort_best_first (ix ranked))"
  note defs = rerank_step_def Let_def pool_def [symmetric]
  show ?thesis
  proof (cases "docs_for_rerank pool = []")
    case True
    show ?thesis by (rule that [OF _ fused]) (simp add: defs True)
  next
    case docs: False
    show ?thesis
    proof (cases "reranker query (map snd (docs_for_rerank pool))")
      case (Inl x)
      show ?thesis by (rule that [OF _ fused]) (simp add: defs docs Inl)
    next
      case (Inr ranked)
      note p = reranked_positions [OF ix_def [THEN fun_cong], of ranked]
      have "mset (map fst (sort_best_first (ix ranked))) = mset (map fst (ix ranked))"
        by (simp add: mset_sort_best_first)
      from mset_eq_imp_distinct_iff [OF this] p(1)
      have d: "distinct (map fst (sort_best_first (ix ranked)))" by (simp only:)
      have "set (map fst (sort_best_first (ix ranked))) \<subseteq> {..<length pool}" using p(2) by simp
      note page = reranked_page_sound [OF d this entries_def [THEN fun_cong]]
      have eq: "rerank_step reranker query opts depth hits = (if ix ranked = [] then (take depth (capped ?cap pool), Some False)
          else (List.map_filter (rescored (op_explain opts) pool) (take depth (entries ranked)), Some True))" for depth
        unfolding defs ix_def entries_def using docs Inr by simp
      show ?thesis
      proof (cases "ix ranked = []")
        case True
        show ?thesis by (rule that [OF _ fused]) (simp add: eq True)
      next
        case False
        show ?thesis
          by (rule that [OF _ subset_mset.order_trans [OF page(1) pool] page(2)]) (simp add: eq False page(3))
      qed
    qed
  qed
qed

section \<open>Phrases stay in the query\<close>

lemma dropWhile_neq: "x \<in> set xs \<Longrightarrow> dropWhile (\<lambda>b. b \<noteq> x) xs = x # tl (dropWhile (\<lambda>b. b \<noteq> x) xs)"
  by (induction xs) auto

lemma trim_sublist: "sublist (trim s) s"
proof -
  let ?x = "dropWhile is_whitespace (chars s)"
  let ?t = "rev (takeWhile is_whitespace (rev ?x))"
  have "s = concat (takeWhile is_whitespace (chars s) @ drop_right is_whitespace ?x @ ?t)"
    by (simp only: drop_right_append takeWhile_dropWhile_id concat_chars)
  then have "s = concat (takeWhile is_whitespace (chars s)) @ trim s @ concat ?t" by (simp add: trim_def)
  then show ?thesis unfolding sublist_def by blast
qed

lemma scan_phrases_spans:
  "scan_phrases q = (flattened, phrases) \<Longrightarrow>
     filter (\<lambda>c. c \<noteq> QUOTE) flattened = filter (\<lambda>c. c \<noteq> QUOTE) q
     \<and> (\<forall>p\<in>set phrases. p \<noteq> [] \<and> QUOTE \<notin> set p \<and> sublist p flattened)"
proof (induction q arbitrary: flattened phrases rule: scan_phrases.induct)
  case (2 c cs)
  show ?case
  proof (cases "c = QUOTE \<and> QUOTE \<in> set cs")
    case True
    let ?p = "takeWhile (\<lambda>b. b \<noteq> QUOTE) cs" and ?rest = "tl (dropWhile (\<lambda>b. b \<noteq> QUOTE) cs)"
    obtain f ps where r: "scan_phrases ?rest = (f, ps)" by fastforce
    note IH = "2.IH"(1) [OF True refl r]
    have eq: "flattened = ?p @ f" "phrases = (if trim ?p = [] then ps else trim ?p # ps)"
      using "2.prems" True r by (simp_all add: Let_def)
    have "dropWhile (\<lambda>b. b \<noteq> QUOTE) cs = QUOTE # ?rest" using True by (intro dropWhile_neq) simp
    then have cs: "cs = ?p @ QUOTE # ?rest" by (metis takeWhile_dropWhile_id)
    have "QUOTE \<notin> set ?p" by (auto dest: set_takeWhileD)
    then have t: "QUOTE \<notin> set (trim ?p)" "sublist (trim ?p) (?p @ f)"
      using trim_sublist [of ?p] set_mono_sublist sublist_appendI by (blast, blast intro: sublist_order.order_trans)
    have "filter (\<lambda>c. c \<noteq> QUOTE) cs = ?p @ filter (\<lambda>c. c \<noteq> QUOTE) ?rest"
      using \<open>QUOTE \<notin> set ?p\<close> by (subst cs) (auto simp: filter_id_conv)
    then have "filter (\<lambda>c. c \<noteq> QUOTE) flattened = filter (\<lambda>c. c \<noteq> QUOTE) (c # cs)"
      using True IH \<open>QUOTE \<notin> set ?p\<close> by (auto simp: eq(1) filter_id_conv)
    moreover have "p \<noteq> [] \<and> QUOTE \<notin> set p \<and> sublist p flattened" if "p \<in> set phrases" for p
      using that t IH eq sublist_order.order_trans [OF _ sublist_append_leftI [of f ?p]] by (auto split: if_splits)
    ultimately show ?thesis by blast
  next
    case False
    obtain f ps where r: "scan_phrases cs = (f, ps)" by fastforce
    then have eq: "flattened = c # f" "phrases = ps" using "2.prems" False by simp_all
    have "sublist p (c # f)" if "sublist p f" for p using that by (simp add: sublist_Cons_right)
    then show ?thesis using "2.IH"(2) [OF False r] by (simp add: eq)
  qed
qed auto

section \<open>Properties\<close>

lemma paginate_window: "paginate xs offset limit = take limit (drop offset xs)"
proof (cases "offset \<le> length xs")
  case False
  then show ?thesis by (simp add: paginate_def)
qed (auto simp: paginate_def min_def)

definition candidates :: "('s::linorder, 'c, 'v) search_deps \<Rightarrow> 's search_options \<Rightarrow> 's search_result list \<Rightarrow> 's search_result list" where
  "candidates d opts hits = above_floor opts (apply_path_filter hits (op_path_filter opts) (sd_data_path d))"

lemma rank_hits_sound:
  assumes "rank_hits d query opts offset hits = (ranking, r)"
  shows "mset (map origin ranking) \<subseteq># mset (map origin hits) \<and> capped_at (op_diversity_max_per_document opts) ranking"
proof (cases "sd_reranker d")
  case None
  then have r: "ranking = take (page_depth d opts offset) (capped (op_diversity_max_per_document opts) hits)"
    using assms by (simp add: rank_hits_def)
  show ?thesis
    unfolding r using origins_mono [OF subset_mset.order_trans [OF take_subset(1) capped_subset]]
    by (simp add: capped_at_take capped_at_capped)
next
  case (Some reranker)
  obtain R x where R: "\<And>depth. rerank_step reranker query opts depth hits = (take depth R, x)"
    "mset (map origin R) \<subseteq># mset (map origin hits)" "capped_at (op_diversity_max_per_document opts) R"
    using rerank_step_ranking by blast
  then have "ranking = take (page_depth d opts offset) R" using assms Some by (simp add: rank_hits_def)
  then show ?thesis
    using R(2,3) capped_at_take subset_mset.order_trans [OF origins_mono [OF take_subset(1)]] by blast
qed

text \<open>
  C10. A search page holds only what was found. Whatever the vector store and the reranker answer, malformed
  answers included: a page has at most the requested number of hits; they are hits of the store that pass the
  path filter and the score floor, none twice; and no document has more of them than the diversity cap.
\<close>

theorem search_page_is_sound:
  assumes "search_paged d ms query filters opts offset m = (Inr out, m')"
  shows "\<exists>hits. fetch_hits d query filters opts offset = Inr hits
    \<and> length (so_results out) \<le> op_limit opts
    \<and> mset (map origin (so_results out)) \<subseteq># mset (map origin (candidates d opts hits))
    \<and> (\<forall>n f. op_diversity_max_per_document opts = Some n
         \<longrightarrow> count_list (map file_of (so_results out)) (Some f) \<le> n)"
proof -
  obtain hits where hits: "fetch_hits d query filters opts offset = Inr hits"
    using assms by (cases "fetch_hits d query filters opts offset") (auto simp: search_paged_def split: prod.splits)
  obtain ranking r where r: "rank_hits d query opts offset (candidates d opts hits) = (ranking, r)" by fastforce
  have res: "so_results out = take (op_limit opts) (drop offset ranking)"
    using assms hits r by (auto simp: search_paged_def Let_def candidates_def paginate_window split: prod.splits)
  note s = rank_hits_sound [OF r]
  have "mset (map origin (so_results out)) \<subseteq># mset (map origin (candidates d opts hits))"
    unfolding res using s origins_mono [OF subset_mset.order_trans [OF take_subset(1) take_subset(2)]]
    by (blast intro: subset_mset.order_trans)
  moreover have "capped_at (op_diversity_max_per_document opts) (so_results out)"
    unfolding res using s by (intro capped_at_take capped_at_drop) simp
  ultimately show ?thesis using hits res by (simp add: capped_at_def)
qed

text \<open>
  C11. With a reranker, pages tile. The pages of one query, at any offsets down to the depth the reranker is
  asked for, are windows of one ranking: paging neither repeats nor skips a hit, and none of these pages is
  flagged as cut short.
\<close>

theorem reranked_pages_tile:
  assumes "sd_reranker d = Some reranker" "fetch_hits d query filters opts 0 = Inr hits"
  shows "\<exists>ranking. \<forall>offset. offset + op_limit opts \<le> max_depth d opts \<longrightarrow>
    (\<exists>out m'. search_paged d ms query filters opts offset m = (Inr out, m')
      \<and> so_results out = take (op_limit opts) (drop offset ranking) \<and> \<not> so_offset_truncated out)"
proof -
  let ?hits = "candidates d opts hits"
  obtain R r where R: "\<And>depth. rerank_step reranker query opts depth ?hits = (take depth R, r)"
    using rerank_step_ranking by blast
  have fetch: "fetch_hits d query filters opts offset = Inr hits" for offset
  proof -
    have "fetch_limit d opts offset = fetch_limit d opts 0" using assms(1) by (simp add: fetch_limit_def)
    then show ?thesis using assms(2) unfolding fetch_hits_def by (simp only:)
  qed
  obtain e s t where ms: "ms = (e, s, t)" by (rule prod_cases3)
  show ?thesis
  proof (rule exI [of _ R], intro allI impI)
    fix offset assume o: "offset + op_limit opts \<le> max_depth d opts"
    have "max_depth d opts \<le> U64_MAX"
      using assms(1) by (simp add: max_depth_def MAX_OFFSET_DEPTH_def PATH_PREFIX_OVERFETCH_CEILING_def U64_MAX_def)
    then have depth: "requested_depth opts offset = offset + op_limit opts" "page_depth d opts offset = offset + op_limit opts"
      using o by (simp_all add: requested_depth_def page_depth_def)
    have rank: "rank_hits d query opts offset ?hits = (take (offset + op_limit opts) R, r)"
      using assms(1) depth R by (simp add: rank_hits_def)
    have cut: "take (op_limit opts) (drop offset (take (offset + op_limit opts) R)) = take (op_limit opts) (drop offset R)"
      by (simp add: drop_take)
    show "\<exists>out m'. search_paged d ms query filters opts offset m = (Inr out, m')
      \<and> so_results out = take (op_limit opts) (drop offset R) \<and> \<not> so_offset_truncated out"
      using rank depth o cut ms
      by (auto simp: search_paged_def fetch Let_def candidates_def paginate_window split: prod.splits)
  qed
qed

text \<open>
  Quoting only adds conditions. The text that is embedded has the characters of the query in order, quotes
  aside, and every phrase asked for is part of that text, not blank and free of quotes; without a phrase the
  query is used as it was typed.
\<close>

theorem phrases_stay_in_query:
  assumes "extract_phrases query = (flattened, phrases)"
  shows "filter (\<lambda>c. c \<noteq> QUOTE) flattened = filter (\<lambda>c. c \<noteq> QUOTE) query"
    and "\<forall>p\<in>set phrases. p \<noteq> [] \<and> QUOTE \<notin> set p \<and> sublist p flattened"
    and "phrases = [] \<longrightarrow> flattened = query"
  using assms scan_phrases_spans [of query]
  by (auto simp: extract_phrases_def split: prod.splits if_splits)

text \<open>A pair of quotes around nothing yields no phrase, and then its delimiters stay in the text.\<close>

lemma blank_phrase_keeps_quotes: "extract_phrases [CHR ''a'', QUOTE, QUOTE] = ([CHR ''a'', QUOTE, QUOTE], [])"
  by code_simp

text \<open>A store of four hits, the first three of one document.\<close>

definition demo_hit :: "string \<Rightarrow> nat \<Rightarrow> nat search_result" where
  "demo_hit f score =
     \<lparr>sr_score = score, sr_pre_rerank_score = None, sr_dense_score = None, sr_sparse_score = None, sr_phrase_score = None,
      sr_payload = [(''file_path'', JString (''/kb/'' @ f)), (''text'', JString (f @ dec score))]\<rparr>"

definition demo_hits :: "nat search_result list" where
  "demo_hits = [demo_hit ''a.md'' 9, demo_hit ''a.md'' 8, demo_hit ''a.md'' 7, demo_hit ''b.md'' 6]"

definition demo_conditions :: "unit conditions" where
  "demo_conditions =
     \<lparr>cd_matches = (\<lambda>_ _. ()), cd_matches_any = (\<lambda>_ _. ()), cd_is_empty = (\<lambda>_. ()), cd_is_null = (\<lambda>_. ()),
      cd_should = (\<lambda>_. ()), cd_must_and_not = (\<lambda>_ _. ())\<rparr>"

text \<open>The reranker, if there is one, answers with a position out of range, one twice, and the last first.\<close>

definition demo_store :: "bool \<Rightarrow> (nat, unit, unit) search_deps" where
  "demo_store rerank =
     \<lparr>sd_embed_query = (\<lambda>_. Inr ()), sd_tokenize = (\<lambda>_. ([], [])), sd_search = (\<lambda>_ _ _ n. Inr (take n demo_hits)),
      sd_hybrid_search = (\<lambda>_ _ _ _ _ n _ _. Inr (take n demo_hits)),
      sd_search_grouped = (\<lambda>_ _ _ _ _ _ _ n _. Inr (take n demo_hits)),
      sd_reranker = (if rerank then Some (\<lambda>_ docs. Inr [(length docs, 5), (3, 4), (0, 3), (3, 2), (1, 1)]) else None),
      sd_conditions = demo_conditions, sd_data_path = ''/kb''\<rparr>"

definition demo_options :: "nat search_options" where
  "demo_options =
     \<lparr>op_limit = 2, op_min_score = None, op_hybrid = False, op_rrf_candidates = 10, op_phrase = True, op_explain = False,
      op_modified_after = None, op_modified_before = None, op_path_filter = None, op_rerank_candidate_limit = Some 4,
      op_diversity_max_per_document = Some 1\<rparr>"

definition demo_page :: "bool \<Rightarrow> nat \<Rightarrow> (search_error + nat search_outcome) \<times> retrieval_metrics" where
  "demo_page rerank offset = search_paged (demo_store rerank) (0, 0, 0) ''q'' [] demo_options offset metrics_new"

definition page_scores :: "(search_error + nat search_outcome) \<times> retrieval_metrics \<Rightarrow> (nat list \<times> bool) option" where
  "page_scores r = (case fst r of Inr out \<Rightarrow> Some (map sr_score (so_results out), so_offset_truncated out) | Inl _ \<Rightarrow> None)"

text \<open>
  Without a reranker only as many hits are fetched as the page is deep, before the cap takes its share away:
  the only hit of the second document is on no page, and no page says that it was cut short.
\<close>

lemma diversity_cap_hides_a_document:
  "page_scores (demo_page False 0) = Some ([9], False)" "page_scores (demo_page False 1) = Some ([], False)"
  "page_scores (demo_page False 2) = Some ([], False)" "page_scores (demo_page False 4) = Some ([], False)"
  "page_scores (demo_page True 0) = Some ([4, 3], False)"
  by code_simp+

lemma search_page_is_sound_witness:
  "\<exists>hits. fetch_hits (demo_store True) ''q'' [] demo_options 0 = Inr hits
    \<and> mset (map origin (so_results (projr (fst (demo_page True 0))))) \<subseteq># mset (map origin (candidates (demo_store True) demo_options hits))"
proof -
  obtain r m where p: "demo_page True 0 = (r, m)" by fastforce
  then obtain out where out: "r = Inr out"
    using diversity_cap_hides_a_document(5) by (cases r) (auto simp: page_scores_def)
  from search_page_is_sound [OF p [unfolded demo_page_def out]]
  show ?thesis unfolding p out fst_conv sum.sel by blast
qed

lemma reranked_pages_tile_witness:
  "\<exists>ranking. \<forall>offset\<in>{0, 1, 2}. \<exists>out m'. demo_page True offset = (Inr out, m') \<and> so_results out = take 2 (drop offset ranking)"
proof -
  have s: "sd_reranker (demo_store True) = Some (\<lambda>_ docs. Inr [(length docs, 5), (3, 4), (0, 3), (3, 2), (1, 1)])"
    by (simp add: demo_store_def)
  have h: "fetch_hits (demo_store True) ''q'' [] demo_options 0 = Inr demo_hits" by code_simp
  have "op_limit demo_options = 2" "max_depth (demo_store True) demo_options = 4" by code_simp+
  note depth = this
  obtain ranking where r: "\<And>offset. offset + op_limit demo_options \<le> max_depth (demo_store True) demo_options \<Longrightarrow>
      (\<exists>out m'. demo_page True offset = (Inr out, m') \<and> so_results out = take (op_limit demo_options) (drop offset ranking)
        \<and> \<not> so_offset_truncated out)"
    using reranked_pages_tile [OF s h, of "(0, 0, 0)" metrics_new] unfolding demo_page_def by blast
  have "\<exists>out m'. demo_page True offset = (Inr out, m') \<and> so_results out = take 2 (drop offset ranking)"
    if "offset \<in> {0, 1, 2}" for offset :: nat
    using r [of offset] that unfolding depth by auto
  then show ?thesis by blast
qed

lemma phrases_stay_in_query_witness:
  "sublist ''a b'' ''x a b y''"
proof -
  have e: "extract_phrases (''x '' @ [QUOTE] @ ''a b'' @ [QUOTE] @ '' y'') = (''x a b y'', [''a b''])" by code_simp
  from phrases_stay_in_query(2) [OF e] show ?thesis by simp
qed

end
