(* ===== verification/DocAccess.thy ===== *)
theory DocAccess
  imports SearchFunnel GitText
begin

text \<open>
  Finding and reading a document by path, \<open>src/src/retrieval.rs\<close>: \<open>resolve_within_data\<close>, \<open>get_document\<close> with its
  fallbacks, \<open>levenshtein\<close>. The tree below the data root is a value; canonical paths and file contents come
  from the operating system, the list of indexed paths and the links from the document index.
\<close>

section \<open>Edit distance\<close>

text \<open>One row of the table: the new cell sees the row above from its upper left on, and the cell to its left.\<close>

fun lev_row :: "'a \<Rightarrow> 'a list \<Rightarrow> nat list \<Rightarrow> nat \<Rightarrow> nat list" where
  "lev_row a (b # bs) (diag # up # prev) left =
     (let v = min (min (left + 1) (up + 1)) (diag + (if a = b then 0 else 1)) in v # lev_row a bs (up # prev) v)"
| "lev_row a _ _ left = []"

fun lev_rows :: "nat \<Rightarrow> 'a list \<Rightarrow> 'a list \<Rightarrow> nat list \<Rightarrow> nat list" where
  "lev_rows i [] b prev = prev"
| "lev_rows i (x # xs) b prev = lev_rows (i + 1) xs b ((i + 1) # lev_row x b prev (i + 1))"

definition levenshtein :: "string \<Rightarrow> string \<Rightarrow> nat" where
  "levenshtein a b =
     (let a = chars a; b = chars b
      in if a = [] then length b
         else if b = [] then length a
         else lev_rows 0 a b [0..<length b + 1] ! length b)"

section \<open>Resolving a path\<close>

datatype resolve_error = ResNotFound | ResOutside | ResNotPermitted | ResOther string

datatype canonical = Canonical string | CanonMissing | CanonDenied | CanonFailed string

record doc_access =
  da_data_path :: string
  da_tree :: node
  da_follow :: "string \<Rightarrow> string list \<Rightarrow> stat"
  da_denied :: "string \<Rightarrow> bool"
  da_io_error :: "string \<Rightarrow> string"
  da_canonicalize :: "string \<Rightarrow> canonical"
  da_globs :: globs
  da_include_patterns :: "string list"
  da_read :: "string \<Rightarrow> string + string"

text \<open>None: the path climbs above the root.\<close>

fun normalize_components :: "string list \<Rightarrow> path_component list \<Rightarrow> string list option" where
  "normalize_components stack [] = Some stack"
| "normalize_components stack (Normal name # cs) = normalize_components (stack @ [name]) cs"
| "normalize_components stack (CurDir # cs) = normalize_components stack cs"
| "normalize_components stack (ParentDir # cs) =
     (if stack = [] then None else normalize_components (butlast stack) cs)"
| "normalize_components stack (RootDir # cs) = None"

definition denied_text :: "string \<Rightarrow> string" where
  "denied_text path = ''Permission denied: '' @ path"

definition inaccessible_text :: "string \<Rightarrow> string \<Rightarrow> string" where
  "inaccessible_text path e = ''Cannot access file '' @ [CHR 39] @ path @ [CHR 39] @ '': '' @ e"

definition below_root :: "string \<Rightarrow> string \<Rightarrow> bool" where
  "below_root data_root path \<longleftrightarrow> take (length (components data_root)) (components path) = components data_root"

definition canonical_in_data :: "doc_access \<Rightarrow> string \<Rightarrow> (resolve_error, string) outcome" where
  "canonical_in_data d resolved =
     (case da_canonicalize d resolved of
        CanonMissing \<Rightarrow> Err ResNotFound
      | CanonDenied \<Rightarrow> Err (ResOther (denied_text resolved))
      | CanonFailed e \<Rightarrow> Err (ResOther (inaccessible_text resolved e))
      | Canonical canon \<Rightarrow>
          if \<not> below_root (da_data_path d) canon then Err ResOutside
          else if \<not> set_matches (da_globs d) (da_include_patterns d) (relative_to_data canon (da_data_path d))
          then Err ResNotPermitted
          else Ok canon)"

definition resolve_within_data :: "doc_access \<Rightarrow> string \<Rightarrow> (resolve_error, string) outcome" where
  "resolve_within_data d raw =
     (case normalize_components [] (components (kb_root_relative raw)) of
        None \<Rightarrow> Err ResOutside
      | Some names \<Rightarrow>
          let normalized = join [slash] names; resolved = path_join (da_data_path d) normalized
          in (case inspect_kb_path (da_follow d) (da_tree d) normalized of
              Ok Missing \<Rightarrow> Err ResNotFound
            | Ok _ \<Rightarrow> canonical_in_data d resolved
            | Err GitDir \<Rightarrow> Err ResNotPermitted
            | Err Symlink \<Rightarrow> Err ResOutside
            | Err NotRelative \<Rightarrow> Err ResOutside
            | Err Io \<Rightarrow>
                Err (ResOther (if da_denied d resolved then denied_text resolved
                  else inaccessible_text resolved (da_io_error d resolved)))
            | Panic \<Rightarrow> Panic))"

section \<open>Reading a document\<close>

definition FUZZY_SUGGESTION_COUNT :: nat where
  "FUZZY_SUGGESTION_COUNT = 3"

definition MAX_LINKS_PER_DIRECTION :: nat where
  "MAX_LINKS_PER_DIRECTION = 20"

datatype get_document_error =
    DocOutside
  | DocNotPermitted
  | DocNotFound "string list"
  | DocAmbiguous "string list"
  | DocIo string

text \<open>Links of a document with their total number; the index may fail.\<close>

record 'l link_index =
  li_all_paths :: "string + string list"
  li_links_out :: "string \<Rightarrow> nat \<Rightarrow> string + 'l list \<times> nat"
  li_links_in :: "string \<Rightarrow> nat \<Rightarrow> string + 'l list \<times> nat"

record 'l document =
  doc_path :: string
  doc_content :: string
  doc_links_out :: "'l list \<times> nat"
  doc_links_in :: "'l list \<times> nat"

definition document_links :: "'l link_index \<Rightarrow> string \<Rightarrow> ('l list \<times> nat) \<times> ('l list \<times> nat)" where
  "document_links ix rel_path =
     ((case li_links_out ix rel_path MAX_LINKS_PER_DIRECTION of Inr page \<Rightarrow> page | Inl _ \<Rightarrow> ([], 0)),
      (case li_links_in ix rel_path MAX_LINKS_PER_DIRECTION of Inr page \<Rightarrow> page | Inl _ \<Rightarrow> ([], 0)))"

definition read_document :: "doc_access \<Rightarrow> 'l link_index \<Rightarrow> string \<Rightarrow> (get_document_error, 'l document) outcome" where
  "read_document d ix canon =
     (case da_read d canon of
        Inl e \<Rightarrow> Err (DocIo e)
      | Inr content \<Rightarrow>
          (case document_links ix (relative_to_data canon (da_data_path d)) of
             (links_out, links_in) \<Rightarrow>
               Ok \<lparr>doc_path = canon, doc_content = content, doc_links_out = links_out, doc_links_in = links_in\<rparr>))"

definition base_name :: "string \<Rightarrow> string" where
  "base_name path = (case file_name path of Some n \<Rightarrow> n | None \<Rightarrow> [])"

definition suggestions :: "doc_access \<Rightarrow> string \<Rightarrow> string list \<Rightarrow> string list" where
  "suggestions d basename all_paths =
     map (\<lambda>p. relative_to_data (snd p) (da_data_path d))
       (take FUZZY_SUGGESTION_COUNT
         (sort_key fst (map (\<lambda>p. (levenshtein basename (base_name p), p)) all_paths)))"

definition fuzzy_document ::
    "doc_access \<Rightarrow> 'l link_index \<Rightarrow> string \<Rightarrow> (get_document_error, 'l document) outcome" where
  "fuzzy_document d ix raw =
     (let all_paths = (case li_all_paths ix of Inr ps \<Rightarrow> ps | Inl _ \<Rightarrow> []);
          basename = (case file_name raw of Some n \<Rightarrow> n | None \<Rightarrow> raw);
          exact = filter (\<lambda>p. file_name p = Some basename) all_paths
      in case exact of
           [] \<Rightarrow> Err (DocNotFound (suggestions d basename all_paths))
         | [p] \<Rightarrow>
             (case resolve_within_data d p of
                Ok canon \<Rightarrow> read_document d ix canon
              | Err _ \<Rightarrow> Err (DocNotFound [])
              | Panic \<Rightarrow> Panic)
         | _ \<Rightarrow> Err (DocAmbiguous (map (\<lambda>p. relative_to_data p (da_data_path d)) exact)))"

definition get_document :: "doc_access \<Rightarrow> 'l link_index \<Rightarrow> string \<Rightarrow> (get_document_error, 'l document) outcome" where
  "get_document d ix raw =
     (case resolve_within_data d raw of
        Ok canon \<Rightarrow> read_document d ix canon
      | Err ResNotFound \<Rightarrow> fuzzy_document d ix raw
      | Err ResOutside \<Rightarrow> Err DocOutside
      | Err ResNotPermitted \<Rightarrow> Err DocNotPermitted
      | Err (ResOther msg) \<Rightarrow> Err (DocIo msg)
      | Panic \<Rightarrow> Panic)"

section \<open>The edit distance is the least number of edits\<close>

text \<open>Insert, delete or replace one character.\<close>

inductive edits :: "nat \<Rightarrow> 'a list \<Rightarrow> 'a list \<Rightarrow> bool" where
  edits_Nil: "edits 0 [] []"
| edits_keep: "edits n xs ys \<Longrightarrow> edits n (x # xs) (x # ys)"
| edits_replace: "edits n xs ys \<Longrightarrow> edits (Suc n) (x # xs) (y # ys)"
| edits_delete: "edits n xs ys \<Longrightarrow> edits (Suc n) (x # xs) ys"
| edits_insert: "edits n xs ys \<Longrightarrow> edits (Suc n) xs (y # ys)"

inductive_cases edits_NilE: "edits n [] ys"
inductive_cases edits_NilE2: "edits n xs []"

lemma edits_append: "edits n xs ys \<Longrightarrow> edits m us vs \<Longrightarrow> edits (n + m) (xs @ us) (ys @ vs)"
  by (induction rule: edits.induct) (auto intro: edits.intros)

lemma edits_rev: "edits n xs ys \<Longrightarrow> edits n (rev xs) (rev ys)"
proof (induction rule: edits.induct)
  case (edits_keep n xs ys x)
  then show ?case using edits_append [OF _ edits.edits_keep [OF edits_Nil]] by fastforce
next
  case (edits_replace n xs ys x y)
  then show ?case using edits_append [OF _ edits.edits_replace [OF edits_Nil]] by fastforce
next
  case (edits_delete n xs ys x)
  then show ?case using edits_append [OF _ edits.edits_delete [OF edits_Nil], of n "rev xs" "rev ys" x] by simp
next
  case (edits_insert n xs ys y)
  then show ?case using edits_append [OF _ edits.edits_insert [OF edits_Nil], of n "rev xs" "rev ys" y] by simp
qed (simp add: edits_Nil)

fun least_edits :: "'a list \<Rightarrow> 'a list \<Rightarrow> nat" where
  "least_edits [] ys = length ys"
| "least_edits xs [] = length xs"
| "least_edits (x # xs) (y # ys) =
     min (min (least_edits (x # xs) ys + 1) (least_edits xs (y # ys) + 1)) (least_edits xs ys + (if x = y then 0 else 1))"

lemma least_edits_Nil [simp]: "least_edits xs [] = length xs"
  by (cases xs) auto

lemma edits_lower: "edits n xs ys \<Longrightarrow> least_edits xs ys \<le> n"
proof (induction rule: edits.induct)
  case (edits_delete n xs ys x)
  then show ?case by (cases ys) auto
next
  case (edits_insert n xs ys y)
  then show ?case by (cases xs) auto
qed auto

lemma edits_reached: "edits (least_edits xs ys) xs ys"
proof (induction xs ys rule: least_edits.induct)
  case (1 ys)
  show ?case by (induction ys) (auto intro: edits.intros)
next
  case (2 x xs)
  have "edits (length zs) zs []" for zs :: "'a list" by (induction zs) (auto intro: edits.intros)
  from this [of "x # xs"] show ?case by simp
next
  case (3 x xs y ys)
  then show ?case by (auto simp: min_def intro: edits.intros)
qed

lemma upt_first: "[0..<Suc n] = 0 # map Suc [0..<n]"
  by (simp add: upt_conv_Cons map_Suc_upt del: upt_Suc)

lemma lev_row_cells:
  "lev_row x bs (map (\<lambda>k. least_edits us (rev (take k bs) @ vs)) [0..<Suc (length bs)]) (least_edits (x # us) vs)
     = map (\<lambda>k. least_edits (x # us) (rev (take (Suc k) bs) @ vs)) [0..<length bs]"
proof (induction bs arbitrary: vs)
  case (Cons b bs)
  let ?row = "map (\<lambda>k. least_edits us (rev (take k bs) @ b # vs)) [0..<Suc (length bs)]"
  have prev: "map (\<lambda>k. least_edits us (rev (take k (b # bs)) @ vs)) [0..<Suc (length (b # bs))] = least_edits us vs # ?row"
    by (subst upt_first) (simp add: o_def del: upt_Suc map_Suc_upt)
  have up: "?row = least_edits us (b # vs) # map (\<lambda>k. least_edits us (rev (take (Suc k) bs) @ b # vs)) [0..<length bs]"
    unfolding upt_first list.map map_map o_def by simp
  show ?case
    unfolding prev using Cons.IH [of "b # vs"]
    by (simp only: up lev_row.simps Let_def) (simp add: upt_first map_Suc_upt [symmetric] o_def del: upt_Suc)
qed simp

lemma lev_rows_cells:
  "lev_rows (length us) xs b (map (\<lambda>k. least_edits us (rev (take k b))) [0..<Suc (length b)])
     = map (\<lambda>k. least_edits (rev xs @ us) (rev (take k b))) [0..<Suc (length b)]"
proof (induction xs arbitrary: us)
  case (Cons x xs)
  have row: "lev_row x b (map (\<lambda>k. least_edits us (rev (take k b))) [0..<Suc (length b)]) (length us + 1)
      = map (\<lambda>k. least_edits (x # us) (rev (take (Suc k) b))) [0..<length b]"
    using lev_row_cells [of x b us "[]"] by simp
  have "(length us + 1) # map (\<lambda>k. least_edits (x # us) (rev (take (Suc k) b))) [0..<length b]
      = map (\<lambda>k. least_edits (x # us) (rev (take k b))) [0..<Suc (length b)]"
    by (simp only: upt_first list.map map_map o_def) simp
  then show ?case using Cons.IH [of "x # us"] row by (simp del: upt_Suc)
qed simp

lemma levenshtein_least: "levenshtein a b = least_edits (rev (chars a)) (rev (chars b))"
proof -
  have "map (\<lambda>k. least_edits [] (rev (take k (chars b)))) [0..<Suc (length (chars b))] = [0..<length (chars b) + 1]"
    by (rule nth_equalityI) (auto simp: min_def simp del: upt_Suc)
  then have "lev_rows 0 (chars a) (chars b) [0..<length (chars b) + 1]
      = map (\<lambda>k. least_edits (rev (chars a)) (rev (take k (chars b)))) [0..<Suc (length (chars b))]"
    using lev_rows_cells [of "[]" "chars a" "chars b"] by simp
  then show ?thesis by (simp add: levenshtein_def Let_def del: upt_Suc)
qed

section \<open>Resolved paths\<close>

lemma canonical_in_data_Ok:
  assumes "canonical_in_data d resolved = Ok canon"
  shows "da_canonicalize d resolved = Canonical canon" "below_root (da_data_path d) canon"
    "set_matches (da_globs d) (da_include_patterns d) (relative_to_data canon (da_data_path d))"
  using assms by (auto simp: canonical_in_data_def split: canonical.splits if_splits)

lemma resolve_within_data_Ok:
  assumes "resolve_within_data d raw = Ok canon"
  obtains names e where "normalize_components [] (components (kb_root_relative raw)) = Some names"
    "inspect_kb_path (da_follow d) (da_tree d) (join [slash] names) = Ok e" "e \<noteq> Missing"
    "canonical_in_data d (path_join (da_data_path d) (join [slash] names)) = Ok canon"
  using assms
  by (auto simp: resolve_within_data_def Let_def split: option.splits outcome.splits kb_entry.splits kb_path_error.splits)

lemma read_document_Ok:
  assumes "read_document d ix canon = Ok doc"
  shows "doc_path doc = canon" "da_read d canon = Inr (doc_content doc)"
  using assms by (auto simp: read_document_def split: sum.splits prod.splits)

lemma get_document_resolved:
  assumes "get_document d ix raw = Ok doc"
  obtains requested where "resolve_within_data d requested = Ok (doc_path doc)" "da_read d (doc_path doc) = Inr (doc_content doc)"
    "requested = raw \<or> (\<exists>paths. li_all_paths ix = Inr paths \<and> requested \<in> set paths)"
proof (cases "resolve_within_data d raw")
  case (Ok canon)
  then show ?thesis using assms that [of raw] read_document_Ok [of d ix canon doc] by (simp add: get_document_def)
next
  case (Err e)
  then have "fuzzy_document d ix raw = Ok doc" using assms by (cases e) (simp_all add: get_document_def)
  then obtain p canon paths where "resolve_within_data d p = Ok canon" "read_document d ix canon = Ok doc"
    "li_all_paths ix = Inr paths" "[p] = filter (\<lambda>p. file_name p = Some (case file_name raw of Some n \<Rightarrow> n | None \<Rightarrow> raw)) paths"
    by (auto simp: fuzzy_document_def Let_def split: list.splits outcome.splits sum.splits)
  moreover from this(4) have "p \<in> set paths" by (metis filter_is_subset list.set_intros(1) subset_iff)
  ultimately show ?thesis using that [of p] read_document_Ok [of d ix canon doc] by auto
qed (use assms in \<open>simp add: get_document_def\<close>)

section \<open>Properties\<close>

text \<open>
  C39. The two-row table computes the edit distance: \<open>levenshtein\<close> is the least number of characters to
  insert, delete or replace that turn one text into the other.
\<close>

theorem levenshtein_is_edit_distance: "levenshtein a b = (LEAST n. edits n (chars a) (chars b))"
proof (rule Least_equality [symmetric])
  show "edits (levenshtein a b) (chars a) (chars b)"
    using edits_rev [OF edits_reached [of "rev (chars a)" "rev (chars b)"]] by (simp add: levenshtein_least)
  show "levenshtein a b \<le> n" if "edits n (chars a) (chars b)" for n
    using edits_lower [OF edits_rev [OF that]] by (simp add: levenshtein_least)
qed

text \<open>
  C12. Reads stay inside the knowledge base. Whatever a caller asks for, as a path or by the fallback on the
  file name: a document that is returned lies below the data root at a path the include patterns admit, it is
  what the operating system says is at a path that was inspected from the root without meeting a link or a
  \<open>.git\<close> directory, and its content was read there.
\<close>

theorem document_reads_stay_inside:
  assumes "get_document d ix raw = Ok doc"
  shows "below_root (da_data_path d) (doc_path doc)
    \<and> set_matches (da_globs d) (da_include_patterns d) (relative_to_data (doc_path doc) (da_data_path d))
    \<and> da_read d (doc_path doc) = Inr (doc_content doc)
    \<and> (\<exists>rel names. collect_names (components rel) = Ok names \<and> list_all (\<lambda>n. \<not> is_git_component n) names
         \<and> inspect_kb_path (da_follow d) (da_tree d) rel \<in> {Ok File, Ok Dir, Ok Other}
         \<and> da_canonicalize d (path_join (da_data_path d) rel) = Canonical (doc_path doc))"
proof -
  obtain requested where r: "resolve_within_data d requested = Ok (doc_path doc)"
    "da_read d (doc_path doc) = Inr (doc_content doc)"
    using get_document_resolved [OF assms] by blast
  obtain names e where n: "inspect_kb_path (da_follow d) (da_tree d) (join [slash] names) = Ok e" "e \<noteq> Missing"
    "canonical_in_data d (path_join (da_data_path d) (join [slash] names)) = Ok (doc_path doc)"
    using resolve_within_data_Ok [OF r(1)] by blast
  obtain found where found: "collect_names (components (join [slash] names)) = Ok found"
    using n(1) by (auto simp: inspect_kb_path_def outcome_simps)
  have "list_all (\<lambda>n. \<not> is_git_component n) found'" if "collect_names cs = Ok found'" for cs found'
    using that by (induction cs arbitrary: found' rule: collect_names.induct) (auto simp: outcome_simps split: if_splits)
  from this [OF found] have "list_all (\<lambda>n. \<not> is_git_component n) found" .
  moreover have "inspect_kb_path (da_follow d) (da_tree d) (join [slash] names) \<in> {Ok File, Ok Dir, Ok Other}"
    using n(1,2) by (cases e) auto
  ultimately show ?thesis using canonical_in_data_Ok [OF n(3)] r(2) found by blast
qed

text \<open>
  Suggestions are the nearest names. When no indexed document has the file name asked for, the answer lists
  as many documents as it may, and none that it leaves out has a name closer to the one asked for.
\<close>

theorem suggestions_are_nearest:
  assumes "resolve_within_data d raw = Err ResNotFound" "li_all_paths ix = Inr paths" "file_name raw = Some basename"
    and "\<forall>p\<in>set paths. file_name p \<noteq> Some basename"
  shows "\<exists>chosen rest. get_document d ix raw = Err (DocNotFound (map (\<lambda>p. relative_to_data p (da_data_path d)) chosen))
    \<and> mset (chosen @ rest) = mset paths \<and> length chosen = min FUZZY_SUGGESTION_COUNT (length paths)
    \<and> (\<forall>c\<in>set chosen. \<forall>r\<in>set rest. levenshtein basename (base_name c) \<le> levenshtein basename (base_name r))"
proof -
  let ?scored = "map (\<lambda>p. (levenshtein basename (base_name p), p)) paths"
  let ?sorted = "sort_key fst ?scored"
  let ?chosen = "map snd (take FUZZY_SUGGESTION_COUNT ?sorted)" and ?rest = "map snd (drop FUZZY_SUGGESTION_COUNT ?sorted)"
  have fst_snd: "fst e = levenshtein basename (base_name (snd e))" if "e \<in> set ?sorted" for e
    using that by auto
  have "mset (?chosen @ ?rest) = mset (map snd ?sorted)" by (metis append_take_drop_id map_append)
  also have "\<dots> = mset paths" by (simp add: multiset.map_comp o_def)
  finally have m: "mset (?chosen @ ?rest) = mset paths" .
  have "filter (\<lambda>p. file_name p = Some basename) paths = []" using assms(4) by (simp add: filter_empty_conv)
  then have g: "get_document d ix raw = Err (DocNotFound (map (\<lambda>p. relative_to_data p (da_data_path d)) ?chosen))"
    using assms(1-3) by (simp add: get_document_def fuzzy_document_def Let_def suggestions_def o_def)
  have "sorted (map fst (take FUZZY_SUGGESTION_COUNT ?sorted @ drop FUZZY_SUGGESTION_COUNT ?sorted))"
    using sorted_sort_key [of fst ?scored] by simp
  then have le: "fst c \<le> fst r" if "c \<in> set (take FUZZY_SUGGESTION_COUNT ?sorted)" "r \<in> set (drop FUZZY_SUGGESTION_COUNT ?sorted)" for c r
    using that by (simp add: sorted_append map_append del: append_take_drop_id)
  have "levenshtein basename (base_name (snd c)) \<le> levenshtein basename (base_name (snd r))"
    if "c \<in> set (take FUZZY_SUGGESTION_COUNT ?sorted)" "r \<in> set (drop FUZZY_SUGGESTION_COUNT ?sorted)" for c r
    using le [OF that] fst_snd [OF in_set_takeD [OF that(1)]] fst_snd [OF in_set_dropD [OF that(2)]] by simp
  then have "\<forall>c\<in>set ?chosen. \<forall>r\<in>set ?rest. levenshtein basename (base_name c) \<le> levenshtein basename (base_name r)"
    unfolding set_map by blast
  moreover have "length ?chosen = min FUZZY_SUGGESTION_COUNT (length paths)" by (simp add: min.commute)
  ultimately show ?thesis using g m by blast
qed

definition demo_access :: doc_access where
  "demo_access =
     \<lparr>da_data_path = ''/kb'', da_tree = DirNode [(''a.md'', FileNode), (''docs'', DirNode [(''b.md'', FileNode)])],
      da_follow = (\<lambda>_ _. NotFound), da_denied = (\<lambda>_. False), da_io_error = (\<lambda>_. []), da_canonicalize = Canonical,
      da_globs = \<lparr>glob_valid = (\<lambda>_. True), set_builds = (\<lambda>_. True), glob_matches = (\<lambda>_ p. p \<in> {''a.md'', ''docs/b.md''})\<rparr>,
      da_include_patterns = [''**/*.md''], da_read = (\<lambda>p. Inr (''text of '' @ p))\<rparr>"

definition demo_links :: "string link_index" where
  "demo_links = \<lparr>li_all_paths = Inr [''a.md'', ''docs/b.md''], li_links_out = (\<lambda>_ _. Inl ''down''), li_links_in = (\<lambda>_ _. Inr ([], 0))\<rparr>"

lemma demo_fuzzy:
  "get_document demo_access demo_links ''old/b.md'' =
     Ok \<lparr>doc_path = ''/kb/docs/b.md'', doc_content = ''text of /kb/docs/b.md'', doc_links_out = ([], 0), doc_links_in = ([], 0)\<rparr>"
  by code_simp

lemma document_reads_stay_inside_witness: "below_root ''/kb'' ''/kb/docs/b.md''"
  using document_reads_stay_inside [OF demo_fuzzy] by (simp add: demo_access_def)

lemma suggestions_are_nearest_witness:
  "\<exists>chosen. get_document demo_access demo_links ''docs/c.md'' = Err (DocNotFound chosen) \<and> length chosen = 2"
proof -
  have r: "resolve_within_data demo_access ''docs/c.md'' = Err ResNotFound" "file_name ''docs/c.md'' = Some ''c.md''"
    "\<forall>p\<in>set [''a.md'', ''docs/b.md'']. file_name p \<noteq> Some ''c.md''" by code_simp+
  have ix: "li_all_paths demo_links = Inr [''a.md'', ''docs/b.md'']" by (simp add: demo_links_def)
  from suggestions_are_nearest [OF r(1) ix r(2,3)] show ?thesis by (auto simp: FUZZY_SUGGESTION_COUNT_def)
qed

end
