(* ===== verification/ChangesFeed.thy ===== *)
theory ChangesFeed
  imports DocAccess
begin

text \<open>
  The paged list of changed documents, \<open>changes_since_json\<close> of \<open>src/src/retrieval.rs\<close>, with its cursors. The
  runs of git, the reading of timestamps, the hexadecimal coding and the printing of dates are parameters.
\<close>

section \<open>Cursors\<close>

record changes_cursor =
  cc_base :: "string option"
  cc_head :: string
  cc_after :: string

definition is_hex_byte :: "char \<Rightarrow> bool" where
  "is_hex_byte b \<longleftrightarrow> (let n = byte_val b in 48 \<le> n \<and> n \<le> 57 \<or> 65 \<le> n \<and> n \<le> 70 \<or> 97 \<le> n \<and> n \<le> 102)"

definition is_sha :: "string \<Rightarrow> bool" where
  "is_sha x \<longleftrightarrow> (length x = 40 \<or> length x = 64) \<and> list_all is_hex_byte x"

text \<open>The environment: the hexadecimal coding, timestamps, and the queries to git.\<close>

datatype commit_diff_error = UnknownRevision string | GitFailed string

record changes_env =
  ce_hex_encode :: "string \<Rightarrow> string"
  ce_hex_decode :: "string \<Rightarrow> string option"
  ce_parse_timestamp :: "string \<Rightarrow> int option"
  ce_print_date :: "int \<Rightarrow> string"
  ce_is_git_repo :: bool
  ce_resolve_commit_id :: "string \<Rightarrow> commit_diff_error + string"
  ce_head_commit :: "string + string option"
  ce_changes_base_at :: "string \<Rightarrow> int \<Rightarrow> string + string option"
  ce_net_changes :: "string option \<Rightarrow> string \<Rightarrow> string + net_change list"
  ce_last_commit :: "string option \<Rightarrow> string \<Rightarrow> string \<Rightarrow> string + commit_info option"
  ce_globs :: globs

definition encode_cursor :: "changes_env \<Rightarrow> changes_cursor \<Rightarrow> string" where
  "encode_cursor env c =
     (case cc_base c of Some b \<Rightarrow> b | None \<Rightarrow> ''-'') @ ''.'' @ cc_head c @ ''.'' @ ce_hex_encode env (cc_after c)"

definition decode_cursor :: "changes_env \<Rightarrow> string \<Rightarrow> changes_cursor option" where
  "decode_cursor env s =
     (case split_on (CHR ''.'') s of
        [base, head, after] \<Rightarrow>
          if \<not> is_sha head \<or> \<not> (base = ''-'' \<or> is_sha base) then None
          else (case ce_hex_decode env after of
              None \<Rightarrow> None
            | Some after \<Rightarrow> Some \<lparr>cc_base = (if base \<noteq> ''-'' then Some base else None), cc_head = head, cc_after = after\<rparr>)
      | _ \<Rightarrow> None)"

section \<open>Changes a caller may see\<close>

record visible_change =
  vc_kind :: net_change_kind
  vc_path :: string
  vc_old_path :: "string option"

definition visible_change :: "(string \<Rightarrow> bool) \<Rightarrow> (string \<Rightarrow> bool) \<Rightarrow> net_change \<Rightarrow> visible_change option" where
  "visible_change is_doc in_prefix change =
     (let shown = (\<lambda>p. is_doc p \<and> in_prefix p) in
      case (nc_kind change, nc_old_path change) of
        (Renamed, Some old) \<Rightarrow>
          (case (shown old, shown (nc_path change)) of
             (True, True) \<Rightarrow> Some \<lparr>vc_kind = Renamed, vc_path = nc_path change, vc_old_path = Some old\<rparr>
           | (False, True) \<Rightarrow> Some \<lparr>vc_kind = Added, vc_path = nc_path change, vc_old_path = None\<rparr>
           | (True, False) \<Rightarrow> Some \<lparr>vc_kind = Deleted, vc_path = old, vc_old_path = None\<rparr>
           | (False, False) \<Rightarrow> None)
      | (kind, old_path) \<Rightarrow>
          if shown (nc_path change)
          then Some \<lparr>vc_kind = kind, vc_path = nc_path change, vc_old_path = old_path\<rparr> else None)"

definition MAX_CHANGES_PARAM_LEN :: nat where
  "MAX_CHANGES_PARAM_LEN = 4096"

definition DEFAULT_CHANGES_LIMIT :: nat where
  "DEFAULT_CHANGES_LIMIT = 50"

definition MAX_CHANGES_LIMIT :: nat where
  "MAX_CHANGES_LIMIT = 200"

datatype changes_since_error = Invalid string | GitError string

section \<open>The request\<close>

record changes_request =
  cr_include_commit :: bool
  cr_indexing :: indexing_config
  cr_since :: "string option"
  cr_path_prefix :: "string option"
  cr_limit :: "nat option"
  cr_cursor :: "string option"

definition page_limit :: "changes_request \<Rightarrow> nat" where
  "page_limit req =
     max 1 (min (case cr_limit req of Some l \<Rightarrow> l | None \<Rightarrow> DEFAULT_CHANGES_LIMIT) MAX_CHANGES_LIMIT)"

fun check_lengths :: "(string \<times> string option) list \<Rightarrow> changes_since_error option" where
  "check_lengths [] = None"
| "check_lengths ((name, v) # rest) =
     (if (case v of Some s \<Rightarrow> MAX_CHANGES_PARAM_LEN < length s | None \<Rightarrow> False)
      then Some (Invalid (name @ '' exceeds maximum length of '' @ dec MAX_CHANGES_PARAM_LEN @ '' characters''))
      else check_lengths rest)"

fun unknown_commit :: "string \<Rightarrow> commit_diff_error \<Rightarrow> changes_since_error" where
  "unknown_commit what (UnknownRevision r) = Invalid (''unknown '' @ what @ '' '' @ [CHR 39] @ r @ [CHR 39])"
| "unknown_commit what (GitFailed e) = GitError e"

text \<open>A range: base, head, and the last path already returned.\<close>

type_synonym changes_range = "string option \<times> string \<times> string option"

definition cursor_range :: "changes_env \<Rightarrow> string \<Rightarrow> changes_since_error + changes_range" where
  "cursor_range env raw =
     (case decode_cursor env (trim raw) of
        None \<Rightarrow> Inl (Invalid ''invalid cursor'')
      | Some c \<Rightarrow>
          (case ce_resolve_commit_id env (cc_head c) of
             Inl e \<Rightarrow> Inl (unknown_commit ''cursor commit'' e)
           | Inr _ \<Rightarrow>
               (case cc_base c of
                  None \<Rightarrow> Inr (None, cc_head c, Some (cc_after c))
                | Some b \<Rightarrow>
                    (case ce_resolve_commit_id env b of
                       Inl e \<Rightarrow> Inl (unknown_commit ''cursor commit'' e)
                     | Inr _ \<Rightarrow> Inr (Some b, cc_head c, Some (cc_after c))))))"

text \<open>\<open>Inr None\<close>: there is no commit yet, so nothing has changed.\<close>

definition since_range :: "changes_env \<Rightarrow> string option \<Rightarrow> changes_since_error + changes_range option" where
  "since_range env since =
     (case (case since of Some s \<Rightarrow> if trim s \<noteq> [] then Some (trim s) else None | None \<Rightarrow> None) of
        None \<Rightarrow> Inl (Invalid ''since is required (a timestamp or a commit id)'')
      | Some since \<Rightarrow>
          (case ce_head_commit env of
             Inl e \<Rightarrow> Inl (GitError e)
           | Inr None \<Rightarrow>
               (case ce_parse_timestamp env since of
                  None \<Rightarrow> Inl (Invalid (''unknown commit '' @ [CHR 39] @ since @ [CHR 39]))
                | Some _ \<Rightarrow> Inr None)
           | Inr (Some head) \<Rightarrow>
               (case ce_parse_timestamp env since of
                  Some ts \<Rightarrow>
                    (case ce_changes_base_at env head ts of
                       Inl e \<Rightarrow> Inl (GitError e)
                     | Inr base \<Rightarrow> Inr (Some (base, head, None)))
                | None \<Rightarrow>
                    (case ce_resolve_commit_id env since of
                       Inl e \<Rightarrow> Inl (unknown_commit ''commit'' e)
                     | Inr base \<Rightarrow> Inr (Some (Some base, head, None))))))"

definition establish_range :: "changes_env \<Rightarrow> changes_request \<Rightarrow> changes_since_error + changes_range option" where
  "establish_range env req =
     (case cr_cursor req of
        Some raw \<Rightarrow> (case cursor_range env raw of Inl e \<Rightarrow> Inl e | Inr r \<Rightarrow> Inr (Some r))
      | None \<Rightarrow> since_range env (cr_since req))"

definition in_prefix :: "string option \<Rightarrow> string \<Rightarrow> bool" where
  "in_prefix path_prefix p =
     (case normalize_path_needle (map_option (\<lambda>p. kb_root_relative (trim p)) path_prefix) of
        None \<Rightarrow> True
      | Some pre \<Rightarrow> p = pre \<or> starts_with p pre \<and> starts_with (drop (length pre) p) [slash])"

definition is_doc :: "changes_env \<Rightarrow> indexing_config \<Rightarrow> string \<Rightarrow> bool" where
  "is_doc env indexing p =
     (case path_filter_from_config (ce_globs env) indexing of Ok f \<Rightarrow> is_indexable (ce_globs env) f p | _ \<Rightarrow> True)"

text \<open>All changes of the range a caller may see, in the order of their paths.\<close>

definition visible_changes :: "changes_env \<Rightarrow> changes_request \<Rightarrow> net_change list \<Rightarrow> visible_change list" where
  "visible_changes env req raw =
     sort_key vc_path (List.map_filter (visible_change (is_doc env (cr_indexing req)) (in_prefix (cr_path_prefix req)))
       (sort_key nc_path raw))"

definition after_cursor :: "string option \<Rightarrow> visible_change list \<Rightarrow> visible_change list" where
  "after_cursor after changes =
     (case after of Some a \<Rightarrow> filter (\<lambda>c. a < vc_path c) changes | None \<Rightarrow> changes)"

fun status_str :: "net_change_kind \<Rightarrow> string" where
  "status_str Added = ''added''"
| "status_str Modified = ''modified''"
| "status_str Deleted = ''deleted''"
| "status_str Renamed = ''renamed''"

definition change_json :: "changes_env \<Rightarrow> bool \<Rightarrow> visible_change \<Rightarrow> commit_info option \<Rightarrow> json" where
  "change_json env include_commit c commit =
     (let info = (\<lambda>f. case commit of None \<Rightarrow> [] | Some i \<Rightarrow> f i) in
      JObject (info (\<lambda>i. [(''author'', JString (ci_author_name i))])
        @ info (\<lambda>i. if include_commit then [(''commit'', JString (ci_sha i))] else [])
        @ info (\<lambda>i. [(''date'', JString (ce_print_date env (ci_timestamp i)))])
        @ (case vc_old_path c of Some old \<Rightarrow> [(''old_path'', JString old)] | None \<Rightarrow> [])
        @ info (\<lambda>i. case ci_operation i of Some op \<Rightarrow> [(''operation'', JString op)] | None \<Rightarrow> [])
        @ [(''path'', JString (vc_path c)), (''status'', JString (status_str (vc_kind c)))]
        @ info (\<lambda>i. [(''subject'', JString (ci_subject i))])))"

text \<open>The first commit lookup that failed ends the request.\<close>

fun changes_entries ::
    "changes_env \<Rightarrow> bool \<Rightarrow> string option \<Rightarrow> string \<Rightarrow> visible_change list \<Rightarrow> changes_since_error + json list" where
  "changes_entries env include_commit base head [] = Inr []"
| "changes_entries env include_commit base head (c # cs) =
     (case ce_last_commit env base head (vc_path c) of
        Inl e \<Rightarrow> Inl (GitError e)
      | Inr commit \<Rightarrow>
          (case changes_entries env include_commit base head cs of
             Inl e \<Rightarrow> Inl e
           | Inr entries \<Rightarrow> Inr (change_json env include_commit c commit # entries)))"

record changes_page =
  cp_available :: bool
  cp_head :: "string option"
  cp_changes :: "json list"
  cp_truncated :: bool
  cp_next_cursor :: "string option"

definition no_changes :: "bool \<Rightarrow> changes_page" where
  "no_changes available =
     \<lparr>cp_available = available, cp_head = None, cp_changes = [], cp_truncated = False, cp_next_cursor = None\<rparr>"

definition range_page :: "changes_env \<Rightarrow> changes_request \<Rightarrow> changes_range \<Rightarrow> changes_since_error + changes_page" where
  "range_page env req span =
     (case span of (base, head, after) \<Rightarrow>
        case ce_net_changes env base head of
          Inl e \<Rightarrow> Inl (GitError e)
        | Inr raw \<Rightarrow>
            let visible = after_cursor after (visible_changes env req raw);
                more = page_limit req < length visible;
                shown = take (page_limit req) visible
            in (case changes_entries env (cr_include_commit req) base head shown of
                Inl e \<Rightarrow> Inl e
              | Inr entries \<Rightarrow>
                  Inr \<lparr>cp_available = True, cp_head = Some head, cp_changes = entries, cp_truncated = more \<and> shown \<noteq> [],
                    cp_next_cursor = (if more \<and> shown \<noteq> []
                      then Some (encode_cursor env \<lparr>cc_base = base, cc_head = head, cc_after = vc_path (last shown)\<rparr>)
                      else None)\<rparr>))"

definition changes_since :: "changes_env \<Rightarrow> changes_request \<Rightarrow> changes_since_error + changes_page" where
  "changes_since env req =
     (case check_lengths [(''since'', cr_since req), (''cursor'', cr_cursor req), (''path_prefix'', cr_path_prefix req)] of
        Some e \<Rightarrow> Inl e
      | None \<Rightarrow>
          if \<not> ce_is_git_repo env then Inr (no_changes False)
          else (case establish_range env req of
              Inl e \<Rightarrow> Inl e
            | Inr None \<Rightarrow> Inr (no_changes True)
            | Inr (Some span) \<Rightarrow> range_page env req span))"

definition page_json :: "changes_page \<Rightarrow> json" where
  "page_json p =
     JObject ([(''available'', JBool (cp_available p))]
       @ (if cp_available p then [(''changes'', JArray (cp_changes p))] else [])
       @ (case cp_head p of Some head \<Rightarrow> [(''head'', JString head)] | None \<Rightarrow> [])
       @ (case cp_next_cursor p of Some c \<Rightarrow> [(''next_cursor'', JString c)] | None \<Rightarrow> [])
       @ (if cp_truncated p then [(''truncated'', JBool True)] else []))"

definition changes_since_json :: "changes_env \<Rightarrow> changes_request \<Rightarrow> changes_since_error + json" where
  "changes_since_json env req = (case changes_since env req of Inl e \<Rightarrow> Inl e | Inr p \<Rightarrow> Inr (page_json p))"

section \<open>Cursors are read back\<close>

definition plain_byte :: "char \<Rightarrow> bool" where
  "plain_byte b \<longleftrightarrow> 33 \<le> byte_val b \<and> byte_val b < 127"

lemma chars_plain: "list_all plain_byte s \<Longrightarrow> chars s = map (\<lambda>b. [b]) s"
proof (induction s)
  case (Cons b s)
  have "takeWhile is_cont s = []" "dropWhile is_cont s = s"
    using Cons.prems by (cases s; simp add: is_cont_def plain_byte_def)+
  then show ?case using Cons by simp
qed simp

lemma trim_plain: "list_all plain_byte s \<Longrightarrow> trim s = s"
proof -
  assume s: "list_all plain_byte s"
  have w: "\<not> is_whitespace c" if "c \<in> set (chars s)" for c
    using that s by (auto simp: chars_plain list_all_iff is_whitespace_def plain_byte_def Let_def)
  have "dropWhile is_whitespace (chars s) = chars s"
    using w by (cases "chars s") auto
  moreover have "dropWhile is_whitespace (rev (chars s)) = rev (chars s)"
    using w by (cases "rev (chars s)") (auto simp: rev_eq_Cons_iff)
  ultimately show ?thesis by (simp add: trim_def drop_right_def)
qed

lemma hex_plain:
  assumes "list_all is_hex_byte x"
  shows "list_all plain_byte x" "CHR ''.'' \<notin> set x"
  using assms by (induction x) (auto simp: is_hex_byte_def plain_byte_def Let_def)

lemma sha_plain:
  assumes "is_sha x"
  shows "list_all plain_byte x" "CHR ''.'' \<notin> set x" "length x \<le> 64" "x \<noteq> ''-''"
  using assms hex_plain [of x] by (auto simp: is_sha_def)

text \<open>What is documented of the coding: two digits for each byte, and decoding undoes encoding.\<close>

definition hex_laws :: "changes_env \<Rightarrow> bool" where
  "hex_laws env \<longleftrightarrow>
     (\<forall>s. list_all is_hex_byte (ce_hex_encode env s) \<and> length (ce_hex_encode env s) = 2 * length s
        \<and> ce_hex_decode env (ce_hex_encode env s) = Some s)"

definition pinned :: "changes_cursor \<Rightarrow> bool" where
  "pinned c \<longleftrightarrow> is_sha (cc_head c) \<and> (\<forall>b. cc_base c = Some b \<longrightarrow> is_sha b)"

lemma decode_encode_cursor:
  assumes "hex_laws env" "pinned c"
  shows "decode_cursor env (trim (encode_cursor env c)) = Some c"
    and "length (encode_cursor env c) \<le> 130 + 2 * length (cc_after c)"
proof -
  let ?b = "case cc_base c of Some b \<Rightarrow> b | None \<Rightarrow> ''-''"
  have b: "list_all plain_byte ?b" "CHR ''.'' \<notin> set ?b" "length ?b \<le> 64" "?b = ''-'' \<longleftrightarrow> cc_base c = None" "cc_base c = None \<or> is_sha ?b"
    using assms(2) sha_plain by (auto simp: pinned_def plain_byte_def split: option.splits)
  have h: "is_sha (cc_head c)" using assms(2) by (simp add: pinned_def)
  note h' = sha_plain [OF h]
  have a: "list_all is_hex_byte (ce_hex_encode env (cc_after c))" "length (ce_hex_encode env (cc_after c)) = 2 * length (cc_after c)"
    "ce_hex_decode env (ce_hex_encode env (cc_after c)) = Some (cc_after c)"
    using assms(1) by (simp_all add: hex_laws_def)
  note a' = hex_plain [OF a(1)]
  have "trim (encode_cursor env c) = encode_cursor env c"
    using b(1) h'(1) a'(1) by (intro trim_plain) (simp add: encode_cursor_def plain_byte_def)
  moreover have "split_on (CHR ''.'') (encode_cursor env c) = [?b, cc_head c, ce_hex_encode env (cc_after c)]"
    using b(2) h'(2) a'(2) by (simp add: encode_cursor_def split_on_append split_on_single)
  ultimately show "decode_cursor env (trim (encode_cursor env c)) = Some c"
    using b(4,5) h a(3) by (auto simp: decode_cursor_def split: option.splits)
  show "length (encode_cursor env c) \<le> 130 + 2 * length (cc_after c)"
    using b(3) h'(3) a(2) by (simp add: encode_cursor_def)
qed

text \<open>The cursor of a page that ends at a long path is longer than a cursor may be.\<close>

lemma long_cursor_refused:
  assumes "hex_laws env" "pinned c" "2030 \<le> length (cc_after c)"
  shows "\<exists>e. check_lengths [(''cursor'', Some (encode_cursor env c))] = Some e"
proof -
  have "40 \<le> length (cc_head c)" "length (ce_hex_encode env (cc_after c)) = 2 * length (cc_after c)"
    using assms(1,2) by (auto simp: pinned_def is_sha_def hex_laws_def)
  then have "MAX_CHANGES_PARAM_LEN < length (encode_cursor env c)"
    using assms(3) by (simp add: encode_cursor_def MAX_CHANGES_PARAM_LEN_def)
  then show ?thesis by simp
qed

section \<open>Following the cursors\<close>

text \<open>What a caller reads who follows \<open>next_cursor\<close> for at most \<open>n\<close> pages.\<close>

fun read_feed :: "nat \<Rightarrow> changes_env \<Rightarrow> changes_request \<Rightarrow> changes_since_error + json list" where
  "read_feed 0 env req = Inr []"
| "read_feed (Suc n) env req =
     (case changes_since env req of
        Inl e \<Rightarrow> Inl e
      | Inr p \<Rightarrow>
          (case cp_next_cursor p of
             None \<Rightarrow> Inr (cp_changes p)
           | Some c \<Rightarrow>
               (case read_feed n env (req\<lparr>cr_cursor := Some c\<rparr>) of
                  Inl e \<Rightarrow> Inl e
                | Inr rest \<Rightarrow> Inr (cp_changes p @ rest))))"

lemma entries_append:
  "changes_entries env ic base head (xs @ ys) = Inr es \<Longrightarrow>
     \<exists>es1 es2. changes_entries env ic base head xs = Inr es1 \<and> changes_entries env ic base head ys = Inr es2 \<and> es = es1 @ es2"
  by (induction xs arbitrary: es) (fastforce split: sum.splits)+

lemma entries_length: "changes_entries env ic base head xs = Inr es \<Longrightarrow> length es = length xs"
  by (induction xs arbitrary: es) (auto split: sum.splits)

lemma after_nth:
  assumes "sorted (map vc_path xs)" "distinct (map vc_path xs)" "k < length xs"
  shows "filter (\<lambda>c. vc_path (xs ! k) < vc_path c) xs = drop (Suc k) xs"
proof -
  let ?p = "\<lambda>c. vc_path (xs ! k) < vc_path c"
  have s: "sorted_wrt (<) (map vc_path xs)" using assms(1,2) by (simp add: strict_sorted_iff)
  have lt: "vc_path (xs ! i) < vc_path (xs ! j)" if "i < j" "j < length xs" for i j
    using sorted_wrt_nth_less [OF s that(1)] that by simp
  have "filter ?p (take (Suc k) xs) = []"
  proof (rule filter_False, intro ballI)
    fix c assume "c \<in> set (take (Suc k) xs)"
    then obtain i where "i < Suc k" "i < length xs" "c = xs ! i" by (auto simp: in_set_conv_nth)
    then show "\<not> ?p c" using lt [of i k] assms(3) by (cases "i = k") (auto dest: order.asym)
  qed
  moreover have "filter ?p (drop (Suc k) xs) = drop (Suc k) xs"
  proof (rule filter_True, intro ballI)
    fix c assume "c \<in> set (drop (Suc k) xs)"
    then obtain i where "i < length xs - Suc k" "c = xs ! (Suc k + i)" by (auto simp: in_set_conv_nth)
    then show "?p c" using lt [of k "Suc k + i"] by simp
  qed
  moreover have "filter ?p xs = filter ?p (take (Suc k) xs) @ filter ?p (drop (Suc k) xs)"
    by (metis append_take_drop_id filter_append)
  ultimately show ?thesis by simp
qed

text \<open>A request whose range is read: the commits exist and are named by their ids.\<close>

definition feed_reads :: "changes_env \<Rightarrow> string option \<Rightarrow> string \<Rightarrow> bool" where
  "feed_reads env base head \<longleftrightarrow>
     hex_laws env \<and> ce_is_git_repo env \<and> pinned \<lparr>cc_base = base, cc_head = head, cc_after = []\<rparr>
     \<and> (\<forall>c. c = head \<or> base = Some c \<longrightarrow> (\<exists>i. ce_resolve_commit_id env c = Inr i))"

lemma range_page_step:
  assumes "ce_net_changes env base head = Inr raw" "after_cursor after (visible_changes env req raw) = vs"
    and "changes_entries env (cr_include_commit req) base head vs = Inr es"
  shows "range_page env req (base, head, after) = Inr
    \<lparr>cp_available = True, cp_head = Some head, cp_changes = take (page_limit req) es,
     cp_truncated = page_limit req < length vs,
     cp_next_cursor = (if page_limit req < length vs
       then Some (encode_cursor env \<lparr>cc_base = base, cc_head = head, cc_after = vc_path (vs ! (page_limit req - 1))\<rparr>)
       else None)\<rparr>"
proof -
  let ?l = "page_limit req"
  have l: "1 \<le> ?l" by (simp add: page_limit_def)
  obtain es1 es2 where e: "changes_entries env (cr_include_commit req) base head (take ?l vs) = Inr es1" "es = es1 @ es2"
    using entries_append [of env "cr_include_commit req" base head "take ?l vs" "drop ?l vs" es] assms(3) by auto
  have "length es1 = min ?l (length vs)" "length es = length vs"
    using entries_length [OF e(1)] entries_length [OF assms(3)] by simp_all
  then have "es1 = take ?l es" using e(2) by (auto simp: min_def split: if_splits)
  moreover have "take ?l vs \<noteq> [] \<and> last (take ?l vs) = vs ! (?l - 1)" if "?l < length vs"
  proof -
    have "take ?l vs \<noteq> []" "length (take ?l vs) = ?l" using that l by auto
    then show ?thesis using l by (simp add: last_conv_nth)
  qed
  ultimately show ?thesis using assms(1,2) e(1) by (auto simp: range_page_def Let_def)
qed

lemma read_feed_from:
  assumes "feed_reads env base head" "ce_net_changes env base head = Inr raw" "visible_changes env req raw = vs"
    and "distinct (map vc_path vs)" "\<forall>c\<in>set vs. length (vc_path c) \<le> 1980"
    and "changes_entries env (cr_include_commit req) base head vs = Inr es"
    and "check_lengths [(''since'', cr_since req), (''path_prefix'', cr_path_prefix req)] = None"
  shows "changes_since env req = range_page env req (base, head, after) \<Longrightarrow> after_cursor after vs = drop k vs
    \<Longrightarrow> length vs - k < n \<Longrightarrow> read_feed n env req = Inr (drop k es)"
  using assms(3,6,7)
proof (induction n arbitrary: req k after)
  case (Suc n)
  let ?l = "page_limit req"
  have l: "1 \<le> ?l" by (simp add: page_limit_def)
  have len: "length es = length vs" by (rule entries_length [OF Suc.prems(5)])
  have de: "changes_entries env (cr_include_commit req) base head (drop k vs) = Inr (drop k es)"
  proof -
    obtain es1 es2 where e: "changes_entries env (cr_include_commit req) base head (take k vs) = Inr es1"
      "changes_entries env (cr_include_commit req) base head (drop k vs) = Inr es2" "es = es1 @ es2"
      using entries_append [of env "cr_include_commit req" base head "take k vs" "drop k vs" es] Suc.prems(5) by auto
    have "length es1 = min k (length vs)" using entries_length [OF e(1)] by simp
    then have "drop k es = es2" using e(3) len entries_length [OF e(2)] by (auto simp: min_def split: if_splits)
    then show ?thesis using e(2) by simp
  qed
  note page = range_page_step [OF assms(2) _ de, of after, unfolded Suc.prems(4), OF Suc.prems(2)]
  show ?case
  proof (cases "?l < length (drop k vs)")
    case False
    then show ?thesis using Suc.prems(1) page len by simp
  next
    case True
    let ?a = "vc_path (vs ! (k + ?l - 1))"
    let ?cursor = "\<lparr>cc_base = base, cc_head = head, cc_after = ?a\<rparr>"
    let ?req = "req\<lparr>cr_cursor := Some (encode_cursor env ?cursor)\<rparr>"
    have k: "k + ?l - 1 < length vs" using True by simp
    have nth: "drop k vs ! (?l - 1) = vs ! (k + ?l - 1)" using True l by simp
    have pin: "pinned ?cursor" and hex: "hex_laws env" using assms(1) by (simp_all add: feed_reads_def pinned_def)
    note dec = decode_encode_cursor [OF hex pin]
    have "length ?a \<le> 1980" using assms(5) k nth_mem by blast
    then have "check_lengths [(''since'', cr_since ?req), (''cursor'', cr_cursor ?req), (''path_prefix'', cr_path_prefix ?req)] = None"
      using Suc.prems(6) dec(2) by (auto simp: MAX_CHANGES_PARAM_LEN_def split: if_splits)
    moreover have "establish_range env ?req = Inr (Some (base, head, Some ?a))"
      using assms(1) dec(1)
      by (cases base) (auto simp: establish_range_def cursor_range_def feed_reads_def split: sum.splits)
    ultimately have "changes_since env ?req = range_page env ?req (base, head, Some ?a)"
      using assms(1) by (simp add: changes_since_def feed_reads_def)
    moreover have "after_cursor (Some ?a) vs = drop (k + ?l) vs"
    proof -
      have "sorted (map vc_path vs)" using Suc.prems(4) by (auto simp: visible_changes_def)
      from after_nth [OF this assms(4) k] l show ?thesis by (simp add: after_cursor_def)
    qed
    moreover have "length vs - (k + ?l) < n" using Suc.prems(3) l True by simp
    moreover have "visible_changes env ?req raw = vs" using Suc.prems(4) by (simp add: visible_changes_def)
    ultimately have rest: "read_feed n env ?req = Inr (drop (k + ?l) es)"
      using Suc.prems(5,6) by (intro Suc.IH) simp_all
    have cut: "drop k es = take ?l (drop k es) @ drop (k + ?l) es"
      using append_take_drop_id [of ?l "drop k es", symmetric] by (simp only: drop_drop add.commute)
    have "read_feed (Suc n) env req = Inr (take ?l (drop k es) @ drop (k + ?l) es)"
      using True by (simp only: read_feed.simps Suc.prems(1) page nth if_True sum.case option.case changes_page.simps rest)
    then show ?thesis by (simp only: cut [symmetric])
  qed
qed simp

section \<open>Properties\<close>


text \<open>A repository in which three documents changed since the commit asked for.\<close>

definition nibble :: "nat \<Rightarrow> char" where
  "nibble n = char_of (if n < 10 then n + 48 else n + 87)"

fun demo_hex :: "string \<Rightarrow> string" where
  "demo_hex [] = []"
| "demo_hex (b # bs) = nibble (byte_val b div 16) # nibble (byte_val b mod 16) # demo_hex bs"

definition unnibble :: "char \<Rightarrow> nat" where
  "unnibble c = (if byte_val c < 58 then byte_val c - 48 else byte_val c - 87)"

fun demo_unhex :: "string \<Rightarrow> string option" where
  "demo_unhex [] = Some []"
| "demo_unhex [a] = None"
| "demo_unhex (a # b # rest) = map_option (Cons (char_of (16 * unnibble a + unnibble b))) (demo_unhex rest)"

definition demo_changes_env :: changes_env where
  "demo_changes_env =
     \<lparr>ce_hex_encode = demo_hex, ce_hex_decode = demo_unhex, ce_parse_timestamp = (\<lambda>_. None), ce_print_date = (\<lambda>_. ''now''),
      ce_is_git_repo = True, ce_resolve_commit_id = Inr, ce_head_commit = Inr (Some (replicate 40 CHR ''b'')),
      ce_changes_base_at = (\<lambda>_ _. Inr None),
      ce_net_changes = (\<lambda>_ _. Inr (map (\<lambda>p. \<lparr>nc_kind = Modified, nc_path = p, nc_old_path = None\<rparr>) [''c.md'', ''a.md'', ''b.md''])),
      ce_last_commit = (\<lambda>_ _ _. Inr None),
      ce_globs = \<lparr>glob_valid = (\<lambda>_. True), set_builds = (\<lambda>_. True), glob_matches = (\<lambda>_ _. True)\<rparr>\<rparr>"

definition demo_changes_request :: changes_request where
  "demo_changes_request =
     \<lparr>cr_include_commit = False, cr_indexing = \<lparr>ic_include = [''**''], ic_exclude = [], ic_exclude_files = []\<rparr>,
      cr_since = Some (replicate 40 CHR ''a''), cr_path_prefix = None, cr_limit = Some 2, cr_cursor = None\<rparr>"

lemma nibble_byte: "n < 16 \<Longrightarrow> is_hex_byte (nibble n) \<and> unnibble (nibble n) = n"
  by (auto simp: nibble_def unnibble_def is_hex_byte_def Let_def)

lemma demo_hex_laws: "hex_laws demo_changes_env"
proof -
  have "list_all is_hex_byte (demo_hex s) \<and> length (demo_hex s) = 2 * length s \<and> demo_unhex (demo_hex s) = Some s" for s
  proof (induction s)
    case (Cons b s)
    have "byte_val b < 256" by (cases b) (simp add: of_char_def)
    then have "byte_val b div 16 < 16" "byte_val b mod 16 < 16" by (simp_all add: less_mult_imp_div_less)
    then have "is_hex_byte (nibble (byte_val b div 16)) \<and> unnibble (nibble (byte_val b div 16)) = byte_val b div 16"
      "is_hex_byte (nibble (byte_val b mod 16)) \<and> unnibble (nibble (byte_val b mod 16)) = byte_val b mod 16"
      by (simp_all only: nibble_byte)
    then show ?case using Cons by simp
  qed simp
  then show ?thesis by (simp add: hex_laws_def demo_changes_env_def)
qed


end
