(* ===== verification/Spec2Isabelle.thy ===== *)
theory Spec2Isabelle
  imports Prelude Json JsonMap Headings Chunks Status Paths Reindex Retrieval ToolSchema Dotpath Frontmatter
    Links LinkRewrite Schemas SchemaCascade SchemaViews
    Projection Validate ValidateSpec GitText GitSync GitLaws WritePipeline WriteSpec WriteIndex
    MovePipeline MoveSpec SearchFunnel DocAccess ChangesFeed
begin

text \<open>
  A verification development of mcp-md-wiki, a server that indexes a git-backed markdown knowledge base
  and answers searches and reads over MCP and HTTP. All sources named below are under \<open>src/src/\<close>.

  The program. Markdown files under one directory are walked (\<open>ingest.rs\<close>), filtered by globs, parsed
  into a heading tree (\<open>heading.rs\<close>), cut into chunks (\<open>chunk.rs\<close>) and written to a vector store and a
  relational store. Every change goes through one dirty-path queue with one worker (\<open>reindex.rs\<close>),
  whose runs are recorded for observation (\<open>status.rs\<close>). Readers ask for line ranges, outlines or
  sections of a document (\<open>retrieval.rs\<close>), over the same heading model the chunks were cut by, so that
  a chunk's line numbers and heading path can be used to read the document back.

  The theories.
  \<^item> \<open>Prelude\<close>: outcomes (\<open>Ok\<close>, \<open>Err\<close>, \<open>Panic\<close>), byte strings with the operations of Rust's \<open>str\<close> the
    sources call, decimal printing, shared lemmas. \<open>Json\<close>: the JSON values of \<open>serde_json\<close>.
  \<^item> \<open>Headings\<close>, \<open>heading.rs\<close>: \<open>line_index\<close> is \<open>LineIndex\<close>, \<open>heading_tree_parse\<close> is
    \<open>HeadingTree::parse\<close>: \<open>scan_event\<close> is one turn of its loop over parser events, \<open>close_open\<close> its inner
    loop over the stack, \<open>place_heading\<close> one turn of the second loop. Then \<open>path\<close>, \<open>common_ancestor\<close>,
    \<open>SectionId\<close>, and the cleaning and normalisation of heading text. Shown: the stack algorithm
    refines a declarative tree (C14), no range is inverted, a subtree range holds exactly the
    descendants (C15), the common ancestor is the deepest, line and byte positions agree,
    cleaning is idempotent and bounded, path keys are injective.
  \<^item> \<open>Chunks\<close>, \<open>chunk.rs\<close>: \<open>split_sections\<close>, \<open>add_section\<close> (one turn of the main loop of
    \<open>chunk_markdown\<close>), \<open>split_oversized\<close> with \<open>add_fragment\<close> and \<open>flush_tail\<close>, \<open>finish_chunk\<close>. Shown: text
    is conserved (C16), cited lines lie in the attributed section (C17), no chunk crosses a heading
    when heading metadata is on (C18), the body offset recovers the body text, the breadcrumb
    fits its reserve, the payload keys of a heading path answer run queries (C19). The invariant
    proofs share the locale \<open>chunk_invariant\<close>.
  \<^item> \<open>Status\<close>, \<open>status.rs\<close>: \<open>inner\<close> is the state behind the lock, \<open>status_step\<close> the interleaving of
    operations by holders of guards. Shown: a run in flight has a live guard (C20), a late guard cannot
    cancel a newer run (C21), query metrics and cumulative histograms count what was recorded.
  \<^item> \<open>Paths\<close>, \<open>ingest.rs\<close> and \<open>schema.rs\<close>: link paths, path filters, \<open>inspect_kb_path\<close>, the walk over a tree
    of nodes. Shown: links written resolve back (C22), no link resolves outside the root, path
    ancestors end at directory boundaries, inspection follows no symbolic link (C23), the walk and
    the inspection agree (C24).
  \<^item> \<open>Reindex\<close>, \<open>reindex.rs\<close> and \<open>apply_rebuild\<close> of \<open>schema.rs\<close>: \<open>system\<close> is queue, status, schema cache and
    the worker's position; \<open>producer_step\<close> and \<open>worker_step\<close> interleave freely. Shown: no wakeup is lost
    (C25), drained work goes to a unit, work dropped for an invalid schema is recovered (C26),
    retries are bounded and back off as intended (C27), the rebuild policy keeps the last good
    cache and one error streak. The error cell is used through the locale \<open>error_cell\<close>.
  \<^item> \<open>Retrieval\<close>, \<open>retrieval.rs\<close>: line ranges, outlines, section lookup, climbing, caps, views. Shown: no
    request panics (C28), a heading path resolves only when unambiguous (C29), climbing follows the
    tree, a truncated read can be continued without loss (C30), a capped outline keeps the
    shallowest entries.

  \<^item> \<open>ToolSchema\<close>, \<open>tool_schema.rs\<close>: \<open>make_self_contained\<close> inlines references, \<open>compact\<close> drops noise, on
    JSON objects as association lists (\<open>JsonMap\<close>). The recursion over references takes fuel; \<open>settles\<close>
    says that it ends with one result for all large enough fuel. Shown: schemas whose definitions are
    not bare references are rewritten to schemas without references or boolean subschemas (C31).
  \<^item> \<open>Dotpath\<close>, \<open>schema.rs\<close> and \<open>write.rs\<close>: reading, setting and removing at a dot path, which the locale
    \<open>field_store\<close> specifies. \<open>Frontmatter\<close>, \<open>write.rs\<close>: \<open>split_frontmatter_bytes\<close>, the splicing of
    \<open>apply_frontmatter_patch\<close> and \<open>apply_append\<close>; YAML is a parameter. Shown: a patch keeps the bytes of
    every entry it does not change and of the body (C38), an append extends the document.
  \<^item> \<open>Links\<close>, \<open>ingest.rs\<close> and \<open>write.rs\<close>: the line scanner (\<open>scan_from\<close> is the loop of
    \<open>scan_line_constructs\<close>), resolution, and the span edits; \<open>LinkRewrite\<close> holds what the scanner guarantees
    about spans. Shown: moving a document rewrites exactly the path parts of its links, never panics
    on a range, and the links keep their targets (C40).

  \<^item> \<open>Schemas\<close>, \<open>schema.rs\<close>: declared types and \<open>FIELD_KINDS\<close>, field paths, the field tree, \<open>merge_node\<close>,
    the flat view (\<open>from_tree\<close>), the cascade over directories (\<open>merge_cascade\<close>, \<open>resolve_for\<close>).
    \<open>SchemaCascade\<close> holds a flat model of a schema file, a list of declarations on a map from paths to
    attributes, and the simulation (C32); \<open>SchemaViews\<close> shows that a document's schema is the
    merge of the files above it (C33) and that the flat view and the lookup in the tree agree
    (C34).
  \<^item> \<open>Projection\<close>, \<open>document_fields.rs\<close>: canonical text, the rows of the metadata index, the payload of the
    vector store. Shown: the row cap drops a suffix only, one spelling per number.
  \<^item> \<open>Validate\<close>, \<open>validate.rs\<close> and the checks of \<open>schema.rs\<close>: \<open>check_field\<close> and \<open>check_value\<close> are the walk,
    which returns the errors it pushes; defaults, the lint command, the broken-link report. \<open>ValidateSpec\<close>
    states the violations as inductive relations. Shown: the errors are the violations
    (C35), defaults never override (C37), what validation accepts fits the payload
    indexes (C36).

  \<^item> \<open>GitText\<close>, \<open>git.rs\<close> and \<open>write.rs\<close>: what is written to git and read back from it as text. Shown: redaction
    hides the injected token (C7), changed paths and commits printed by git are read back
    (C8, C9), path arguments are batched within the budget.
  \<^item> \<open>GitSync\<close>, \<open>git.rs\<close>: \<open>commit_and_sync\<close> split at its phases (\<open>commit_staged\<close>, \<open>sync_commit\<close>,
    \<open>rebase_commit\<close>, \<open>after_rebase\<close>, \<open>push_commit\<close>, \<open>conflicting\<close>), \<open>sync_to_remote\<close>, the rollback commands. Git is a
    function from the arguments of a run and the clone to the way the run ended and the clone after it.
    \<open>GitLaws\<close> states the laws of git as named hypotheses over a view of the clone (HEAD, working copy, trees);
    shown: every outcome of a commit says what became of the clone (C4).
  \<^item> \<open>WritePipeline\<close>, \<open>write.rs\<close>: \<open>write_document\<close> for a create and an edit: guards, validation, duplicate gate,
    \<open>apply_change\<close> with the three-way merge, the attempts, rollback and undo; \<open>pipe\<close> is clone, queue and the
    request for attention. \<open>WriteSpec\<close> adds the laws of the file system. Shown: no write leaves an uncommitted
    change unannounced (C1), a synced success reports HEAD and the version in it
    (C3). \<open>WriteIndex\<close>: the queue hears of every change of an indexable path
    (C2).
  \<^item> \<open>MovePipeline\<close>, \<open>write.rs\<close>: \<open>delete_document_with\<close>, \<open>write_document_move\<close> with its archive branch, and the
    rewriting of inbound links they share; the query for inbound links is a parameter. \<open>MoveSpec\<close> follows the set of
    files that may differ from HEAD: neither a move nor a delete leaves one behind unannounced
    (C5, C6).

  \<^item> \<open>SearchFunnel\<close>, \<open>retrieval.rs\<close>: \<open>search_paged\<close> (\<open>fetch_hits\<close>, the path filter, the score floor, then \<open>rerank_step\<close> or
    the plain ranking, then the page), \<open>search_grouped\<close>, \<open>search_sections\<close>, the quoted phrases. Shown: a page holds
    only what was found, within the caps, whatever the reranker answers (C10); with a reranker,
    pages are windows of one ranking (C11).
  \<^item> \<open>DocAccess\<close>, \<open>retrieval.rs\<close>: \<open>resolve_within_data\<close>, \<open>get_document\<close> with its fallback on the file name. Shown: reads
    stay inside the knowledge base (C12), the table of \<open>levenshtein\<close> computes the least
    number of edits (C39), suggestions are the nearest names.
  \<^item> \<open>ChangesFeed\<close>, \<open>retrieval.rs\<close>: \<open>changes_since_json\<close> and its cursors. Shown: following the cursors reads every
    visible change once, in order (C13).

  Conventions. Strings are byte strings (lists of \<open>char\<close> below 256) where the source slices by byte
  offset, and lists of characters where it iterates \<open>chars()\<close>; \<open>usize\<close> line numbers and lengths are
  \<open>nat\<close>, since they are bounded by the size of a text in memory, with every subtraction that can
  underflow written as the source has it (\<open>saturating_sub\<close>) or as a \<open>Panic\<close> branch. Counters with a
  width that matters are words. Every loop is structural or has a measure, the retry loop included, except
  the inlining of schema references, which takes fuel and is shown to settle.

  Parameters. Git and the file system below the write pipeline, the duplicate search, the embedder, the tokenizer of
  queries, the vector store and its conditions, the reranker, the document index, the hexadecimal coding and
  the timestamps of the changes feed, the markdown parser,
  the text splitter, the glob matcher, Unicode case folding, the frontmatter parser, JSON encoding lengths
  and the operating system's view behind symbolic links are arguments of the definitions that use them. The
  hypotheses on them are named (\<open>splitter_ok\<close>, \<open>git_laws\<close>, \<open>file_laws\<close>, \<open>reads_work\<close>,
  \<open>hex_laws\<close>, \<open>feed_reads\<close> and others) and each has a
  concrete instance in the witnesses.

  Not modelled: the Postgres, Qdrant, embedding and reranking clients and the pipelines that only sequence
  calls to them, batch edits and the moves of directories, cloning and repair of the git
  repository, HTTP routing and rendering, configuration parsing, the scheduled report jobs.
\<close>

end
